(* ===== verification/Prelude.thy ===== *)
theory Prelude
  imports Main "HOL-Library.Word"
begin

text \<open>
  Shared vocabulary of the development: the machine types of the Go sources, the error values
  every handler returns, and the generic lemmas on lists, words and association lists that the
  component theories use through the simplifier or through the collections below.

  Go's \<open>uint64\<close>, \<open>uint32\<close>, \<open>uint16\<close> and \<open>byte\<close> are \<open>word\<close>s of that width, so \<open>+\<close> and \<open>*\<close> wrap as
  they do in Go. Go's \<open>int64\<close>, \<open>int32\<close> and Postgres' \<open>BIGINT\<close> are \<open>int\<close>; the conversions between
  the two, where the code relies on or suffers from wrap-around, are \<open>go_int64\<close>, \<open>go_uint64\<close> and
  \<open>go_int32\<close>. A Go \<open>string\<close> is a byte string and is a \<open>string\<close> here; a \<open>[]byte\<close> is a
  list of bytes.
\<close>

named_theorems conv_simps "conversions between int64 and uint64"
named_theorems id_simps "facts about tables whose ids ascend"

type_synonym byte = "8 word"
type_synonym bytes = "byte list"
type_synonym u16 = "16 word"
type_synonym u32 = "32 word"
type_synonym u64 = "64 word"

subsection \<open>Errors as values\<close>

text \<open>
  The gRPC status codes the sources return, and the error values: a gRPC status, a plain
  \<open>errors.New\<close>, the store's \<open>AlreadyExistsError\<close> wrapper, and \<open>Panic\<close> for a goroutine that
  panics (an index out of range, a nil dereference, \<open>log.Panic\<close>).
\<close>

datatype grpc_code =
    Canceled | InvalidArgument | DeadlineExceeded | ResourceExhausted | PermissionDenied
  | Unimplemented | Unavailable | Internal | Aborted

datatype go_error =
    Status grpc_code string
  | Err string
  | AlreadyExistsError go_error
  | Panic string

type_synonym 'a result = "go_error + 'a"

subsection \<open>Integer conversions\<close>

definition go_int64 :: "u64 \<Rightarrow> int" where
  "go_int64 c = sint c"

definition go_uint64 :: "int \<Rightarrow> u64" where
  "go_uint64 i = word_of_int i"

definition go_int32 :: "u32 \<Rightarrow> int" where
  "go_int32 c = sint c"

definition go_uint32 :: "int \<Rightarrow> u32" where
  "go_uint32 i = word_of_int i"

lemma uint_go_uint64 [conv_simps]:
  "0 \<le> i \<Longrightarrow> i < 2 ^ 63 \<Longrightarrow> uint (go_uint64 i) = i"
  by (simp add: go_uint64_def uint_word_of_int)

lemma go_int64_eq: "go_int64 c = (if uint c < 2 ^ 63 then uint c else uint c - 2 ^ 64)"
proof -
  have bound: "0 \<le> uint c" "uint c < 2 ^ 64" using uint_lt2p [of c] by simp_all
  have shift: "go_int64 c = (uint c + 2 ^ 63) mod 2 ^ 64 - 2 ^ 63"
    by (simp add: go_int64_def sint_uint signed_take_bit_eq_take_bit_shift take_bit_eq_mod)
  show ?thesis
  proof (cases "uint c < 2 ^ 63")
    case True
    with bound shift show ?thesis by (simp add: mod_pos_pos_trivial)
  next
    case False
    then have "(uint c + 2 ^ 63) mod 2 ^ 64 = (uint c - 2 ^ 63) mod 2 ^ 64"
      using mod_add_self2 [of "uint c - 2 ^ 63" "2 ^ 64"] by (simp add: add.commute)
    with False bound shift show ?thesis by (simp add: mod_pos_pos_trivial)
  qed
qed

lemma go_int64_small [conv_simps]:
  "uint c < 2 ^ 63 \<Longrightarrow> go_int64 c = uint c"
  by (simp add: go_int64_eq)

lemma go_int64_large [conv_simps]:
  "2 ^ 63 \<le> uint c \<Longrightarrow> go_int64 c = uint c - 2 ^ 64"
  by (simp add: go_int64_eq)

lemma go_int64_go_uint64 [conv_simps]:
  "0 \<le> i \<Longrightarrow> i < 2 ^ 63 \<Longrightarrow> go_int64 (go_uint64 i) = i"
  by (simp add: go_int64_eq uint_go_uint64)

lemma go_int32_small [conv_simps]:
  assumes "uint c < 2 ^ 31"
  shows "go_int32 c = uint c"
proof -
  have "go_int32 c = (uint c + 2 ^ 31) mod 2 ^ 32 - 2 ^ 31"
    by (simp add: go_int32_def sint_uint signed_take_bit_eq_take_bit_shift take_bit_eq_mod)
  with assms show ?thesis by (simp add: mod_pos_pos_trivial)
qed

lemma unat_byte_less [simp]: "unat (b :: byte) < 256"
  using unsigned_less [of b] by simp

lemma unat_byte_div [simp]: "unat (b :: byte) div 16 < 16"
  using unat_byte_less [of b] by linarith

end
