(* ===== verification/Topics.thy ===== *)
theory Topics
  imports Prelude "HOL-Library.Sublist"
begin

text \<open>
  Hex text and topic strings. \<open>hex_encode\<close> and \<open>hex_decode\<close> model Go's \<open>encoding/hex\<close> (the \<open>%x\<close>
  verb and \<open>hex.DecodeString\<close>) as used by pkg/utils/hex.go, pkg/topic/mls.go and
  pkg/mls/api/v1/service.go. The rest models pkg/topic (the MLS topics and the legacy topic
  categories) and the wire topics of pkg/mls/api/v1/subscribe.go.

  The lemmas show that the hex text round-trips, that the map from identifiers to topic strings
  is injective and that group and welcome topics never collide, which is what every per-topic
  map of the subscription code relies on.
\<close>

section \<open>Hex text\<close>

definition hex_digit :: "nat \<Rightarrow> char" where
  "hex_digit n = ''0123456789abcdef'' ! n"

definition hex_val :: "char \<Rightarrow> nat option" where
  "hex_val c =
     (let n = of_char c :: nat in
      if 48 \<le> n \<and> n \<le> 57 then Some (n - 48)
      else if 97 \<le> n \<and> n \<le> 102 then Some (n - 87)
      else if 65 \<le> n \<and> n \<le> 70 then Some (n - 55)
      else None)"

fun hex_encode :: "bytes \<Rightarrow> string" where
  "hex_encode [] = []"
| "hex_encode (b # bs) = hex_digit (unat b div 16) # hex_digit (unat b mod 16) # hex_encode bs"

definition err_hex :: go_error where
  "err_hex = Err ''encoding/hex: invalid input''"

fun hex_decode :: "string \<Rightarrow> bytes result" where
  "hex_decode [] = Inr []"
| "hex_decode [c] = Inl err_hex"
| "hex_decode (c # d # cs) =
     (case (hex_val c, hex_val d) of
        (Some h, Some l) \<Rightarrow>
          (case hex_decode cs of
             Inl e \<Rightarrow> Inl e
           | Inr bs \<Rightarrow> Inr (word_of_nat (16 * h + l) # bs))
      | _ \<Rightarrow> Inl err_hex)"

lemma hex_val_digit [simp]:
  assumes "n < 16"
  shows "hex_val (hex_digit n) = Some n"
proof -
  have "n \<in> set [0..<16]" using assms by simp
  then show ?thesis
    unfolding upt_conv_Cons_Cons by (auto simp: hex_val_def hex_digit_def upt_rec numeral_eq_Suc)
qed

lemma hex_decode_encode [simp]: "hex_decode (hex_encode bs) = Inr bs"
  by (induction bs) simp_all

lemma hex_encode_inj [simp]: "hex_encode xs = hex_encode ys \<longleftrightarrow> xs = ys"
proof
  assume "hex_encode xs = hex_encode ys"
  then have "hex_decode (hex_encode xs) = hex_decode (hex_encode ys)" by simp
  then show "xs = ys" by simp
qed simp

lemma length_hex_encode [simp]: "length (hex_encode bs) = 2 * length bs"
  by (induction bs) auto

lemma hex_encode_chars: "c \<in> set (hex_encode bs) \<Longrightarrow> hex_val c \<noteq> None"
  by (induction bs) auto

section \<open>MLS topics: pkg/topic/mls.go\<close>

definition mlsv1Prefix :: string where
  "mlsv1Prefix = ''/xmtp/mls/1/''"

definition IsMLSV1 :: "string \<Rightarrow> bool" where
  "IsMLSV1 topic = prefix mlsv1Prefix topic"

definition IsMLSV1Group :: "string \<Rightarrow> bool" where
  "IsMLSV1Group topic = prefix (mlsv1Prefix @ ''g-'') topic"

definition IsMLSV1Welcome :: "string \<Rightarrow> bool" where
  "IsMLSV1Welcome topic = prefix (mlsv1Prefix @ ''w-'') topic"

definition BuildMLSV1GroupTopic :: "bytes \<Rightarrow> string" where
  "BuildMLSV1GroupTopic groupId = mlsv1Prefix @ ''g-'' @ hex_encode groupId @ ''/proto''"

definition BuildMLSV1WelcomeTopic :: "bytes \<Rightarrow> string" where
  "BuildMLSV1WelcomeTopic installationId = mlsv1Prefix @ ''w-'' @ hex_encode installationId @ ''/proto''"

lemma BuildMLSV1GroupTopic_inj [simp]:
  "BuildMLSV1GroupTopic a = BuildMLSV1GroupTopic b \<longleftrightarrow> a = b"
  by (simp add: BuildMLSV1GroupTopic_def)

lemma BuildMLSV1WelcomeTopic_inj [simp]:
  "BuildMLSV1WelcomeTopic a = BuildMLSV1WelcomeTopic b \<longleftrightarrow> a = b"
  by (simp add: BuildMLSV1WelcomeTopic_def)

lemma group_welcome_topic_neq [simp]:
  "BuildMLSV1GroupTopic a \<noteq> BuildMLSV1WelcomeTopic b"
  "BuildMLSV1WelcomeTopic b \<noteq> BuildMLSV1GroupTopic a"
  by (simp_all add: BuildMLSV1GroupTopic_def BuildMLSV1WelcomeTopic_def)

lemma IsMLSV1Welcome_topics [simp]:
  "IsMLSV1Welcome (BuildMLSV1WelcomeTopic a)"
  "\<not> IsMLSV1Welcome (BuildMLSV1GroupTopic a)"
  by (simp_all add: IsMLSV1Welcome_def BuildMLSV1GroupTopic_def BuildMLSV1WelcomeTopic_def
      mlsv1Prefix_def)

lemma IsMLSV1Group_topics [simp]:
  "IsMLSV1Group (BuildMLSV1GroupTopic a)"
  "\<not> IsMLSV1Group (BuildMLSV1WelcomeTopic a)"
  by (simp_all add: IsMLSV1Group_def BuildMLSV1GroupTopic_def BuildMLSV1WelcomeTopic_def
      mlsv1Prefix_def)

lemma IsMLSV1_topics [simp]:
  "IsMLSV1 (BuildMLSV1GroupTopic a)" "IsMLSV1 (BuildMLSV1WelcomeTopic a)"
  by (simp_all add: IsMLSV1_def BuildMLSV1GroupTopic_def BuildMLSV1WelcomeTopic_def)

section \<open>Wire topics: pkg/mls/api/v1/subscribe.go\<close>

text \<open>
  A wire topic is a kind byte and an identifier; \<open>buildMLSTopic\<close> maps the pair to the topic string
  that keys every per-topic map of a stream.
\<close>

definition topicKindGroupMessagesV1 :: byte where
  "topicKindGroupMessagesV1 = 0"

definition topicKindWelcomeMessagesV1 :: byte where
  "topicKindWelcomeMessagesV1 = 1"

definition splitTopic :: "bytes \<Rightarrow> (byte \<times> bytes) result" where
  "splitTopic t =
     (if length t < 2 then Inl (Err ''topic must be a kind byte plus an identifier'')
      else let kind = hd t in
        if kind \<noteq> topicKindGroupMessagesV1 \<and> kind \<noteq> topicKindWelcomeMessagesV1
        then Inl (Err ''unsupported topic kind'')
        else Inr (kind, tl t))"

definition buildMLSTopic :: "byte \<Rightarrow> bytes \<Rightarrow> string" where
  "buildMLSTopic kind ident =
     (if kind = topicKindWelcomeMessagesV1 then BuildMLSV1WelcomeTopic ident
      else BuildMLSV1GroupTopic ident)"

lemmas topic_kind_defs = topicKindGroupMessagesV1_def topicKindWelcomeMessagesV1_def

lemma splitTopic_Inr_iff:
  "splitTopic t = Inr (k, i) \<longleftrightarrow>
     t = k # i \<and> i \<noteq> [] \<and> (k = topicKindGroupMessagesV1 \<or> k = topicKindWelcomeMessagesV1)"
  by (cases t) (auto simp: splitTopic_def Let_def Suc_le_eq not_less)

lemma splitTopic_Inl_iff:
  "(\<exists>e. splitTopic t = Inl e) \<longleftrightarrow>
     length t < 2 \<or> hd t \<notin> {topicKindGroupMessagesV1, topicKindWelcomeMessagesV1}"
  by (auto simp: splitTopic_def Let_def)

section \<open>Legacy topics: pkg/topic/topic.go\<close>

definition topicCategoryByPrefix :: "(string \<times> string) list" where
  "topicCategoryByPrefix =
    [(''test'', ''test''), (''contact'', ''contact''), (''intro'', ''v1-intro''),
     (''dm'', ''v1-conversation''), (''dmE'', ''v1-conversation-ephemeral''),
     (''invite'', ''v2-invite''), (''groupInvite'', ''v2-group-invite''),
     (''m'', ''v2-conversation''), (''mE'', ''v2-conversation-ephemeral''),
     (''privatestore'', ''private''), (''userpreferences'', ''userpreferences'')]"

definition TrimPrefix :: "string \<Rightarrow> string \<Rightarrow> string" where
  "TrimPrefix s p = (if prefix p s then drop (length p) s else s)"

definition Cut_dash :: "string \<Rightarrow> string \<times> bool" where
  "Cut_dash s = (takeWhile (\<lambda>c. c \<noteq> CHR ''-'') s, CHR ''-'' \<in> set s)"

definition Category :: "string \<Rightarrow> string" where
  "Category contentTopic =
     (if prefix ''test-'' contentTopic then ''test''
      else let topic = TrimPrefix contentTopic ''/xmtp/0/'' in
        if length topic = length contentTopic then ''invalid''
        else let (pre, hasPrefix) = Cut_dash topic in
          if hasPrefix then
            (case map_of topicCategoryByPrefix pre of
               Some category \<Rightarrow> category
             | None \<Rightarrow> ''invalid'')
          else ''invalid'')"

definition IsEphemeral :: "string \<Rightarrow> bool" where
  "IsEphemeral contentTopic =
     (Category contentTopic = ''v2-conversation-ephemeral'' \<or>
      Category contentTopic = ''v1-conversation-ephemeral'')"

definition IsUserPreferences :: "string \<Rightarrow> bool" where
  "IsUserPreferences contentTopic = (Category contentTopic = ''userpreferences'')"

lemma Cut_dash_append:
  "CHR ''-'' \<notin> set p \<Longrightarrow> Cut_dash (p @ ''-'' @ r) = (p, True)"
  by (auto simp: Cut_dash_def takeWhile_append)

lemma topicCategoryByPrefix_keys:
  "map_of topicCategoryByPrefix p = Some c \<Longrightarrow> CHR ''-'' \<notin> set p"
  by (auto simp: topicCategoryByPrefix_def split: if_splits)

lemma Category_known:
  "map_of topicCategoryByPrefix p = Some c \<Longrightarrow> Category (''/xmtp/0/'' @ p @ ''-'' @ r) = c"
  by (simp add: Category_def TrimPrefix_def Cut_dash_append [simplified] topicCategoryByPrefix_keys)

text \<open>
  Topic keys are faithful: a wire topic accepted by \<open>splitTopic\<close> is determined by the topic
  string \<open>buildMLSTopic\<close> maps it to, so two different wire topics never share a per-topic slot of
  a stream, and \<open>IsMLSV1Welcome\<close> reads the kind back from the string.
\<close>

theorem wire_topic_key_injective:
  assumes "splitTopic t = Inr (k, i)" and "splitTopic t' = Inr (k', i')"
  shows "(buildMLSTopic k i = buildMLSTopic k' i' \<longleftrightarrow> t = t') \<and>
    (IsMLSV1Welcome (buildMLSTopic k i) \<longleftrightarrow> k = topicKindWelcomeMessagesV1)"
  using assms by (auto simp: splitTopic_Inr_iff buildMLSTopic_def topic_kind_defs)

theorem wire_topic_key_injective_witness:
  "splitTopic [1, 7, 9] = Inr (1, [7, 9]) \<and>
   (buildMLSTopic 1 [7, 9] = buildMLSTopic 0 [7, 9] \<longleftrightarrow> [1, 7, 9 :: byte] = [0, 7, 9])"
proof -
  have h: "splitTopic [1, 7, 9] = Inr (1, [7, 9])" "splitTopic [0, 7, 9] = Inr (0, [7, 9])"
    by (simp_all add: splitTopic_def topic_kind_defs)
  from wire_topic_key_injective [OF h] h(1) show ?thesis by blast
qed

end
