(* ===== verification/Dispatcher.thy ===== *)
theory Dispatcher
  imports Topics
begin

text \<open>
  The in-memory fan-out of pkg/subscriptions (dispatcher.go, subscription.go). A Go
  \<open>*Subscription\<close> is an address into the heap \<open>d_heap\<close>; the dispatcher's map of registered
  subscriptions is the list \<open>d_active\<close> of addresses, in the order Go's \<open>range\<close> happens to visit
  them. A buffered Go channel is its queue, its capacity and whether it was closed; sending on a
  closed channel panics. Every operation holds the dispatcher's mutex for its whole body, so each
  is one atomic step.

  The lemmas show that no send ever hits a closed channel, that one envelope reaches exactly the
  registered subscriptions that want it, independently of the iteration order, and that a consumer
  sees a gap-free prefix of its matching envelopes: whatever is missing is announced by the close.
\<close>

section \<open>State\<close>

record envelope =
  ContentTopic :: string
  TimestampNs :: u64
  Message :: "bytes option"

definition message_bytes :: "envelope \<Rightarrow> bytes" where
  "message_bytes env = (case Message env of None \<Rightarrow> [] | Some b \<Rightarrow> b)"

record channel =
  ch_buf :: "envelope list"
  ch_cap :: nat
  ch_closed :: bool

record subscription =
  MessagesCh :: channel
  topics :: "string set"
  sub_all :: bool

record dispatcher =
  d_heap :: "nat \<Rightarrow> subscription option"
  d_active :: "nat list"
  d_next :: nat

definition allTopicsBacklogLength :: nat where
  "allTopicsBacklogLength = 4096"

definition minBacklogBufferLength :: nat where
  "minBacklogBufferLength = 1024"

definition WILDCARD_TOPIC :: string where
  "WILDCARD_TOPIC = ''*''"

definition v2TopicPrefix :: string where
  "v2TopicPrefix = ''/xmtp/0/''"

lemmas dispatcher_consts =
  allTopicsBacklogLength_def minBacklogBufferLength_def WILDCARD_TOPIC_def

section \<open>Operations\<close>

definition NewSubscriptionDispatcher :: dispatcher where
  "NewSubscriptionDispatcher = \<lparr>d_heap = (\<lambda>_. None), d_active = [], d_next = 0\<rparr>"

definition isValidSubscribeAllTopic :: "string \<Rightarrow> bool" where
  "isValidSubscribeAllTopic contentTopic =
     (prefix v2TopicPrefix contentTopic \<or> IsMLSV1 contentTopic)"

text \<open>The \<open>if\<close> conditions of \<open>HandleEnvelope\<close>'s loop body: whether a subscription wants an envelope.\<close>

definition wants :: "subscription \<Rightarrow> envelope \<Rightarrow> bool" where
  "wants s env =
     (\<not> (sub_all s \<and> \<not> isValidSubscribeAllTopic (ContentTopic env)) \<and>
      (sub_all s \<or> ContentTopic env \<in> topics s))"

definition chan_full :: "channel \<Rightarrow> bool" where
  "chan_full c = (ch_cap c \<le> length (ch_buf c))"

fun handle_loop :: "envelope \<Rightarrow> nat list \<Rightarrow> dispatcher \<Rightarrow> dispatcher result" where
  "handle_loop env [] d = Inr d"
| "handle_loop env (p # ps) d =
     (case d_heap d p of
        None \<Rightarrow> Inl (Panic ''nil subscription'')
      | Some s \<Rightarrow>
          if \<not> wants s env then handle_loop env ps d
          else if ch_closed (MessagesCh s) then Inl (Panic ''send on closed channel'')
          else if \<not> chan_full (MessagesCh s) then
            handle_loop env ps
              (d\<lparr>d_heap := (d_heap d)(p \<mapsto>
                 s\<lparr>MessagesCh := (MessagesCh s)\<lparr>ch_buf := ch_buf (MessagesCh s) @ [env]\<rparr>\<rparr>)\<rparr>)
          else
            handle_loop env ps
              (d\<lparr>d_heap := (d_heap d)(p \<mapsto> s\<lparr>MessagesCh := (MessagesCh s)\<lparr>ch_closed := True\<rparr>\<rparr>),
                 d_active := removeAll p (d_active d)\<rparr>))"

definition HandleEnvelope :: "envelope option \<Rightarrow> dispatcher \<Rightarrow> dispatcher result" where
  "HandleEnvelope env d =
     (case env of None \<Rightarrow> Inr d | Some e \<Rightarrow> handle_loop e (d_active d) d)"

fun log2_loop :: "nat \<Rightarrow> nat \<Rightarrow> nat" where
  "log2_loop n acc = (if 1 < n then log2_loop (n div 2) (acc + 1) else acc)"

declare log2_loop.simps [simp del]

definition log2 :: "nat \<Rightarrow> nat" where
  "log2 n = (if n = 0 then 0 else log2_loop n 0)"

definition new_sub :: "string set \<Rightarrow> bool \<Rightarrow> nat \<Rightarrow> subscription" where
  "new_sub ts al cap =
     \<lparr>MessagesCh = \<lparr>ch_buf = [], ch_cap = cap, ch_closed = False\<rparr>, topics = ts, sub_all = al\<rparr>"

definition register :: "subscription \<Rightarrow> dispatcher \<Rightarrow> nat \<times> dispatcher" where
  "register s d =
     (d_next d,
      d\<lparr>d_heap := (d_heap d)(d_next d \<mapsto> s), d_active := d_next d # d_active d,
        d_next := Suc (d_next d)\<rparr>)"

definition Subscribe :: "string set \<Rightarrow> dispatcher \<Rightarrow> nat \<times> dispatcher" where
  "Subscribe ts d =
     (if WILDCARD_TOPIC \<notin> ts then
        (let size = log2 (card ts) + 1 in
         register (new_sub ts False
           (if size < minBacklogBufferLength then minBacklogBufferLength else size)) d)
      else register (new_sub {} True allTopicsBacklogLength) d)"

definition NewSubscription :: "int \<Rightarrow> dispatcher \<Rightarrow> nat \<times> dispatcher" where
  "NewSubscription bufferSize d =
     register (new_sub {} False
       (nat (if bufferSize < int minBacklogBufferLength then int minBacklogBufferLength
             else bufferSize))) d"

definition Unsubscribe :: "nat \<Rightarrow> dispatcher \<Rightarrow> dispatcher" where
  "Unsubscribe p d = d\<lparr>d_active := removeAll p (d_active d)\<rparr>"

definition sub_Add :: "string list \<Rightarrow> subscription \<Rightarrow> subscription" where
  "sub_Add ts s = (if sub_all s then s else s\<lparr>topics := topics s \<union> set ts\<rparr>)"

definition sub_Remove :: "string list \<Rightarrow> subscription \<Rightarrow> subscription" where
  "sub_Remove ts s = s\<lparr>topics := topics s - set ts\<rparr>"

definition Add :: "nat \<Rightarrow> string list \<Rightarrow> dispatcher \<Rightarrow> dispatcher" where
  "Add p ts d = d\<lparr>d_heap := (d_heap d)(p := map_option (sub_Add ts) (d_heap d p))\<rparr>"

definition Remove :: "nat \<Rightarrow> string list \<Rightarrow> dispatcher \<Rightarrow> dispatcher" where
  "Remove p ts d = d\<lparr>d_heap := (d_heap d)(p := map_option (sub_Remove ts) (d_heap d p))\<rparr>"

text \<open>
  A consumer's receive from \<open>sub.MessagesCh\<close>: the oldest queued envelope; otherwise
  \<open>Closed\<close> on a closed channel, and no step at all (\<open>Blocked\<close>) on an open empty one.
\<close>

datatype recv = Got envelope | Closed | Blocked

definition receive :: "nat \<Rightarrow> dispatcher \<Rightarrow> recv \<times> dispatcher" where
  "receive p d =
     (case d_heap d p of
        None \<Rightarrow> (Blocked, d)
      | Some s \<Rightarrow>
          (case ch_buf (MessagesCh s) of
             e # es \<Rightarrow> (Got e, d\<lparr>d_heap := (d_heap d)(p \<mapsto>
                          s\<lparr>MessagesCh := (MessagesCh s)\<lparr>ch_buf := es\<rparr>\<rparr>)\<rparr>)
           | [] \<Rightarrow> (if ch_closed (MessagesCh s) then Closed else Blocked, d)))"

section \<open>What one envelope does\<close>

definition overflows :: "envelope \<Rightarrow> subscription \<Rightarrow> bool" where
  "overflows env s = (wants s env \<and> chan_full (MessagesCh s))"

definition deliver :: "envelope \<Rightarrow> subscription \<Rightarrow> subscription" where
  "deliver env s =
     (if \<not> wants s env then s
      else if chan_full (MessagesCh s) then s\<lparr>MessagesCh := (MessagesCh s)\<lparr>ch_closed := True\<rparr>\<rparr>
      else s\<lparr>MessagesCh := (MessagesCh s)\<lparr>ch_buf := ch_buf (MessagesCh s) @ [env]\<rparr>\<rparr>)"

definition open_at :: "dispatcher \<Rightarrow> nat \<Rightarrow> bool" where
  "open_at d p = (case d_heap d p of None \<Rightarrow> False | Some s \<Rightarrow> \<not> ch_closed (MessagesCh s))"

definition overflows_at :: "dispatcher \<Rightarrow> envelope \<Rightarrow> nat \<Rightarrow> bool" where
  "overflows_at d env p = (case d_heap d p of None \<Rightarrow> False | Some s \<Rightarrow> overflows env s)"

definition dispatched :: "envelope \<Rightarrow> nat set \<Rightarrow> dispatcher \<Rightarrow> dispatcher" where
  "dispatched env P d =
     d\<lparr>d_heap := (\<lambda>p. if p \<in> P then map_option (deliver env) (d_heap d p) else d_heap d p),
       d_active := filter (\<lambda>p. \<not> (p \<in> P \<and> overflows_at d env p)) (d_active d)\<rparr>"

lemma dispatched_insert:
  assumes "d_heap d p = Some s" and "p \<notin> P"
  shows "dispatched env (insert p P) d =
     dispatched env P (d\<lparr>d_heap := (d_heap d)(p \<mapsto> deliver env s),
       d_active := (if overflows env s then removeAll p (d_active d) else d_active d)\<rparr>)"
  using assms
  by (auto simp: dispatched_def overflows_at_def fun_eq_iff removeAll_filter_not_eq
      intro!: dispatcher.equality filter_cong)

lemma handle_loop_spec:
  assumes "distinct ps" and "\<And>p. p \<in> set ps \<Longrightarrow> open_at d p"
  shows "handle_loop env ps d = Inr (dispatched env (set ps) d)"
  using assms
proof (induction ps arbitrary: d)
  case Nil
  show ?case by (simp add: dispatched_def)
next
  case (Cons p ps)
  obtain s where s: "d_heap d p = Some s" "\<not> ch_closed (MessagesCh s)"
    using Cons.prems(2) [of p] by (auto simp: open_at_def split: option.splits)
  let ?d = "d\<lparr>d_heap := (d_heap d)(p \<mapsto> deliver env s),
       d_active := (if overflows env s then removeAll p (d_active d) else d_active d)\<rparr>"
  have "handle_loop env (p # ps) d = handle_loop env ps ?d"
    using s by (simp add: deliver_def overflows_def fun_upd_idem)
  also have "\<dots> = Inr (dispatched env (set ps) ?d)"
    using Cons.prems by (intro Cons.IH) (auto simp: open_at_def)
  also have "dispatched env (set ps) ?d = dispatched env (set (p # ps)) d"
    using dispatched_insert [OF s(1), of "set ps" env] Cons.prems(1) by simp
  finally show ?case .
qed

section \<open>Invariant\<close>

definition sub_ok :: "subscription \<Rightarrow> bool" where
  "sub_ok s \<longleftrightarrow> minBacklogBufferLength \<le> ch_cap (MessagesCh s) \<and>
     length (ch_buf (MessagesCh s)) \<le> ch_cap (MessagesCh s)"

definition disp_inv :: "dispatcher \<Rightarrow> bool" where
  "disp_inv d \<longleftrightarrow> distinct (d_active d) \<and> (\<forall>p \<in> set (d_active d). open_at d p) \<and>
     (\<forall>p s. d_heap d p = Some s \<longrightarrow> p < d_next d \<and> sub_ok s)"

lemma HandleEnvelope_spec:
  "disp_inv d \<Longrightarrow> HandleEnvelope (Some env) d = Inr (dispatched env (set (d_active d)) d)"
  by (simp add: HandleEnvelope_def handle_loop_spec disp_inv_def)

lemma sub_ok_deliver: "sub_ok s \<Longrightarrow> sub_ok (deliver env s)"
  by (auto simp: sub_ok_def deliver_def chan_full_def)

lemma open_at_dispatched:
  "p \<in> P \<Longrightarrow> open_at d p \<Longrightarrow> \<not> overflows_at d env p \<Longrightarrow> open_at (dispatched env P d) p"
  by (auto simp: open_at_def dispatched_def overflows_at_def deliver_def overflows_def
      split: option.splits)

lemma disp_inv_dispatched: "disp_inv d \<Longrightarrow> disp_inv (dispatched env (set (d_active d)) d)"
  unfolding disp_inv_def
proof (intro conjI allI impI ballI; elim conjE)
  fix p
  assume "\<forall>p \<in> set (d_active d). open_at d p"
    and "p \<in> set (d_active (dispatched env (set (d_active d)) d))"
  then show "open_at (dispatched env (set (d_active d)) d) p"
    by (intro open_at_dispatched) (auto simp: dispatched_def)
qed (auto simp: dispatched_def sub_ok_deliver split: if_splits)

lemma disp_inv_active_less: "disp_inv d \<Longrightarrow> p \<in> set (d_active d) \<Longrightarrow> p < d_next d"
  by (auto simp: disp_inv_def open_at_def split: option.splits)

lemma disp_inv_register:
  assumes inv: "disp_inv d" and s: "sub_ok s" "\<not> ch_closed (MessagesCh s)"
    and reg: "register s d = (p, d')"
  shows "disp_inv d'"
proof -
  have fresh: "d_next d \<notin> set (d_active d)" using disp_inv_active_less [OF inv] by blast
  have d': "d' = d\<lparr>d_heap := (d_heap d)(d_next d \<mapsto> s), d_active := d_next d # d_active d,
        d_next := Suc (d_next d)\<rparr>" using reg by (auto simp: register_def)
  have "open_at d' q" if "q \<in> set (d_active d')" for q
    using that inv s fresh by (auto simp: d' open_at_def disp_inv_def)
  moreover have "q < d_next d' \<and> sub_ok t" if "d_heap d' q = Some t" for q t
    using that inv s by (auto simp: d' disp_inv_def less_Suc_eq split: if_splits)
  ultimately show ?thesis using inv fresh by (simp add: disp_inv_def d')
qed

lemma sub_ok_new_sub: "minBacklogBufferLength \<le> cap \<Longrightarrow> sub_ok (new_sub ts al cap)"
  by (simp add: sub_ok_def new_sub_def)

lemma new_sub_open [simp]: "\<not> ch_closed (MessagesCh (new_sub ts al cap))"
  by (simp add: new_sub_def)

lemma disp_inv_new: "disp_inv NewSubscriptionDispatcher"
  by (simp add: disp_inv_def NewSubscriptionDispatcher_def)

lemma disp_inv_Subscribe: "disp_inv d \<Longrightarrow> Subscribe ts d = (p, d') \<Longrightarrow> disp_inv d'"
  by (auto simp: Subscribe_def Let_def dispatcher_consts split: if_splits
      elim!: disp_inv_register [rotated 3] intro!: sub_ok_new_sub)

lemma disp_inv_NewSubscription: "disp_inv d \<Longrightarrow> NewSubscription n d = (p, d') \<Longrightarrow> disp_inv d'"
  by (auto simp: NewSubscription_def dispatcher_consts split: if_splits
      elim!: disp_inv_register [rotated 3] intro!: sub_ok_new_sub)

lemma disp_inv_Unsubscribe: "disp_inv d \<Longrightarrow> disp_inv (Unsubscribe p d)"
  by (auto simp: disp_inv_def Unsubscribe_def open_at_def distinct_removeAll)

text \<open>Updating the topic set or draining the queue of one subscription keeps the invariant.\<close>

lemma disp_inv_heap_upd:
  assumes "disp_inv d"
    and "\<And>s. d_heap d p = Some s \<Longrightarrow> sub_ok (f s) \<and> ch_closed (MessagesCh (f s)) = ch_closed (MessagesCh s)"
  shows "disp_inv (d\<lparr>d_heap := (d_heap d)(p := map_option f (d_heap d p))\<rparr>)"
  using assms by (auto simp: disp_inv_def open_at_def split: option.splits)

lemma disp_inv_Add: "disp_inv d \<Longrightarrow> disp_inv (Add p ts d)"
  unfolding Add_def
  by (rule disp_inv_heap_upd) (auto simp: disp_inv_def sub_ok_def sub_Add_def)

lemma disp_inv_Remove: "disp_inv d \<Longrightarrow> disp_inv (Remove p ts d)"
  unfolding Remove_def
  by (rule disp_inv_heap_upd) (auto simp: disp_inv_def sub_ok_def sub_Remove_def)

lemma receive_heap_upd:
  "snd (receive p d) = d \<or>
   snd (receive p d) = d\<lparr>d_heap := (d_heap d)(p := map_option
     (\<lambda>s. s\<lparr>MessagesCh := (MessagesCh s)\<lparr>ch_buf := tl (ch_buf (MessagesCh s))\<rparr>\<rparr>) (d_heap d p))\<rparr>"
  by (auto simp: receive_def split: option.splits list.splits)

lemma disp_inv_receive:
  assumes "disp_inv d"
  shows "disp_inv (snd (receive p d))"
proof -
  have "disp_inv (d\<lparr>d_heap := (d_heap d)(p := map_option
     (\<lambda>s. s\<lparr>MessagesCh := (MessagesCh s)\<lparr>ch_buf := tl (ch_buf (MessagesCh s))\<rparr>\<rparr>) (d_heap d p))\<rparr>)"
  proof (rule disp_inv_heap_upd [OF assms])
    fix s
    assume "d_heap d p = Some s"
    with assms have "sub_ok s" by (simp add: disp_inv_def)
    then show "sub_ok (s\<lparr>MessagesCh := (MessagesCh s)\<lparr>ch_buf := tl (ch_buf (MessagesCh s))\<rparr>\<rparr>) \<and>
      ch_closed (MessagesCh (s\<lparr>MessagesCh := (MessagesCh s)\<lparr>ch_buf := tl (ch_buf (MessagesCh s))\<rparr>\<rparr>)) =
      ch_closed (MessagesCh s)"
      by (auto simp: sub_ok_def)
  qed
  with assms receive_heap_upd [of p d] show ?thesis by (elim disjE) simp_all
qed

section \<open>Reachable states\<close>

text \<open>One step of the dispatcher: any of its operations, by any caller, in any order.\<close>

inductive disp_step :: "dispatcher \<Rightarrow> dispatcher \<Rightarrow> bool" where
  step_handle: "HandleEnvelope env d = Inr d' \<Longrightarrow> disp_step d d'"
| step_subscribe: "Subscribe ts d = (p, d') \<Longrightarrow> disp_step d d'"
| step_new: "NewSubscription n d = (p, d') \<Longrightarrow> disp_step d d'"
| step_unsubscribe: "disp_step d (Unsubscribe p d)"
| step_add: "disp_step d (Add p ts d)"
| step_remove: "disp_step d (Remove p ts d)"
| step_receive: "disp_step d (snd (receive p d))"

inductive disp_reach :: "dispatcher \<Rightarrow> bool" where
  reach_new: "disp_reach NewSubscriptionDispatcher"
| reach_step: "disp_reach d \<Longrightarrow> disp_step d d' \<Longrightarrow> disp_reach d'"

lemma disp_step_inv: "disp_step d d' \<Longrightarrow> disp_inv d \<Longrightarrow> disp_inv d'"
proof (induction rule: disp_step.induct)
  case (step_handle env d d')
  then show ?case
    by (cases env) (auto simp: HandleEnvelope_spec disp_inv_dispatched HandleEnvelope_def
        handle_loop_spec disp_inv_def [THEN iffD1])
qed (auto intro: disp_inv_Subscribe disp_inv_NewSubscription disp_inv_Unsubscribe disp_inv_Add
    disp_inv_Remove disp_inv_receive)

lemma disp_reach_inv: "disp_reach d \<Longrightarrow> disp_inv d"
  by (induction rule: disp_reach.induct) (auto intro: disp_inv_new disp_step_inv)

section \<open>What one consumer sees\<close>

datatype consumer_op = Dispatch envelope | Receive

fun dispatched_envs :: "consumer_op list \<Rightarrow> envelope list" where
  "dispatched_envs [] = []"
| "dispatched_envs (Dispatch e # ops) = e # dispatched_envs ops"
| "dispatched_envs (Receive # ops) = dispatched_envs ops"

fun consumer_run ::
  "nat \<Rightarrow> consumer_op list \<Rightarrow> envelope list \<Rightarrow> dispatcher \<Rightarrow> (envelope list \<times> dispatcher) result" where
  "consumer_run p [] got d = Inr (got, d)"
| "consumer_run p (Dispatch e # ops) got d =
     (case HandleEnvelope (Some e) d of
        Inl err \<Rightarrow> Inl err
      | Inr d' \<Rightarrow> consumer_run p ops got d')"
| "consumer_run p (Receive # ops) got d =
     (case receive p d of
        (Got e, d') \<Rightarrow> consumer_run p ops (got @ [e]) d'
      | (_, d') \<Rightarrow> consumer_run p ops got d')"

text \<open>
  The relation kept by a run: what the consumer received and what is still queued is a prefix of
  the matching envelopes, and all of them as long as the channel is open.
\<close>

definition seen_ok :: "subscription \<Rightarrow> envelope list \<Rightarrow> envelope list \<Rightarrow> nat \<Rightarrow> dispatcher \<Rightarrow> bool" where
  "seen_ok s sent got p d \<longleftrightarrow>
     disp_inv d \<and>
     (case d_heap d p of
        None \<Rightarrow> False
      | Some t \<Rightarrow> topics t = topics s \<and> sub_all t = sub_all s \<and>
          prefix (got @ ch_buf (MessagesCh t)) (filter (wants s) sent) \<and>
          (ch_closed (MessagesCh t) \<and> p \<notin> set (d_active d) \<or>
           \<not> ch_closed (MessagesCh t) \<and> p \<in> set (d_active d) \<and>
             got @ ch_buf (MessagesCh t) = filter (wants s) sent))"

lemma wants_cong: "topics t = topics s \<Longrightarrow> sub_all t = sub_all s \<Longrightarrow> wants t e = wants s e"
  by (simp add: wants_def)

lemma seen_ok_Dispatch:
  assumes "seen_ok s sent got p d"
  shows "seen_ok s (sent @ [e]) got p (dispatched e (set (d_active d)) d)"
proof -
  from assms obtain t where t: "d_heap d p = Some t" and inv: "disp_inv d"
    and same: "topics t = topics s" "sub_all t = sub_all s"
    by (auto simp: seen_ok_def split: option.splits)
  have w: "wants t e = wants s e" using same by (rule wants_cong)
  have "disp_inv (dispatched e (set (d_active d)) d)" using inv by (rule disp_inv_dispatched)
  then show ?thesis
    using assms t w
    by (auto simp: seen_ok_def dispatched_def overflows_at_def overflows_def deliver_def
        simp flip: append_assoc)
qed

lemma seen_ok_Receive:
  assumes "seen_ok s sent got p d"
  shows "case receive p d of
      (Got e, d') \<Rightarrow> seen_ok s sent (got @ [e]) p d'
    | (_, d') \<Rightarrow> seen_ok s sent got p d'"
  using assms disp_inv_receive [of d p]
  by (auto simp: seen_ok_def receive_def split: option.splits list.splits)

lemma consumer_run_seen:
  assumes "seen_ok s sent got p d"
  shows "\<exists>got' d'. consumer_run p ops got d = Inr (got', d') \<and>
    seen_ok s (sent @ dispatched_envs ops) got' p d'"
  using assms
proof (induction ops arbitrary: sent got d)
  case (Cons op ops)
  show ?case
  proof (cases op)
    case (Dispatch e)
    have "disp_inv d" using Cons.prems by (simp add: seen_ok_def)
    with Dispatch show ?thesis
      using Cons.IH [OF seen_ok_Dispatch [OF Cons.prems, of e]] by (simp add: HandleEnvelope_spec)
  next
    case Receive
    with Cons.IH seen_ok_Receive [OF Cons.prems] show ?thesis
      by (auto split: prod.splits recv.splits)
  qed
qed simp

section \<open>Properties\<close>

lemma log2_loop_bounds:
  "0 < n \<Longrightarrow> \<exists>k. log2_loop n acc = acc + k \<and> 2 ^ k \<le> n \<and> n < 2 * 2 ^ k"
proof (induction n acc rule: log2_loop.induct)
  case (1 n acc)
  show ?case
  proof (cases "1 < n")
    case True
    with "1.IH" obtain k where k: "log2_loop (n div 2) (acc + 1) = acc + 1 + k"
      "2 ^ k \<le> n div 2" "n div 2 < 2 * 2 ^ k" by fastforce
    from k(2,3) have "2 ^ Suc k \<le> n \<and> n < 2 * 2 ^ Suc k"
      unfolding power_Suc by linarith
    with True k(1) show ?thesis
      by (intro exI [of _ "Suc k"]) (simp add: log2_loop.simps [of n acc])
  next
    case False
    with "1.prems" show ?thesis by (simp add: log2_loop.simps [of n acc])
  qed
qed

text \<open>
  The bit-shifting \<open>log2\<close> of the dispatcher computes the floor of the base-2 logarithm of
  every positive number, as its comment promises.
\<close>

theorem log2_floor:
  "0 < n \<Longrightarrow> 2 ^ log2 n \<le> n \<and> n < 2 ^ (log2 n + 1)"
  using log2_loop_bounds [of n 0] by (auto simp: log2_def)

theorem log2_floor_witness: "(0::nat) < 1000 \<and> 2 ^ log2 1000 \<le> (1000::nat) \<and> (1000::nat) < 2 ^ (log2 1000 + 1)"
  using log2_floor [of 1000] by simp

text \<open>
  In every reachable state the dispatcher handles any envelope without panicking: in
  particular it never sends on a channel that it closed before, because closing a full channel
  and unregistering its subscription happen in the same critical section.
\<close>

theorem HandleEnvelope_never_panics:
  assumes "disp_reach d"
  shows "\<exists>d'. HandleEnvelope env d = Inr d' \<and> disp_reach d'"
proof -
  have "\<exists>d'. HandleEnvelope env d = Inr d'"
    using HandleEnvelope_spec [OF disp_reach_inv [OF assms]]
    by (cases env) (auto simp: HandleEnvelope_def)
  then show ?thesis using assms by (blast intro: disp_reach.intros disp_step.intros)
qed

definition test_env :: "string \<Rightarrow> envelope" where
  "test_env t = \<lparr>ContentTopic = t, TimestampNs = 1, Message = Some [1]\<rparr>"

definition test_disp :: dispatcher where
  "test_disp = snd (Subscribe {''/xmtp/0/a''} NewSubscriptionDispatcher)"

lemma test_disp_reach: "disp_reach test_disp"
  unfolding test_disp_def
  by (rule disp_reach.reach_step [OF disp_reach.reach_new])
    (rule disp_step.step_subscribe, rule prod.collapse [symmetric])

theorem HandleEnvelope_never_panics_witness:
  "\<exists>d'. HandleEnvelope (Some (test_env ''/xmtp/0/a'')) test_disp = Inr d' \<and> disp_reach d'"
  by (rule HandleEnvelope_never_panics [OF test_disp_reach])

text \<open>
  Exact, order-independent fan-out: from any reachable state one envelope is queued, as the
  newest element, on every registered subscription that wants it and has room; a subscription that
  wants it but is full is closed and unregistered; every other subscription, and the registration
  of every other subscription, is untouched. The result does not mention the iteration order.
\<close>

theorem HandleEnvelope_exact:
  assumes "disp_reach d"
  shows "\<exists>d'. HandleEnvelope (Some env) d = Inr d' \<and>
    (\<forall>p. d_heap d' p = (if p \<in> set (d_active d) then map_option (deliver env) (d_heap d p)
                        else d_heap d p)) \<and>
    set (d_active d') = {p \<in> set (d_active d). \<not> overflows_at d env p}"
  using disp_reach_inv [OF assms] by (auto simp: HandleEnvelope_spec dispatched_def)

theorem HandleEnvelope_exact_witness:
  "\<exists>d'. HandleEnvelope (Some (test_env ''/xmtp/0/a'')) test_disp = Inr d' \<and>
    (\<forall>p. d_heap d' p = (if p \<in> set (d_active test_disp)
        then map_option (deliver (test_env ''/xmtp/0/a'')) (d_heap test_disp p) else d_heap test_disp p)) \<and>
    set (d_active d') = {p \<in> set (d_active test_disp). \<not> overflows_at test_disp (test_env ''/xmtp/0/a'') p}"
  by (rule HandleEnvelope_exact [OF test_disp_reach])



end
