(* ===== verification/Mls_Types.thy ===== *)
theory Mls_Types
  imports Topics
begin

text \<open>
  The data the MLS components exchange: the protobuf messages of pkg/proto/mls/api/v1/mls.pb.go,
  the database rows of pkg/mls/store/queries/models.go and the welcome wrapper algorithms of
  pkg/types/wrapperAlgorithm.go. A protobuf \<open>oneof\<close> is a datatype with an arm for "not set"; a
  pointer that may be nil is an \<open>option\<close>; the generated getters return zero values on nil.
  A nullable column is an \<open>option\<close>.
\<close>

section \<open>Wrapper algorithms: pkg/types/wrapperAlgorithm.go\<close>

text \<open>
  \<open>WrapperAlgorithm\<close> is a Go \<open>int16\<close> that is stored as such; the two protobuf enums are open,
  so each has an arm for a number the generated code does not name.
\<close>

type_synonym WrapperAlgorithm = int

definition AlgorithmCurve25519 :: WrapperAlgorithm where
  "AlgorithmCurve25519 = 0"

definition AlgorithmXwingMlkem768Draft6 :: WrapperAlgorithm where
  "AlgorithmXwingMlkem768Draft6 = 1"

definition AlgorithmSymmetricKey :: WrapperAlgorithm where
  "AlgorithmSymmetricKey = 2"

datatype WelcomeWrapperAlgorithm =
  WWA_UNSPECIFIED | WWA_CURVE25519 | WWA_XWING_MLKEM_768_DRAFT_6 | WWA_SYMMETRIC_KEY | WWA_OTHER int

datatype WelcomePointerWrapperAlgorithm =
  WPWA_UNSPECIFIED | WPWA_XWING_MLKEM_768_DRAFT_6 | WPWA_OTHER int

lemmas algorithm_defs =
  AlgorithmCurve25519_def AlgorithmXwingMlkem768Draft6_def AlgorithmSymmetricKey_def

fun WrapperAlgorithmFromProto :: "WelcomeWrapperAlgorithm \<Rightarrow> WrapperAlgorithm" where
  "WrapperAlgorithmFromProto WWA_CURVE25519 = AlgorithmCurve25519"
| "WrapperAlgorithmFromProto WWA_XWING_MLKEM_768_DRAFT_6 = AlgorithmXwingMlkem768Draft6"
| "WrapperAlgorithmFromProto WWA_SYMMETRIC_KEY = AlgorithmSymmetricKey"
| "WrapperAlgorithmFromProto _ = AlgorithmCurve25519"

definition WrapperAlgorithmToProto :: "WrapperAlgorithm \<Rightarrow> WelcomeWrapperAlgorithm" where
  "WrapperAlgorithmToProto algorithm =
     (if algorithm = AlgorithmCurve25519 then WWA_CURVE25519
      else if algorithm = AlgorithmXwingMlkem768Draft6 then WWA_XWING_MLKEM_768_DRAFT_6
      else if algorithm = AlgorithmSymmetricKey then WWA_SYMMETRIC_KEY
      else WWA_CURVE25519)"

fun WelcomePointerWrapperAlgorithmFromProto ::
  "WelcomePointerWrapperAlgorithm \<Rightarrow> WrapperAlgorithm result" where
  "WelcomePointerWrapperAlgorithmFromProto WPWA_XWING_MLKEM_768_DRAFT_6 =
     Inr AlgorithmXwingMlkem768Draft6"
| "WelcomePointerWrapperAlgorithmFromProto _ = Inl (Err ''invalid welcome pointer wrapper algorithm'')"

definition WrapperAlgorithmToWelcomePointerWrapperAlgorithm ::
  "WrapperAlgorithm \<Rightarrow> WelcomePointerWrapperAlgorithm" where
  "WrapperAlgorithmToWelcomePointerWrapperAlgorithm algorithm =
     (if algorithm = AlgorithmXwingMlkem768Draft6 then WPWA_XWING_MLKEM_768_DRAFT_6
      else WPWA_UNSPECIFIED)"

lemma WrapperAlgorithm_roundtrip:
  "p \<in> {WWA_CURVE25519, WWA_XWING_MLKEM_768_DRAFT_6, WWA_SYMMETRIC_KEY} \<Longrightarrow>
     WrapperAlgorithmToProto (WrapperAlgorithmFromProto p) = p"
  by (auto simp: WrapperAlgorithmToProto_def algorithm_defs)

lemma WelcomePointerWrapperAlgorithm_roundtrip:
  "WelcomePointerWrapperAlgorithmFromProto p = Inr a \<Longrightarrow>
     WrapperAlgorithmToWelcomePointerWrapperAlgorithm a = p"
  by (cases p) (auto simp: WrapperAlgorithmToWelcomePointerWrapperAlgorithm_def algorithm_defs)

section \<open>Protobuf messages\<close>

record GroupMessage_V1 =
  gm_Id :: u64
  gm_CreatedNs :: u64
  gm_GroupId :: bytes
  gm_Data :: bytes
  gm_SenderHmac :: bytes
  gm_ShouldPush :: bool
  gm_IsCommit :: bool

text \<open>A \<open>GroupMessage\<close> has one version arm, so it is an option of it.\<close>

type_synonym GroupMessage = "GroupMessage_V1 option"

record WelcomeMessage_V1 =
  wm_Id :: u64
  wm_CreatedNs :: u64
  wm_InstallationKey :: bytes
  wm_Data :: bytes
  wm_HpkePublicKey :: bytes
  wm_WrapperAlgorithm :: WelcomeWrapperAlgorithm
  wm_WelcomeMetadata :: bytes

record WelcomeMessage_WelcomePointer =
  wp_Id :: u64
  wp_CreatedNs :: u64
  wp_InstallationKey :: bytes
  wp_WelcomePointer :: bytes
  wp_HpkePublicKey :: bytes
  wp_WrapperAlgorithm :: WelcomePointerWrapperAlgorithm

datatype WelcomeMessage =
    WM_V1 "WelcomeMessage_V1 option"
  | WM_WelcomePointer "WelcomeMessage_WelcomePointer option"
  | WM_Unset

datatype SortDirection = SORT_UNSPECIFIED | SORT_ASCENDING | SORT_DESCENDING | SORT_OTHER int

record PagingInfo =
  pi_Direction :: SortDirection
  pi_Limit :: u32
  pi_IdCursor :: u64

record GroupMessageInput_V1 =
  gmi_Data :: bytes
  gmi_SenderHmac :: bytes
  gmi_ShouldPush :: bool

record WelcomeMessageInput_V1 =
  wmi_InstallationKey :: bytes
  wmi_Data :: bytes
  wmi_HpkePublicKey :: bytes
  wmi_WrapperAlgorithm :: WelcomeWrapperAlgorithm
  wmi_WelcomeMetadata :: bytes

record WelcomeMessageInput_WelcomePointer =
  wpi_InstallationKey :: bytes
  wpi_WelcomePointer :: bytes
  wpi_HpkePublicKey :: bytes
  wpi_WrapperAlgorithm :: WelcomePointerWrapperAlgorithm

datatype WelcomeMessageInput =
    WMI_V1 WelcomeMessageInput_V1
  | WMI_WelcomePointer WelcomeMessageInput_WelcomePointer
  | WMI_Unset

section \<open>Getters\<close>

text \<open>\<open>m.GetV1().GetId()\<close> and its kin on a possibly unset version.\<close>

definition GetGroupId :: "GroupMessage \<Rightarrow> bytes" where
  "GetGroupId m = (case m of None \<Rightarrow> [] | Some v \<Rightarrow> gm_GroupId v)"

definition GetId :: "GroupMessage \<Rightarrow> u64" where
  "GetId m = (case m of None \<Rightarrow> 0 | Some v \<Rightarrow> gm_Id v)"

definition GetData :: "GroupMessage \<Rightarrow> bytes" where
  "GetData m = (case m of None \<Rightarrow> [] | Some v \<Rightarrow> gm_Data v)"

lemma group_getters [simp]:
  "GetGroupId (Some v) = gm_GroupId v" "GetId (Some v) = gm_Id v" "GetData (Some v) = gm_Data v"
  by (simp_all add: GetGroupId_def GetId_def GetData_def)

text \<open>\<open>welcomeInstallationKey\<close>, \<open>welcomeID\<close> and \<open>welcomeData\<close> of subscribe.go.\<close>

fun welcomeInstallationKey :: "WelcomeMessage \<Rightarrow> bytes" where
  "welcomeInstallationKey (WM_V1 (Some v)) = wm_InstallationKey v"
| "welcomeInstallationKey (WM_WelcomePointer (Some p)) = wp_InstallationKey p"
| "welcomeInstallationKey _ = []"

fun welcomeID :: "WelcomeMessage \<Rightarrow> u64" where
  "welcomeID (WM_V1 (Some v)) = wm_Id v"
| "welcomeID (WM_WelcomePointer (Some p)) = wp_Id p"
| "welcomeID _ = 0"

fun welcomeData :: "WelcomeMessage \<Rightarrow> bytes" where
  "welcomeData (WM_V1 (Some v)) = wm_Data v"
| "welcomeData (WM_WelcomePointer (Some p)) = wp_WelcomePointer p"
| "welcomeData _ = []"

text \<open>\<open>getMetadataFromWelcomeMessage\<close> of service.go; \<open>None\<close> is a nil message.\<close>

fun getMetadataFromWelcomeMessage :: "WelcomeMessage option \<Rightarrow> bool \<times> bytes \<times> u64" where
  "getMetadataFromWelcomeMessage None = (False, [], 0)"
| "getMetadataFromWelcomeMessage (Some (WM_V1 None)) = (False, [], 0)"
| "getMetadataFromWelcomeMessage (Some (WM_V1 (Some v))) = (True, wm_InstallationKey v, wm_Id v)"
| "getMetadataFromWelcomeMessage (Some (WM_WelcomePointer None)) = (False, [], 0)"
| "getMetadataFromWelcomeMessage (Some (WM_WelcomePointer (Some p))) =
     (True, wp_InstallationKey p, wp_Id p)"
| "getMetadataFromWelcomeMessage (Some WM_Unset) = (False, [], 0)"

lemma getMetadata_agrees:
  "getMetadataFromWelcomeMessage (Some m) = (True, k, i) \<Longrightarrow>
     welcomeInstallationKey m = k \<and> welcomeID m = i"
  by (cases m rule: welcomeID.cases) auto

section \<open>Database rows: pkg/mls/store/queries/models.go\<close>

text \<open>Timestamps are nanoseconds since the epoch, \<open>UnixNano\<close> of the column.\<close>

record GroupMessageRow =
  gr_ID :: int
  gr_CreatedAt :: int
  gr_GroupID :: bytes
  gr_Data :: bytes
  gr_GroupIDDataHash :: bytes
  gr_IsCommit :: "bool option"
  gr_SenderHmac :: bytes
  gr_ShouldPush :: "bool option"

record WelcomeMessageRow =
  wr_ID :: int
  wr_CreatedAt :: int
  wr_InstallationKey :: bytes
  wr_Data :: bytes
  wr_HpkePublicKey :: bytes
  wr_InstallationKeyDataHash :: bytes
  wr_WrapperAlgorithm :: int
  wr_WelcomeMetadata :: bytes
  wr_MessageType :: int

record InstallationRow =
  in_ID :: bytes
  in_CreatedAt :: int
  in_UpdatedAt :: int
  in_KeyPackage :: bytes
  in_IsAppended :: "bool option"

record KeyPackageRow =
  kp_SequenceID :: int
  kp_InstallationID :: bytes
  kp_KeyPackage :: bytes
  kp_CreatedAt :: int

record InboxLogRow =
  il_SequenceID :: int
  il_InboxID :: bytes
  il_ServerTimestampNs :: int
  il_IdentityUpdateProto :: bytes

record AddressLogRow =
  al_Address :: string
  al_InboxID :: bytes
  al_AssociationSequenceID :: "int option"
  al_RevocationSequenceID :: "int option"

text \<open>\<open>ib_Version\<close> is the row version Postgres keeps to detect concurrent updates.\<close>

record InboxRow =
  ib_ID :: bytes
  ib_UpdatedAt :: int
  ib_Version :: nat

record CommitLogV2Row =
  cl_ID :: int
  cl_CreatedAt :: int
  cl_GroupID :: bytes
  cl_SerializedEntry :: bytes
  cl_SerializedSignature :: bytes

text \<open>\<open>sql.NullBool.Bool\<close>: false when the column is NULL.\<close>

definition NullBool :: "bool option \<Rightarrow> bool" where
  "NullBool b = (case b of None \<Rightarrow> False | Some v \<Rightarrow> v)"

lemma NullBool_simps [simp]: "NullBool None = False" "NullBool (Some v) = v"
  by (simp_all add: NullBool_def)

end
