(* ===== verification/Sql.thy ===== *)
theory Sql
  imports Prelude
begin

text \<open>
  The fragment of SQL the queries of pkg/mls/store/queries/queries.sql use, over tables as lists of
  rows in insertion order: a \<open>WHERE\<close> is \<open>filter\<close>, \<open>ORDER BY id ASC/DESC\<close> sorts by the key,
  \<open>LIMIT n\<close> takes a prefix, \<open>COALESCE(max(id), 0)\<close> is \<open>max_id\<close>. A table whose ids are
  drawn from a \<open>BIGSERIAL\<close> sequence under the per-topic advisory lock is \<open>ascending\<close>: its ids
  strictly ascend in insertion order. On such a table the ordered selections are filters, and
  pages cut from it tile it; those facts are shared by every component that pages.
\<close>

definition select_asc :: "('r \<Rightarrow> int) \<Rightarrow> ('r \<Rightarrow> bool) \<Rightarrow> 'r list \<Rightarrow> 'r list" where
  "select_asc k P rows = sort_key k (filter P rows)"

definition select_desc :: "('r \<Rightarrow> int) \<Rightarrow> ('r \<Rightarrow> bool) \<Rightarrow> 'r list \<Rightarrow> 'r list" where
  "select_desc k P rows = rev (sort_key k (filter P rows))"

definition limit :: "int \<Rightarrow> 'r list \<Rightarrow> 'r list" where
  "limit n rows = take (nat n) rows"

definition max_id :: "('r \<Rightarrow> int) \<Rightarrow> 'r list \<Rightarrow> int" where
  "max_id k rows = (if rows = [] then 0 else Max (set (map k rows)))"

definition ascending :: "('r \<Rightarrow> int) \<Rightarrow> 'r list \<Rightarrow> bool" where
  "ascending k rows = sorted_wrt (<) (map k rows)"

lemma ascending_Nil [simp]: "ascending k []"
  by (simp add: ascending_def)

lemma ascending_Cons [simp]:
  "ascending k (r # rs) \<longleftrightarrow> (\<forall>x \<in> set rs. k r < k x) \<and> ascending k rs"
  by (auto simp: ascending_def)

lemma ascending_append [simp]:
  "ascending k (xs @ ys) \<longleftrightarrow>
     ascending k xs \<and> ascending k ys \<and> (\<forall>x \<in> set xs. \<forall>y \<in> set ys. k x < k y)"
  by (auto simp: ascending_def sorted_wrt_append)

lemma ascending_filter [id_simps, intro]: "ascending k rows \<Longrightarrow> ascending k (filter P rows)"
  by (induction rows) auto

lemma ascending_take [id_simps, intro]: "ascending k rows \<Longrightarrow> ascending k (take n rows)"
  by (metis append_take_drop_id ascending_append)

lemma ascending_drop [id_simps, intro]: "ascending k rows \<Longrightarrow> ascending k (drop n rows)"
  by (metis append_take_drop_id ascending_append)

lemma ascending_map:
  "(\<And>r. r \<in> set rows \<Longrightarrow> k' (f r) = k r) \<Longrightarrow> ascending k' (map f rows) \<longleftrightarrow> ascending k rows"
  by (induction rows) auto

lemma ascending_inj:
  "ascending k rows \<Longrightarrow> x \<in> set rows \<Longrightarrow> y \<in> set rows \<Longrightarrow> k x = k y \<Longrightarrow> x = y"
  by (induction rows) auto

lemma ascending_distinct: "ascending k rows \<Longrightarrow> distinct rows"
  by (induction rows) auto

lemma ascending_last: "ascending k rows \<Longrightarrow> r \<in> set rows \<Longrightarrow> k r \<le> k (last rows)"
proof (induction rows)
  case (Cons a rows)
  then show ?case by (cases "rows = []") (auto simp: less_imp_le)
qed simp

text \<open>An \<open>UPDATE\<close> that does not touch the key column keeps the keys.\<close>

lemma map_upd_key [simp]:
  "(\<And>r. k (f r) = k r) \<Longrightarrow> map (k \<circ> (\<lambda>r. if P r then f r else r)) rows = map k rows"
  by auto

lemma select_asc_ascending [id_simps]:
  "ascending k rows \<Longrightarrow> select_asc k P rows = filter P rows"
proof -
  assume "ascending k rows"
  then have "ascending k (filter P rows)" by (rule ascending_filter)
  then have "sorted (map k (filter P rows))"
    by (simp add: ascending_def strict_sorted_imp_sorted)
  then show ?thesis by (simp add: select_asc_def sort_key_id_if_sorted)
qed

lemma select_desc_ascending [id_simps]:
  "ascending k rows \<Longrightarrow> select_desc k P rows = rev (filter P rows)"
  using select_asc_ascending [of k rows P] by (simp add: select_asc_def select_desc_def)

lemma set_select_asc [simp]: "set (select_asc k P rows) = {r \<in> set rows. P r}"
  by (simp add: select_asc_def)

lemma set_select_desc [simp]: "set (select_desc k P rows) = {r \<in> set rows. P r}"
  by (simp add: select_desc_def)

lemma ascending_cong_set:
  "ascending k xs \<Longrightarrow> ascending k ys \<Longrightarrow> set xs = set ys \<Longrightarrow> xs = ys"
proof (induction xs arbitrary: ys)
  case Nil
  then show ?case by simp
next
  case (Cons x xs)
  then obtain y ys' where ys: "ys = y # ys'" by (cases ys) auto
  have xy: "x = y"
  proof (rule ccontr)
    assume "x \<noteq> y"
    then have "x \<in> set ys'" and "y \<in> set xs" using Cons.prems(3) ys by auto
    then have "k y < k x" and "k x < k y" using Cons.prems(1,2) ys by auto
    then show False by simp
  qed
  have "x \<notin> set xs" and "y \<notin> set ys'"
    using Cons.prems(1,2) ys by auto
  then have "set xs = set ys'" using Cons.prems(3) xy ys by auto
  with Cons ys xy show ?case by simp
qed

lemma max_id_ge: "r \<in> set rows \<Longrightarrow> k r \<le> max_id k rows"
  by (auto simp: max_id_def)

lemma max_id_in: "rows \<noteq> [] \<Longrightarrow> \<exists>r \<in> set rows. max_id k rows = k r"
proof -
  assume ne: "rows \<noteq> []"
  then have "Max (k ` set rows) \<in> k ` set rows" by (intro Max_in) auto
  then obtain r where "r \<in> set rows" "Max (k ` set rows) = k r" by blast
  with ne show ?thesis unfolding max_id_def by force
qed

section \<open>Pages of an ascending table\<close>

text \<open>
  The rows above a cursor split into the first page and the rows above that page's last id: this
  is the step every paging loop of the code makes.
\<close>

lemma filter_above_last_page:
  assumes asc: "ascending k rows" and page: "page = take n (filter (\<lambda>r. P r \<and> c < k r) rows)"
    and ne: "page \<noteq> []"
  shows "filter (\<lambda>r. P r \<and> c < k r) rows = page @ filter (\<lambda>r. P r \<and> k (last page) < k r) rows"
proof -
  let ?all = "filter (\<lambda>r. P r \<and> c < k r) rows"
  let ?rest = "drop n ?all"
  have asc_all: "ascending k ?all" using asc by (rule ascending_filter)
  have split: "?all = page @ ?rest" using page by simp
  have asc': "ascending k (page @ ?rest)" using asc_all split by simp
  have last_in: "last page \<in> set page" using ne by simp
  have below: "k r \<le> k (last page)" if "r \<in> set page" for r
    using asc' that by (auto intro: ascending_last)
  have above: "k (last page) < k r" if "r \<in> set ?rest" for r
    using asc' last_in that by auto
  have "last page \<in> set ?all" using last_in by (subst split) simp
  then have c_last: "c < k (last page)" by simp
  have "filter (\<lambda>r. P r \<and> k (last page) < k r) rows = filter (\<lambda>r. k (last page) < k r) ?all"
    using c_last by (auto intro!: filter_cong)
  also have "\<dots> = filter (\<lambda>r. k (last page) < k r) page @ filter (\<lambda>r. k (last page) < k r) ?rest"
    using arg_cong [OF split, of "filter (\<lambda>r. k (last page) < k r)"] by simp
  also have "filter (\<lambda>r. k (last page) < k r) page = []"
    using below by (auto simp: filter_empty_conv not_less)
  also have "filter (\<lambda>r. k (last page) < k r) ?rest = ?rest"
    using above by (auto simp: filter_id_conv)
  finally have "filter (\<lambda>r. P r \<and> k (last page) < k r) rows = ?rest" by simp
  with split show ?thesis by simp
qed

lemma filter_above_short_page:
  assumes "page = take n (filter P rows)" and "length page < n"
  shows "page = filter P rows"
  using assms by (metis length_take min_less_iff_conj nat_neq_iff take_all_iff order_less_imp_le)

end
