(* ===== verification/Queries.thy ===== *)
theory Queries
  imports Mls_Types Sql "HOL-Library.List_Lexorder"
begin

text \<open>
  The MLS database: the tables of pkg/migrations/mls, the stored functions those migrations define,
  and one definition per query of pkg/mls/store/queries/queries.sql.go. A table is the list of its
  rows in insertion order, a \<open>BIGSERIAL\<close> column has its sequence's next value beside it. A sequence
  value is consumed even when the insert then fails on a unique index. The error a driver returns
  for a statement that does not run is the argument \<open>flt\<close>: \<open>None\<close> is a statement that runs.
  \<open>NOW()\<close> is the argument \<open>now\<close>, in nanoseconds; rows another transaction has locked, which
  \<open>FOR UPDATE SKIP LOCKED\<close> skips, are the argument \<open>locked\<close>.

  The locale \<open>id_log\<close> is the contract of the four append-only logs (group messages, welcome
  messages, inbox log, commit log): inserting draws the next id and appends. Its lemmas, obtained
  for each log by interpretation, are that ids ascend with insertion and that a log only grows at
  its end.
\<close>

section \<open>The database\<close>

record mls_db =
  installations :: "InstallationRow list"
  key_packages :: "KeyPackageRow list"
  key_packages_seq :: int
  group_messages :: "GroupMessageRow list"
  group_messages_seq :: int
  welcome_messages :: "WelcomeMessageRow list"
  welcome_messages_seq :: int
  inbox_log :: "InboxLogRow list"
  inbox_log_seq :: int
  address_log :: "AddressLogRow list"
  inboxes :: "InboxRow list"
  commit_log_v2 :: "CommitLogV2Row list"
  commit_log_v2_seq :: int

definition empty_db :: mls_db where
  "empty_db =
     \<lparr>installations = [], key_packages = [], key_packages_seq = 1, group_messages = [],
      group_messages_seq = 1, welcome_messages = [], welcome_messages_seq = 1, inbox_log = [],
      inbox_log_seq = 1, address_log = [], inboxes = [], commit_log_v2 = [], commit_log_v2_seq = 1\<rparr>"

type_synonym fault = "go_error option"

definition read_query :: "fault \<Rightarrow> 'a \<Rightarrow> 'a result" where
  "read_query flt v = (case flt of Some e \<Rightarrow> Inl e | None \<Rightarrow> Inr v)"

definition write_query :: "fault \<Rightarrow> mls_db \<Rightarrow> mls_db \<times> 'a result \<Rightarrow> mls_db \<times> 'a result" where
  "write_query flt db r = (case flt of Some e \<Rightarrow> (db, Inl e) | None \<Rightarrow> r)"

lemma read_query_simps [simp]:
  "read_query None v = Inr v" "read_query (Some e) v = Inl e"
  by (simp_all add: read_query_def)

lemma write_query_simps [simp]:
  "write_query None db r = r" "write_query (Some e) db r = (db, Inl e)"
  by (simp_all add: write_query_def)

text \<open>The text of a unique violation, and the message every such error contains.\<close>

definition duplicate_key :: string where
  "duplicate_key = ''duplicate key value violates unique constraint''"

definition unique_violation :: go_error where
  "unique_violation = Err (''ERROR: '' @ duplicate_key)"

text \<open>\<open>make_interval(days := n)\<close> in nanoseconds.\<close>

definition days_ns :: "int \<Rightarrow> int" where
  "days_ns n = n * 86400 * 1000000000"

section \<open>Hex columns\<close>

text \<open>
  Postgres' \<open>decode(text, 'hex')\<close>: pairs of hex digits of either case, white space allowed before a
  pair. \<open>encode(bytea, 'hex')\<close> is lower-case hex text.
\<close>

definition pg_space :: "char \<Rightarrow> bool" where
  "pg_space c = (c \<in> {CHR '' '', CHR 0x0A, CHR 0x09, CHR 0x0D})"

definition err_pg_hex :: go_error where
  "err_pg_hex = Err ''ERROR: invalid hexadecimal data''"

fun pg_decode_hex :: "string \<Rightarrow> bytes result" where
  "pg_decode_hex [] = Inr []"
| "pg_decode_hex (c # cs) =
     (if pg_space c then pg_decode_hex cs
      else case hex_val c of
        None \<Rightarrow> Inl err_pg_hex
      | Some h \<Rightarrow>
          (case cs of
             [] \<Rightarrow> Inl err_pg_hex
           | d # ds \<Rightarrow>
               (case hex_val d of
                  None \<Rightarrow> Inl err_pg_hex
                | Some l \<Rightarrow>
                    (case pg_decode_hex ds of
                       Inl e \<Rightarrow> Inl e
                     | Inr bs \<Rightarrow> Inr (word_of_nat (16 * h + l) # bs)))))"

lemma pg_space_hex_digit: "n < 16 \<Longrightarrow> \<not> pg_space (hex_digit n)"
  using hex_val_digit [of n] by (auto simp: pg_space_def hex_val_def)

lemma pg_decode_encode [simp]: "pg_decode_hex (hex_encode bs) = Inr bs"
  by (induction bs) (simp_all add: pg_space_hex_digit)

section \<open>Group messages\<close>

definition InsertGroupMessage ::
  "fault \<Rightarrow> int \<Rightarrow> bytes \<Rightarrow> bytes \<Rightarrow> bytes \<Rightarrow> bytes \<Rightarrow> bool \<Rightarrow> bool \<Rightarrow> mls_db \<Rightarrow> mls_db \<times> GroupMessageRow result" where
  "InsertGroupMessage flt now groupID data groupIDDataHash senderHmac shouldPush isCommit db =
     write_query flt db
       (let i = group_messages_seq db; db' = db\<lparr>group_messages_seq := i + 1\<rparr> in
        if groupIDDataHash \<in> gr_GroupIDDataHash ` set (group_messages db)
        then (db', Inl unique_violation)
        else let row = \<lparr>gr_ID = i, gr_CreatedAt = now, gr_GroupID = groupID, gr_Data = data,
                        gr_GroupIDDataHash = groupIDDataHash, gr_IsCommit = Some isCommit,
                        gr_SenderHmac = senderHmac, gr_ShouldPush = Some shouldPush\<rparr>
             in (db'\<lparr>group_messages := group_messages db @ [row]\<rparr>, Inr row))"

definition GetAllGroupMessages :: "fault \<Rightarrow> mls_db \<Rightarrow> GroupMessageRow list result" where
  "GetAllGroupMessages flt db = read_query flt (select_asc gr_ID (\<lambda>_. True) (group_messages db))"

definition GetAllGroupMessagesWithCursor ::
  "fault \<Rightarrow> int \<Rightarrow> int \<Rightarrow> mls_db \<Rightarrow> GroupMessageRow list result" where
  "GetAllGroupMessagesWithCursor flt cursor numrows db =
     read_query flt (limit numrows (select_asc gr_ID (\<lambda>r. cursor < gr_ID r) (group_messages db)))"

definition QueryGroupMessages ::
  "fault \<Rightarrow> bytes \<Rightarrow> bool \<Rightarrow> int \<Rightarrow> mls_db \<Rightarrow> GroupMessageRow list result" where
  "QueryGroupMessages flt groupID sortDesc numrows db =
     read_query flt (limit numrows
       (if sortDesc then select_desc gr_ID (\<lambda>r. gr_GroupID r = groupID) (group_messages db)
        else select_asc gr_ID (\<lambda>r. gr_GroupID r = groupID) (group_messages db)))"

definition QueryGroupMessagesWithCursorAsc ::
  "fault \<Rightarrow> bytes \<Rightarrow> int \<Rightarrow> int \<Rightarrow> mls_db \<Rightarrow> GroupMessageRow list result" where
  "QueryGroupMessagesWithCursorAsc flt groupID cursor numrows db =
     read_query flt (limit numrows
       (select_asc gr_ID (\<lambda>r. gr_GroupID r = groupID \<and> cursor < gr_ID r) (group_messages db)))"

definition QueryGroupMessagesWithCursorDesc ::
  "fault \<Rightarrow> bytes \<Rightarrow> int \<Rightarrow> int \<Rightarrow> mls_db \<Rightarrow> GroupMessageRow list result" where
  "QueryGroupMessagesWithCursorDesc flt groupID cursor numrows db =
     read_query flt (limit numrows
       (select_desc gr_ID (\<lambda>r. gr_GroupID r = groupID \<and> gr_ID r < cursor) (group_messages db)))"

definition GetLatestGroupMessageID :: "fault \<Rightarrow> mls_db \<Rightarrow> int result" where
  "GetLatestGroupMessageID flt db = read_query flt (max_id gr_ID (group_messages db))"

text \<open>
  \<open>SELECT DISTINCT ON (group_id) ... ORDER BY group_id, id DESC\<close>: per requested group that has
  messages, in the order of the group ids, its row of largest id. \<open>GetNewestGroupMessageMetadata\<close>
  is the same query projected to (id, group_id, created_at, is_commit).
\<close>

definition GetNewestGroupMessage :: "fault \<Rightarrow> bytes list \<Rightarrow> mls_db \<Rightarrow> GroupMessageRow list result" where
  "GetNewestGroupMessage flt groupIds db =
     read_query flt
       (map (\<lambda>g. hd (select_desc gr_ID (\<lambda>r. gr_GroupID r = g) (group_messages db)))
         (sort (remdups (filter (\<lambda>g. g \<in> gr_GroupID ` set (group_messages db)) groupIds))))"

record NewestMetadataRow =
  nm_ID :: int
  nm_GroupID :: bytes
  nm_CreatedAt :: int
  nm_IsCommit :: "bool option"

definition metadata_of :: "GroupMessageRow \<Rightarrow> NewestMetadataRow" where
  "metadata_of r = \<lparr>nm_ID = gr_ID r, nm_GroupID = gr_GroupID r, nm_CreatedAt = gr_CreatedAt r,
     nm_IsCommit = gr_IsCommit r\<rparr>"

definition GetNewestGroupMessageMetadata ::
  "fault \<Rightarrow> bytes list \<Rightarrow> mls_db \<Rightarrow> NewestMetadataRow list result" where
  "GetNewestGroupMessageMetadata flt groupIds db =
     map_sum id (map metadata_of) (GetNewestGroupMessage flt groupIds db)"

definition SelectEnvelopesForIsCommitBackfill ::
  "fault \<Rightarrow> (int \<Rightarrow> bool) \<Rightarrow> mls_db \<Rightarrow> (int \<times> bytes) list result" where
  "SelectEnvelopesForIsCommitBackfill flt locked db =
     read_query flt (map (\<lambda>r. (gr_ID r, gr_Data r))
       (limit 100 (select_asc gr_ID (\<lambda>r. gr_IsCommit r = None \<and> \<not> locked (gr_ID r)) (group_messages db))))"

definition UpdateIsCommitStatus :: "fault \<Rightarrow> bool option \<Rightarrow> int \<Rightarrow> mls_db \<Rightarrow> mls_db \<times> unit result" where
  "UpdateIsCommitStatus flt isCommit i db =
     write_query flt db
       (db\<lparr>group_messages := map (\<lambda>r. if gr_ID r = i then r\<lparr>gr_IsCommit := isCommit\<rparr> else r)
             (group_messages db)\<rparr>, Inr ())"

definition deletable_group :: "int \<Rightarrow> int \<Rightarrow> GroupMessageRow \<Rightarrow> bool" where
  "deletable_group now ageDays r = (gr_IsCommit r = Some False \<and> gr_CreatedAt r < now - days_ns ageDays)"

definition CountDeletableGroupMessages :: "fault \<Rightarrow> int \<Rightarrow> int \<Rightarrow> mls_db \<Rightarrow> int result" where
  "CountDeletableGroupMessages flt now ageDays db =
     read_query flt (int (length (filter (deletable_group now ageDays) (group_messages db))))"

definition DeleteOldGroupMessagesBatch ::
  "fault \<Rightarrow> int \<Rightarrow> (int \<Rightarrow> bool) \<Rightarrow> int \<Rightarrow> int \<Rightarrow> mls_db \<Rightarrow> mls_db \<times> GroupMessageRow list result" where
  "DeleteOldGroupMessagesBatch flt now locked ageDays batchSize db =
     write_query flt db
       (let to_delete = gr_ID ` set (limit batchSize (select_asc gr_ID
              (\<lambda>r. deletable_group now ageDays r \<and> \<not> locked (gr_ID r)) (group_messages db)))
        in (db\<lparr>group_messages := filter (\<lambda>r. gr_ID r \<notin> to_delete) (group_messages db)\<rparr>,
            Inr (filter (\<lambda>r. gr_ID r \<in> to_delete) (group_messages db))))"

section \<open>Welcome messages\<close>

definition welcome_row ::
  "int \<Rightarrow> int \<Rightarrow> bytes \<Rightarrow> bytes \<Rightarrow> bytes \<Rightarrow> bytes \<Rightarrow> int \<Rightarrow> bytes \<Rightarrow> int \<Rightarrow> WelcomeMessageRow" where
  "welcome_row i now installationKey data hash hpke alg metadata msgType =
     \<lparr>wr_ID = i, wr_CreatedAt = now, wr_InstallationKey = installationKey, wr_Data = data,
      wr_HpkePublicKey = hpke, wr_InstallationKeyDataHash = hash, wr_WrapperAlgorithm = alg,
      wr_WelcomeMetadata = metadata, wr_MessageType = msgType\<rparr>"

definition insert_welcome_row ::
  "int \<Rightarrow> bytes \<Rightarrow> bytes \<Rightarrow> bytes \<Rightarrow> bytes \<Rightarrow> int \<Rightarrow> bytes \<Rightarrow> int \<Rightarrow> mls_db \<Rightarrow> mls_db \<times> WelcomeMessageRow result" where
  "insert_welcome_row now installationKey data hash hpke alg metadata msgType db =
     (let i = welcome_messages_seq db; db' = db\<lparr>welcome_messages_seq := i + 1\<rparr> in
      if hash \<in> wr_InstallationKeyDataHash ` set (welcome_messages db)
      then (db', Inl unique_violation)
      else let row = welcome_row i now installationKey data hash hpke alg metadata msgType
           in (db'\<lparr>welcome_messages := welcome_messages db @ [row]\<rparr>, Inr row))"

definition InsertWelcomeMessage ::
  "fault \<Rightarrow> int \<Rightarrow> bytes \<Rightarrow> bytes \<Rightarrow> bytes \<Rightarrow> bytes \<Rightarrow> int \<Rightarrow> bytes \<Rightarrow> mls_db \<Rightarrow> mls_db \<times> WelcomeMessageRow result" where
  "InsertWelcomeMessage flt now installationKey data hash hpke alg metadata db =
     write_query flt db (insert_welcome_row now installationKey data hash hpke alg metadata 0 db)"

definition InsertWelcomePointerMessage ::
  "fault \<Rightarrow> int \<Rightarrow> bytes \<Rightarrow> bytes \<Rightarrow> bytes \<Rightarrow> bytes \<Rightarrow> int \<Rightarrow> mls_db \<Rightarrow> mls_db \<times> WelcomeMessageRow result" where
  "InsertWelcomePointerMessage flt now installationKey welcomePointerData hash hpke alg db =
     write_query flt db (insert_welcome_row now installationKey welcomePointerData hash hpke alg [] 1 db)"

definition GetAllWelcomeMessages :: "fault \<Rightarrow> mls_db \<Rightarrow> WelcomeMessageRow list result" where
  "GetAllWelcomeMessages flt db = read_query flt (select_asc wr_ID (\<lambda>_. True) (welcome_messages db))"

definition GetAllWelcomeMessagesWithCursor ::
  "fault \<Rightarrow> int \<Rightarrow> int \<Rightarrow> mls_db \<Rightarrow> WelcomeMessageRow list result" where
  "GetAllWelcomeMessagesWithCursor flt cursor numrows db =
     read_query flt (limit numrows (select_asc wr_ID (\<lambda>r. cursor < wr_ID r) (welcome_messages db)))"

definition QueryWelcomeMessages ::
  "fault \<Rightarrow> bytes \<Rightarrow> bool \<Rightarrow> int \<Rightarrow> mls_db \<Rightarrow> WelcomeMessageRow list result" where
  "QueryWelcomeMessages flt installationKey sortDesc numrows db =
     read_query flt (limit numrows
       (if sortDesc
        then select_desc wr_ID (\<lambda>r. wr_InstallationKey r = installationKey) (welcome_messages db)
        else select_asc wr_ID (\<lambda>r. wr_InstallationKey r = installationKey) (welcome_messages db)))"

definition QueryWelcomeMessagesWithCursorAsc ::
  "fault \<Rightarrow> bytes \<Rightarrow> int \<Rightarrow> int \<Rightarrow> mls_db \<Rightarrow> WelcomeMessageRow list result" where
  "QueryWelcomeMessagesWithCursorAsc flt installationKey cursor numrows db =
     read_query flt (limit numrows (select_asc wr_ID
       (\<lambda>r. wr_InstallationKey r = installationKey \<and> cursor < wr_ID r) (welcome_messages db)))"

definition QueryWelcomeMessagesWithCursorDesc ::
  "fault \<Rightarrow> bytes \<Rightarrow> int \<Rightarrow> int \<Rightarrow> mls_db \<Rightarrow> WelcomeMessageRow list result" where
  "QueryWelcomeMessagesWithCursorDesc flt installationKey cursor numrows db =
     read_query flt (limit numrows (select_desc wr_ID
       (\<lambda>r. wr_InstallationKey r = installationKey \<and> wr_ID r < cursor) (welcome_messages db)))"

definition GetLatestWelcomeMessageID :: "fault \<Rightarrow> mls_db \<Rightarrow> int result" where
  "GetLatestWelcomeMessageID flt db = read_query flt (max_id wr_ID (welcome_messages db))"

definition old_welcome :: "int \<Rightarrow> int \<Rightarrow> WelcomeMessageRow \<Rightarrow> bool" where
  "old_welcome now ageDays r = (wr_CreatedAt r < now - days_ns ageDays)"

definition GetOldWelcomeMessages :: "fault \<Rightarrow> int \<Rightarrow> int \<Rightarrow> mls_db \<Rightarrow> int result" where
  "GetOldWelcomeMessages flt now ageDays db =
     read_query flt (int (length (filter (old_welcome now ageDays) (welcome_messages db))))"

definition DeleteOldWelcomeMessagesBatch ::
  "fault \<Rightarrow> int \<Rightarrow> (int \<Rightarrow> bool) \<Rightarrow> int \<Rightarrow> int \<Rightarrow> mls_db \<Rightarrow> mls_db \<times> WelcomeMessageRow list result" where
  "DeleteOldWelcomeMessagesBatch flt now locked ageDays batchSize db =
     write_query flt db
       (let to_delete = wr_ID ` set (limit batchSize (select_asc wr_ID
              (\<lambda>r. old_welcome now ageDays r \<and> \<not> locked (wr_ID r)) (welcome_messages db)))
        in (db\<lparr>welcome_messages := filter (\<lambda>r. wr_ID r \<notin> to_delete) (welcome_messages db)\<rparr>,
            Inr (filter (\<lambda>r. wr_ID r \<in> to_delete) (welcome_messages db))))"

section \<open>Installations and key packages\<close>

definition CreateOrUpdateInstallation_q ::
  "fault \<Rightarrow> bytes \<Rightarrow> int \<Rightarrow> int \<Rightarrow> bytes \<Rightarrow> bool option \<Rightarrow> mls_db \<Rightarrow> mls_db \<times> unit result" where
  "CreateOrUpdateInstallation_q flt i createdAt updatedAt keyPackage isAppended db =
     write_query flt db
       (if i \<in> in_ID ` set (installations db)
        then (db\<lparr>installations := map (\<lambda>r. if in_ID r = i
                then r\<lparr>in_KeyPackage := keyPackage, in_UpdatedAt := updatedAt\<rparr> else r)
                (installations db)\<rparr>, Inr ())
        else (db\<lparr>installations := installations db @
                [\<lparr>in_ID = i, in_CreatedAt = createdAt, in_UpdatedAt = updatedAt,
                  in_KeyPackage = keyPackage, in_IsAppended = isAppended\<rparr>]\<rparr>, Inr ()))"

definition InsertKeyPackage :: "fault \<Rightarrow> bytes \<Rightarrow> bytes \<Rightarrow> int \<Rightarrow> mls_db \<Rightarrow> mls_db \<times> unit result" where
  "InsertKeyPackage flt installationID keyPackage createdAt db =
     write_query flt db
       (let i = key_packages_seq db; db' = db\<lparr>key_packages_seq := i + 1\<rparr> in
        if (\<exists>r \<in> set (key_packages db). kp_InstallationID r = installationID \<and> kp_KeyPackage r = keyPackage)
        then (db', Inr ())
        else (db'\<lparr>key_packages := key_packages db @
                [\<lparr>kp_SequenceID = i, kp_InstallationID = installationID, kp_KeyPackage = keyPackage,
                  kp_CreatedAt = createdAt\<rparr>]\<rparr>, Inr ()))"

definition FetchKeyPackages_q :: "fault \<Rightarrow> bytes list \<Rightarrow> mls_db \<Rightarrow> (bytes \<times> bytes) list result" where
  "FetchKeyPackages_q flt installationIds db =
     read_query flt (map (\<lambda>r. (in_ID r, in_KeyPackage r))
       (filter (\<lambda>r. in_ID r \<in> set installationIds) (installations db)))"

definition GetInstallation :: "fault \<Rightarrow> bytes \<Rightarrow> mls_db \<Rightarrow> InstallationRow result" where
  "GetInstallation flt i db =
     (case read_query flt (filter (\<lambda>r. in_ID r = i) (installations db)) of
        Inl e \<Rightarrow> Inl e
      | Inr [] \<Rightarrow> Inl (Err ''sql: no rows in result set'')
      | Inr (r # _) \<Rightarrow> Inr r)"

definition SelectInstallationsToBackfill ::
  "fault \<Rightarrow> (bytes \<Rightarrow> bool) \<Rightarrow> mls_db \<Rightarrow> (bytes \<times> bytes \<times> int) list result" where
  "SelectInstallationsToBackfill flt locked db =
     read_query flt (map (\<lambda>r. (in_ID r, in_KeyPackage r, in_CreatedAt r))
       (limit 100 (sort_key in_ID
         (filter (\<lambda>r. in_IsAppended r = None \<and> \<not> locked (in_ID r)) (installations db)))))"

definition UpdateIsAppendedStatus :: "fault \<Rightarrow> bool option \<Rightarrow> bytes \<Rightarrow> mls_db \<Rightarrow> mls_db \<times> unit result" where
  "UpdateIsAppendedStatus flt isAppended i db =
     write_query flt db
       (db\<lparr>installations := map (\<lambda>r. if in_ID r = i then r\<lparr>in_IsAppended := isAppended\<rparr> else r)
             (installations db)\<rparr>, Inr ())"

text \<open>
  \<open>GetOldInstallations\<close> and \<open>GetOldKeyPackages\<close> compare the \<open>BIGINT\<close> column \<open>created_at\<close>
  with a timestamp. Postgres has no such operator, so the statement is rejected before it runs.
\<close>

definition undefined_operator :: go_error where
  "undefined_operator = Err ''ERROR: operator does not exist: bigint < timestamp with time zone''"

definition GetOldInstallations :: "fault \<Rightarrow> int \<Rightarrow> int \<Rightarrow> mls_db \<Rightarrow> int result" where
  "GetOldInstallations flt now ageDays db =
     (case flt of Some e \<Rightarrow> Inl e | None \<Rightarrow> Inl undefined_operator)"

definition GetOldKeyPackages :: "fault \<Rightarrow> int \<Rightarrow> int \<Rightarrow> mls_db \<Rightarrow> int result" where
  "GetOldKeyPackages flt now ageDays db =
     (case flt of Some e \<Rightarrow> Inl e | None \<Rightarrow> Inl undefined_operator)"

definition DeleteOldInstallationsBatch ::
  "fault \<Rightarrow> int \<Rightarrow> (bytes \<Rightarrow> bool) \<Rightarrow> int \<Rightarrow> int \<Rightarrow> mls_db \<Rightarrow> mls_db \<times> InstallationRow list result" where
  "DeleteOldInstallationsBatch flt now locked ageDays batchSize db =
     write_query flt db
       (let to_delete = in_ID ` set (limit batchSize (sort_key in_ID (filter
              (\<lambda>r. in_CreatedAt r < now - days_ns ageDays \<and> \<not> locked (in_ID r)) (installations db))))
        in (db\<lparr>installations := filter (\<lambda>r. in_ID r \<notin> to_delete) (installations db)\<rparr>,
            Inr (filter (\<lambda>r. in_ID r \<in> to_delete) (installations db))))"

definition DeleteOldKeyPackagesBatch ::
  "fault \<Rightarrow> int \<Rightarrow> (int \<Rightarrow> bool) \<Rightarrow> int \<Rightarrow> int \<Rightarrow> mls_db \<Rightarrow> mls_db \<times> KeyPackageRow list result" where
  "DeleteOldKeyPackagesBatch flt now locked ageDays batchSize db =
     write_query flt db
       (let to_delete = kp_InstallationID ` set (limit batchSize (sort_key kp_InstallationID (filter
              (\<lambda>r. kp_CreatedAt r < now - days_ns ageDays \<and> \<not> locked (kp_SequenceID r)) (key_packages db))))
        in (db\<lparr>key_packages := filter (\<lambda>r. kp_InstallationID r \<notin> to_delete) (key_packages db)\<rparr>,
            Inr (filter (\<lambda>r. kp_InstallationID r \<in> to_delete) (key_packages db))))"

section \<open>Commit log\<close>

definition InsertCommitLogV2 ::
  "fault \<Rightarrow> int \<Rightarrow> bytes \<Rightarrow> bytes \<Rightarrow> bytes \<Rightarrow> mls_db \<Rightarrow> mls_db \<times> CommitLogV2Row result" where
  "InsertCommitLogV2 flt now groupID entry signature db =
     write_query flt db
       (let i = commit_log_v2_seq db;
            row = \<lparr>cl_ID = i, cl_CreatedAt = now, cl_GroupID = groupID, cl_SerializedEntry = entry,
                   cl_SerializedSignature = signature\<rparr>
        in (db\<lparr>commit_log_v2_seq := i + 1, commit_log_v2 := commit_log_v2 db @ [row]\<rparr>, Inr row))"

definition QueryCommitLogV2 ::
  "fault \<Rightarrow> bytes \<Rightarrow> int \<Rightarrow> int \<Rightarrow> mls_db \<Rightarrow> CommitLogV2Row list result" where
  "QueryCommitLogV2 flt groupID cursor numrows db =
     read_query flt (limit numrows
       (select_asc cl_ID (\<lambda>r. cl_GroupID r = groupID \<and> cursor < cl_ID r) (commit_log_v2 db)))"

section \<open>Inbox log, address log, inboxes\<close>

text \<open>\<open>pg_advisory_xact_lock(hashtext(inbox_id))\<close>: the lock itself is a guard of the concurrent model.\<close>

definition LockInboxLog :: "fault \<Rightarrow> string \<Rightarrow> mls_db \<Rightarrow> unit result" where
  "LockInboxLog flt inboxID db = read_query flt ()"

definition GetAllInboxLogs :: "fault \<Rightarrow> string \<Rightarrow> mls_db \<Rightarrow> InboxLogRow list result" where
  "GetAllInboxLogs flt inboxID db =
     (case (flt, pg_decode_hex inboxID) of
        (Some e, _) \<Rightarrow> Inl e
      | (None, Inl e) \<Rightarrow> Inl e
      | (None, Inr b) \<Rightarrow> Inr (select_asc il_SequenceID (\<lambda>r. il_InboxID r = b) (inbox_log db)))"

text \<open>
  The join of the inbox log with the filter set: a row appears once per filter it passes. A
  filter whose inbox id is not hex text makes the statement fail.
\<close>

fun decode_filters :: "(string \<times> int) list \<Rightarrow> (bytes \<times> int) list result" where
  "decode_filters [] = Inr []"
| "decode_filters ((i, q) # fs) =
     (case pg_decode_hex i of
        Inl e \<Rightarrow> Inl e
      | Inr b \<Rightarrow> (case decode_filters fs of Inl e \<Rightarrow> Inl e | Inr gs \<Rightarrow> Inr ((b, q) # gs)))"

definition GetInboxLogFiltered :: "fault \<Rightarrow> (string \<times> int) list \<Rightarrow> mls_db \<Rightarrow> InboxLogRow list result" where
  "GetInboxLogFiltered flt filters db =
     (case (flt, decode_filters filters) of
        (Some e, _) \<Rightarrow> Inl e
      | (None, Inl e) \<Rightarrow> Inl e
      | (None, Inr fs) \<Rightarrow>
          Inr (sort_key il_SequenceID (concat (map (\<lambda>r. map (\<lambda>_. r)
            (filter (\<lambda>(b, q). b = il_InboxID r \<and> q < il_SequenceID r) fs)) (inbox_log db)))))"

definition InsertInboxLog :: "fault \<Rightarrow> string \<Rightarrow> int \<Rightarrow> bytes \<Rightarrow> mls_db \<Rightarrow> mls_db \<times> InboxLogRow result" where
  "InsertInboxLog flt inboxID ts proto db =
     write_query flt db
       (case pg_decode_hex inboxID of
          Inl e \<Rightarrow> (db, Inl e)
        | Inr b \<Rightarrow>
            (let i = inbox_log_seq db;
                 row = \<lparr>il_SequenceID = i, il_InboxID = b, il_ServerTimestampNs = ts,
                        il_IdentityUpdateProto = proto\<rparr>
             in (db\<lparr>inbox_log_seq := i + 1, inbox_log := inbox_log db @ [row]\<rparr>, Inr row)))"

text \<open>SQL's \<open>MAX\<close> over a nullable column: NULLs are ignored, the maximum of none is NULL.\<close>

definition sql_max :: "int option list \<Rightarrow> int option" where
  "sql_max xs =
     (let ys = List.map_filter id xs in if ys = [] then None else Some (Max (set ys)))"

definition GetAddressLogs :: "fault \<Rightarrow> string list \<Rightarrow> mls_db \<Rightarrow> (string \<times> string \<times> int option) list result" where
  "GetAddressLogs flt addresses db =
     read_query flt
       (map (\<lambda>a. (al_Address a, hex_encode (al_InboxID a), al_AssociationSequenceID a))
         (filter (\<lambda>a. al_Address a \<in> set addresses \<and> al_AssociationSequenceID a \<noteq> None \<and>
             al_AssociationSequenceID a =
               sql_max (map al_AssociationSequenceID
                 (filter (\<lambda>b. al_Address b = al_Address a \<and> al_RevocationSequenceID b = None)
                   (address_log db))))
           (address_log db)))"

definition InsertAddressLog ::
  "fault \<Rightarrow> string \<Rightarrow> string \<Rightarrow> int option \<Rightarrow> int option \<Rightarrow> mls_db \<Rightarrow> mls_db \<times> AddressLogRow result" where
  "InsertAddressLog flt address inboxID assoc revoc db =
     write_query flt db
       (case pg_decode_hex inboxID of
          Inl e \<Rightarrow> (db, Inl e)
        | Inr b \<Rightarrow>
            (let row = \<lparr>al_Address = address, al_InboxID = b, al_AssociationSequenceID = assoc,
                        al_RevocationSequenceID = revoc\<rparr>
             in (db\<lparr>address_log := address_log db @ [row]\<rparr>, Inr row)))"

definition RevokeAddressFromLog ::
  "fault \<Rightarrow> int option \<Rightarrow> string \<Rightarrow> string \<Rightarrow> mls_db \<Rightarrow> mls_db \<times> unit result" where
  "RevokeAddressFromLog flt revoc address inboxID db =
     write_query flt db
       (case pg_decode_hex inboxID of
          Inl e \<Rightarrow> (db, Inl e)
        | Inr b \<Rightarrow>
            (let m = sql_max (map al_AssociationSequenceID
                   (filter (\<lambda>r. al_Address r = address \<and> al_InboxID r = b) (address_log db)))
             in (db\<lparr>address_log := map (\<lambda>r. if al_Address r = address \<and> al_InboxID r = b \<and> m \<noteq> None \<and>
                       al_AssociationSequenceID r = m
                     then r\<lparr>al_RevocationSequenceID := revoc\<rparr> else r) (address_log db)\<rparr>, Inr ())))"

definition TouchInbox :: "fault \<Rightarrow> int \<Rightarrow> string \<Rightarrow> mls_db \<Rightarrow> mls_db \<times> unit result" where
  "TouchInbox flt now inboxID db =
     write_query flt db
       (case pg_decode_hex inboxID of
          Inl e \<Rightarrow> (db, Inl e)
        | Inr b \<Rightarrow>
            if b \<in> ib_ID ` set (inboxes db)
            then (db\<lparr>inboxes := map (\<lambda>r. if ib_ID r = b then r\<lparr>ib_UpdatedAt := now, ib_Version := Suc (ib_Version r)\<rparr>
                    else r) (inboxes db)\<rparr>, Inr ())
            else (db\<lparr>inboxes := inboxes db @ [\<lparr>ib_ID = b, ib_UpdatedAt = now, ib_Version = 0\<rparr>]\<rparr>, Inr ()))"

section \<open>Append-only logs\<close>

text \<open>
  The invariant of a log: ids are positive, below the sequence's next value, and ascend in
  insertion order.
\<close>

definition log_ok :: "('r \<Rightarrow> int) \<Rightarrow> 'r list \<Rightarrow> int \<Rightarrow> bool" where
  "log_ok k rows nxt \<longleftrightarrow> ascending k rows \<and> (\<forall>r \<in> set rows. 0 < k r \<and> k r < nxt) \<and> 0 < nxt"

locale id_log =
  fixes rows :: "mls_db \<Rightarrow> 'r list"
    and nxt :: "mls_db \<Rightarrow> int"
    and key :: "'r \<Rightarrow> int"
    and ins :: "'a \<Rightarrow> mls_db \<Rightarrow> mls_db \<times> 'r result"
  assumes ins_Inr: "ins a db = (db', Inr r) \<Longrightarrow>
      rows db' = rows db @ [r] \<and> key r = nxt db \<and> nxt db' = nxt db + 1"
    and ins_Inl: "ins a db = (db', Inl e) \<Longrightarrow> rows db' = rows db \<and> nxt db \<le> nxt db'"
begin

lemma ins_cases:
  obtains (ok) r where "rows (fst (ins a db)) = rows db @ [r]" "key r = nxt db"
      "nxt (fst (ins a db)) = nxt db + 1"
    | (err) "rows (fst (ins a db)) = rows db" "nxt db \<le> nxt (fst (ins a db))"
proof -
  obtain db' x where x: "ins a db = (db', x)" by (cases "ins a db") auto
  then show ?thesis
    using ins_Inr [of a db db'] ins_Inl [of a db db'] ok err by (cases x) auto
qed

lemma ins_log_ok: "log_ok key (rows db) (nxt db) \<Longrightarrow>
    log_ok key (rows (fst (ins a db))) (nxt (fst (ins a db)))"
  by (cases a db rule: ins_cases) (force simp: log_ok_def)+

lemma ins_grows: "nxt db \<le> nxt (fst (ins a db)) \<and> prefix (rows db) (rows (fst (ins a db)))"
  by (cases a db rule: ins_cases) auto

lemma run_log_ok: "log_ok key (rows db) (nxt db) \<Longrightarrow>
    log_ok key (rows (fold (\<lambda>a db. fst (ins a db)) as db)) (nxt (fold (\<lambda>a db. fst (ins a db)) as db))"
  by (induction as arbitrary: db) (auto intro: ins_log_ok)

lemma ins_new_above:
  assumes "r \<in> set (rows (fst (ins a db)))" and "r \<notin> set (rows db)"
  shows "nxt db \<le> key r"
  using assms by (cases a db rule: ins_cases) auto

text \<open>A later read extends an earlier one, and what is new carries ids above the earlier sequence.\<close>

lemma run_extends:
  "\<exists>new. rows (fold (\<lambda>a db. fst (ins a db)) as db) = rows db @ new \<and> (\<forall>r \<in> set new. nxt db \<le> key r)"
proof (induction as arbitrary: db)
  case (Cons a as)
  let ?db = "fst (ins a db)"
  obtain new where new: "rows (fold (\<lambda>a db. fst (ins a db)) as ?db) = rows ?db @ new"
    "\<forall>r \<in> set new. nxt ?db \<le> key r" using Cons.IH [of ?db] by blast
  show ?case
  proof (cases a db rule: ins_cases)
    case (ok r)
    with new show ?thesis by (intro exI [of _ "r # new"]) fastforce
  next
    case err
    with new show ?thesis by (intro exI [of _ new]) auto
  qed
qed simp

end

type_synonym group_ins = "fault \<times> int \<times> bytes \<times> bytes \<times> bytes \<times> bytes \<times> bool \<times> bool"
type_synonym welcome_ins = "fault \<times> int \<times> bytes \<times> bytes \<times> bytes \<times> bytes \<times> int \<times> bytes"

fun group_insert :: "group_ins \<Rightarrow> mls_db \<Rightarrow> mls_db \<times> GroupMessageRow result" where
  "group_insert (flt, now, g, d, h, hm, sp, ic) db = InsertGroupMessage flt now g d h hm sp ic db"

fun welcome_insert :: "bool \<Rightarrow> welcome_ins \<Rightarrow> mls_db \<Rightarrow> mls_db \<times> WelcomeMessageRow result" where
  "welcome_insert False (flt, now, k, d, h, p, a, m) db = InsertWelcomeMessage flt now k d h p a m db"
| "welcome_insert True (flt, now, k, d, h, p, a, m) db = InsertWelcomePointerMessage flt now k d h p a db"

lemma write_query_Inr: "write_query flt db x = (db', Inr r) \<Longrightarrow> flt = None \<and> x = (db', Inr r)"
  by (cases flt) auto

lemma write_query_Inl: "write_query flt db x = (db', Inl e) \<Longrightarrow> (flt = Some e \<and> db' = db) \<or> (flt = None \<and> x = (db', Inl e))"
  by (cases flt) auto

interpretation glog: id_log group_messages group_messages_seq gr_ID group_insert
proof
  fix a db db' r
  assume "group_insert a db = (db', Inr r)"
  then show "group_messages db' = group_messages db @ [r] \<and> gr_ID r = group_messages_seq db \<and>
    group_messages_seq db' = group_messages_seq db + 1"
    by (cases a) (auto simp: InsertGroupMessage_def Let_def dest!: write_query_Inr split: if_splits)
next
  fix a db db' e
  assume "group_insert a db = (db', Inl e)"
  then show "group_messages db' = group_messages db \<and> group_messages_seq db \<le> group_messages_seq db'"
    by (cases a) (auto simp: InsertGroupMessage_def Let_def dest!: write_query_Inl split: if_splits)
qed

interpretation wlog: id_log welcome_messages welcome_messages_seq wr_ID
  "\<lambda>(b, a). welcome_insert b a"
proof
  fix x db db' r
  assume "(case x of (b, a) \<Rightarrow> welcome_insert b a) db = (db', Inr r)"
  then show "welcome_messages db' = welcome_messages db @ [r] \<and> wr_ID r = welcome_messages_seq db \<and>
    welcome_messages_seq db' = welcome_messages_seq db + 1"
    by (cases x; cases "fst x"; cases "snd x")
      (auto simp: InsertWelcomeMessage_def InsertWelcomePointerMessage_def insert_welcome_row_def
        welcome_row_def Let_def dest!: write_query_Inr split: if_splits)
next
  fix x db db' e
  assume "(case x of (b, a) \<Rightarrow> welcome_insert b a) db = (db', Inl e)"
  then show "welcome_messages db' = welcome_messages db \<and> welcome_messages_seq db \<le> welcome_messages_seq db'"
    by (cases x; cases "fst x"; cases "snd x")
      (auto simp: InsertWelcomeMessage_def InsertWelcomePointerMessage_def insert_welcome_row_def
        Let_def dest!: write_query_Inl split: if_splits)
qed

interpretation ilog: id_log inbox_log inbox_log_seq il_SequenceID
  "\<lambda>(flt, i, ts, p). InsertInboxLog flt i ts p"
proof
  fix x db db' r
  assume "(case x of (flt, i, ts, p) \<Rightarrow> InsertInboxLog flt i ts p) db = (db', Inr r)"
  then show "inbox_log db' = inbox_log db @ [r] \<and> il_SequenceID r = inbox_log_seq db \<and>
    inbox_log_seq db' = inbox_log_seq db + 1"
    by (cases x) (auto simp: InsertInboxLog_def Let_def dest!: write_query_Inr split: sum.splits)
next
  fix x db db' e
  assume "(case x of (flt, i, ts, p) \<Rightarrow> InsertInboxLog flt i ts p) db = (db', Inl e)"
  then show "inbox_log db' = inbox_log db \<and> inbox_log_seq db \<le> inbox_log_seq db'"
    by (cases x) (auto simp: InsertInboxLog_def Let_def dest!: write_query_Inl split: sum.splits)
qed

interpretation clog: id_log commit_log_v2 commit_log_v2_seq cl_ID
  "\<lambda>(flt, now, g, e, s). InsertCommitLogV2 flt now g e s"
  by unfold_locales
    (auto simp: InsertCommitLogV2_def Let_def dest!: write_query_Inr write_query_Inl)

end
