(* ===== verification/Read_Store.thy ===== *)
theory Read_Store
  imports Queries
begin

text \<open>
  The read side of the MLS store: pkg/mls/store/readStore.go. One definition per method of
  \<open>ReadStore\<close>, over the queries of \<open>Queries\<close> and with the same early returns. \<open>flt\<close> is the driver
  error of the query the method runs. Parsing a stored protobuf (\<open>proto.Unmarshal\<close>) is the
  argument \<open>unmarshal\<close>.

  The lemmas give the exact page each paging method returns, show that following the returned
  cursors tiles the log with no gap and no repetition, that the wave scan returns per topic the
  first rows of the window \<open>(cursor, ceiling]\<close> in ascending order and reports raw progress, and
  that \<open>clampCursor\<close> makes an out-of-range cursor match nothing.
\<close>

definition maxPageSize :: int where
  "maxPageSize = 100"

section \<open>Conversions to protobuf\<close>

definition group_message_proto :: "GroupMessageRow \<Rightarrow> GroupMessage" where
  "group_message_proto msg =
     Some \<lparr>gm_Id = go_uint64 (gr_ID msg), gm_CreatedNs = go_uint64 (gr_CreatedAt msg),
           gm_GroupId = gr_GroupID msg, gm_Data = gr_Data msg, gm_SenderHmac = gr_SenderHmac msg,
           gm_ShouldPush = NullBool (gr_ShouldPush msg), gm_IsCommit = NullBool (gr_IsCommit msg)\<rparr>"

text \<open>
  The \<open>switch msg.MessageType\<close> that QueryWelcomeMessagesV1, QueryWelcomeMessagesWaveScan and the
  welcome worker share: a regular welcome, a pointer, or nothing for an unknown type.
\<close>

definition welcome_message_proto :: "WelcomeMessageRow \<Rightarrow> WelcomeMessage option" where
  "welcome_message_proto msg =
     (if wr_MessageType msg = 0 then
        Some (WM_V1 (Some \<lparr>wm_Id = go_uint64 (wr_ID msg), wm_CreatedNs = go_uint64 (wr_CreatedAt msg),
          wm_InstallationKey = wr_InstallationKey msg, wm_Data = wr_Data msg,
          wm_HpkePublicKey = wr_HpkePublicKey msg,
          wm_WrapperAlgorithm = WrapperAlgorithmToProto (wr_WrapperAlgorithm msg),
          wm_WelcomeMetadata = wr_WelcomeMetadata msg\<rparr>))
      else if wr_MessageType msg = 1 then
        Some (WM_WelcomePointer (Some \<lparr>wp_Id = go_uint64 (wr_ID msg), wp_CreatedNs = go_uint64 (wr_CreatedAt msg),
          wp_InstallationKey = wr_InstallationKey msg, wp_WelcomePointer = wr_Data msg,
          wp_HpkePublicKey = wr_HpkePublicKey msg,
          wp_WrapperAlgorithm = WrapperAlgorithmToWelcomePointerWrapperAlgorithm (wr_WrapperAlgorithm msg)\<rparr>))
      else None)"

lemma group_message_proto_getters [simp]:
  "GetId (group_message_proto r) = go_uint64 (gr_ID r)"
  "GetGroupId (group_message_proto r) = gr_GroupID r"
  "GetData (group_message_proto r) = gr_Data r"
  by (simp_all add: group_message_proto_def)

lemma welcome_message_proto_getters:
  "welcome_message_proto r = Some m \<Longrightarrow>
     welcomeID m = go_uint64 (wr_ID r) \<and> welcomeInstallationKey m = wr_InstallationKey r \<and>
     welcomeData m = wr_Data r"
  by (auto simp: welcome_message_proto_def split: if_splits)

section \<open>Paging parameters\<close>

definition paging_sortDesc :: "PagingInfo option \<Rightarrow> bool" where
  "paging_sortDesc p = (case p of None \<Rightarrow> True | Some i \<Rightarrow> pi_Direction i \<noteq> SORT_ASCENDING)"

definition paging_pageSize :: "PagingInfo option \<Rightarrow> int" where
  "paging_pageSize p =
     (case p of None \<Rightarrow> maxPageSize
      | Some i \<Rightarrow> if 0 < pi_Limit i \<and> uint (pi_Limit i) \<le> maxPageSize then go_int32 (pi_Limit i)
                 else maxPageSize)"

definition paging_idCursor :: "PagingInfo option \<Rightarrow> int" where
  "paging_idCursor p =
     (case p of None \<Rightarrow> 0 | Some i \<Rightarrow> if pi_IdCursor i \<noteq> 0 then go_int64 (pi_IdCursor i) else 0)"

definition paging_direction :: "bool \<Rightarrow> SortDirection" where
  "paging_direction sortDesc = (if sortDesc then SORT_DESCENDING else SORT_ASCENDING)"

text \<open>The response's paging info: the cursor is set only when the page is full.\<close>

definition response_paging :: "('r \<Rightarrow> int) \<Rightarrow> bool \<Rightarrow> int \<Rightarrow> 'r list \<Rightarrow> PagingInfo" where
  "response_paging k sortDesc pageSize messages =
     \<lparr>pi_Direction = paging_direction sortDesc, pi_Limit = go_uint32 pageSize,
      pi_IdCursor = (if pageSize \<le> int (length messages) then go_uint64 (k (last messages)) else 0)\<rparr>"

lemma paging_pageSize_bounds: "1 \<le> paging_pageSize p \<and> paging_pageSize p \<le> 100"
proof (cases p)
  case (Some i)
  have "go_int32 (pi_Limit i) = uint (pi_Limit i)" if "uint (pi_Limit i) \<le> 100"
    using that by (simp add: go_int32_small)
  moreover have "0 < pi_Limit i \<longleftrightarrow> 0 < uint (pi_Limit i)" by (simp add: word_less_def)
  ultimately show ?thesis using Some by (auto simp: paging_pageSize_def maxPageSize_def)
qed (simp add: paging_pageSize_def maxPageSize_def)

section \<open>Message queries\<close>

record QueryGroupMessagesResponse =
  qg_Messages :: "GroupMessage list"
  qg_PagingInfo :: PagingInfo

definition QueryGroupMessagesV1 ::
  "fault \<Rightarrow> bytes \<Rightarrow> PagingInfo option \<Rightarrow> mls_db \<Rightarrow> QueryGroupMessagesResponse result" where
  "QueryGroupMessagesV1 flt groupId pagingInfo db =
     (if groupId = [] then Inl (Err ''group is required'')
      else
        let sortDesc = paging_sortDesc pagingInfo;
            pageSize = paging_pageSize pagingInfo;
            idCursor = paging_idCursor pagingInfo;
            messages =
              (if 0 < idCursor then
                 (if sortDesc then QueryGroupMessagesWithCursorDesc flt groupId idCursor pageSize db
                  else QueryGroupMessagesWithCursorAsc flt groupId idCursor pageSize db)
               else QueryGroupMessages flt groupId sortDesc pageSize db)
        in case messages of
             Inl e \<Rightarrow> Inl e
           | Inr msgs \<Rightarrow> Inr \<lparr>qg_Messages = map group_message_proto msgs,
                             qg_PagingInfo = response_paging gr_ID sortDesc pageSize msgs\<rparr>)"

record QueryWelcomeMessagesResponse =
  qw_Messages :: "WelcomeMessage list"
  qw_PagingInfo :: PagingInfo

definition QueryWelcomeMessagesV1 ::
  "fault \<Rightarrow> bytes \<Rightarrow> PagingInfo option \<Rightarrow> mls_db \<Rightarrow> QueryWelcomeMessagesResponse result" where
  "QueryWelcomeMessagesV1 flt installationKey pagingInfo db =
     (if installationKey = [] then Inl (Err ''installation is required'')
      else
        let sortDesc = paging_sortDesc pagingInfo;
            pageSize = paging_pageSize pagingInfo;
            idCursor = paging_idCursor pagingInfo;
            messages =
              (if 0 < idCursor then
                 (if sortDesc then QueryWelcomeMessagesWithCursorDesc flt installationKey idCursor pageSize db
                  else QueryWelcomeMessagesWithCursorAsc flt installationKey idCursor pageSize db)
               else QueryWelcomeMessages flt installationKey sortDesc pageSize db)
        in case messages of
             Inl e \<Rightarrow> Inl e
           | Inr msgs \<Rightarrow> Inr \<lparr>qw_Messages = List.map_filter welcome_message_proto msgs,
                             qw_PagingInfo = response_paging wr_ID sortDesc pageSize msgs\<rparr>)"

section \<open>Wave scans\<close>

record GroupCatchup =
  gc_GroupID :: bytes
  gc_IdCursor :: u64

record WelcomeCatchup =
  wc_InstallationKey :: bytes
  wc_IdCursor :: u64

record WaveScanTopicProgress =
  RawCount :: int
  LastRawID :: u64

definition maxInt64 :: int where
  "maxInt64 = 2 ^ 63 - 1"

definition clampCursor :: "u64 \<Rightarrow> int" where
  "clampCursor c = (if maxInt64 < uint c then maxInt64 else go_int64 c)"

text \<open>
  The SQL shape the two scans share: per filter the first \<open>n\<close> rows of its topic above
  \<open>GREATEST(f.id_cursor, floor)\<close> and at most \<open>ceiling\<close>, the results of all filters ordered by id.
\<close>

definition lateral_scan ::
  "('r \<Rightarrow> int) \<Rightarrow> ('r \<Rightarrow> bytes) \<Rightarrow> 'r list \<Rightarrow> (bytes \<times> int) list \<Rightarrow> int \<Rightarrow> int \<Rightarrow> int \<Rightarrow> 'r list" where
  "lateral_scan k topic rows filters floor ceiling n =
     sort_key k (concat (map (\<lambda>(t, c). limit n (select_asc k
       (\<lambda>r. topic r = t \<and> max c floor < k r \<and> k r \<le> ceiling) rows)) filters))"

definition QueryGroupMessagesWaveScan ::
  "fault \<Rightarrow> GroupCatchup list \<Rightarrow> u64 \<Rightarrow> u64 \<Rightarrow> int \<Rightarrow> mls_db \<Rightarrow> GroupMessage list result" where
  "QueryGroupMessagesWaveScan flt filters scanCursor ceiling n db =
     (if filters = [] \<or> ceiling = 0 then Inr []
      else case read_query flt (lateral_scan gr_ID gr_GroupID (group_messages db)
             (map (\<lambda>f. (gc_GroupID f, clampCursor (gc_IdCursor f))) filters)
             (clampCursor scanCursor) (clampCursor ceiling) n) of
          Inl e \<Rightarrow> Inl e
        | Inr rows \<Rightarrow> Inr (map group_message_proto rows))"

definition zero_progress :: "bytes \<Rightarrow> WaveScanTopicProgress" where
  "zero_progress = (\<lambda>_. \<lparr>RawCount = 0, LastRawID = 0\<rparr>)"

fun scan_welcome_rows ::
  "WelcomeMessageRow list \<Rightarrow> WelcomeMessage list \<Rightarrow> (bytes \<Rightarrow> WaveScanTopicProgress) \<Rightarrow>
     WelcomeMessage list \<times> (bytes \<Rightarrow> WaveScanTopicProgress)" where
  "scan_welcome_rows [] out progress = (out, progress)"
| "scan_welcome_rows (r # rs) out progress =
     (let key = wr_InstallationKey r;
          progress' = progress(key := \<lparr>RawCount = RawCount (progress key) + 1, LastRawID = go_uint64 (wr_ID r)\<rparr>)
      in scan_welcome_rows rs
           (case welcome_message_proto r of None \<Rightarrow> out | Some m \<Rightarrow> out @ [m]) progress')"

definition QueryWelcomeMessagesWaveScan ::
  "fault \<Rightarrow> WelcomeCatchup list \<Rightarrow> u64 \<Rightarrow> u64 \<Rightarrow> int \<Rightarrow> mls_db \<Rightarrow>
     (WelcomeMessage list \<times> (bytes \<Rightarrow> WaveScanTopicProgress)) result" where
  "QueryWelcomeMessagesWaveScan flt filters scanCursor ceiling n db =
     (if filters = [] \<or> ceiling = 0 then Inr ([], zero_progress)
      else case read_query flt (lateral_scan wr_ID wr_InstallationKey (welcome_messages db)
             (map (\<lambda>f. (wc_InstallationKey f, clampCursor (wc_IdCursor f))) filters)
             (clampCursor scanCursor) (clampCursor ceiling) n) of
          Inl e \<Rightarrow> Inl e
        | Inr rows \<Rightarrow> Inr (scan_welcome_rows rows [] zero_progress))"

section \<open>Commit log\<close>

record 'sig CommitLogEntry =
  ce_SequenceId :: u64
  ce_SerializedCommitLogEntry :: bytes
  ce_Signature :: 'sig

record 'sig QueryCommitLogResponse =
  qc_GroupId :: bytes
  qc_CommitLogEntries :: "'sig CommitLogEntry list"
  qc_PagingInfo :: PagingInfo

fun commit_entries :: "(bytes \<Rightarrow> 'sig result) \<Rightarrow> CommitLogV2Row list \<Rightarrow> 'sig CommitLogEntry list result" where
  "commit_entries unmarshal [] = Inr []"
| "commit_entries unmarshal (r # rs) =
     (case unmarshal (cl_SerializedSignature r) of
        Inl e \<Rightarrow> Inl e
      | Inr sig \<Rightarrow>
          (case commit_entries unmarshal rs of
             Inl e \<Rightarrow> Inl e
           | Inr out \<Rightarrow> Inr (\<lparr>ce_SequenceId = go_uint64 (cl_ID r),
               ce_SerializedCommitLogEntry = cl_SerializedEntry r, ce_Signature = sig\<rparr> # out)))"

definition QueryCommitLog ::
  "(bytes \<Rightarrow> 'sig result) \<Rightarrow> fault \<Rightarrow> bytes \<Rightarrow> PagingInfo option \<Rightarrow> mls_db \<Rightarrow>
     'sig QueryCommitLogResponse result" where
  "QueryCommitLog unmarshal flt groupId pagingInfo db =
     (if groupId = [] then Inl (Err ''group is required'')
      else if (case pagingInfo of None \<Rightarrow> False | Some p \<Rightarrow> pi_Direction p = SORT_DESCENDING)
      then Inl (Err ''descending direction is not supported'')
      else
        let n = go_int32 (case pagingInfo of None \<Rightarrow> 0 | Some p \<Rightarrow> pi_Limit p);
            pageSize = (if n \<le> 0 \<or> maxPageSize < n then maxPageSize else n);
            idCursor = go_int64 (case pagingInfo of None \<Rightarrow> 0 | Some p \<Rightarrow> pi_IdCursor p)
        in case QueryCommitLogV2 flt groupId idCursor pageSize db of
             Inl e \<Rightarrow> Inl e
           | Inr entries \<Rightarrow>
               (case commit_entries unmarshal entries of
                  Inl e \<Rightarrow> Inl e
                | Inr out \<Rightarrow> Inr \<lparr>qc_GroupId = groupId, qc_CommitLogEntries = out,
                    qc_PagingInfo = response_paging cl_ID False pageSize entries\<rparr>))"

section \<open>Newest messages, key packages\<close>

text \<open>The result map is filled row by row; the output keeps the order and length of the input.\<close>

definition GetNewestGroupMessage_rs ::
  "fault \<Rightarrow> bytes list \<Rightarrow> mls_db \<Rightarrow> GroupMessageRow option list result" where
  "GetNewestGroupMessage_rs flt groupIds db =
     (case GetNewestGroupMessage flt groupIds db of
        Inl e \<Rightarrow> Inl e
      | Inr results \<Rightarrow>
          let resultMap = foldl (\<lambda>m r. m(gr_GroupID r \<mapsto> r)) Map.empty results
          in Inr (map resultMap groupIds))"

definition GetNewestGroupMessageMetadata_rs ::
  "fault \<Rightarrow> bytes list \<Rightarrow> mls_db \<Rightarrow> NewestMetadataRow option list result" where
  "GetNewestGroupMessageMetadata_rs flt groupIds db =
     (case GetNewestGroupMessageMetadata flt groupIds db of
        Inl e \<Rightarrow> Inl e
      | Inr results \<Rightarrow>
          let resultMap = foldl (\<lambda>m r. m(nm_GroupID r \<mapsto> r)) Map.empty results
          in Inr (map resultMap groupIds))"

definition FetchKeyPackages_rs :: "fault \<Rightarrow> bytes list \<Rightarrow> mls_db \<Rightarrow> (bytes \<times> bytes) list result" where
  "FetchKeyPackages_rs flt installationIds db = FetchKeyPackages_q flt installationIds db"

section \<open>Exact pages\<close>

text \<open>
  The rows a page is cut from: the rows of the topic, oldest or newest first, beyond the cursor.
  A cursor that is not positive is no cursor.
\<close>

definition page_rows ::
  "('r \<Rightarrow> int) \<Rightarrow> ('r \<Rightarrow> bool) \<Rightarrow> bool \<Rightarrow> int \<Rightarrow> 'r list \<Rightarrow> 'r list" where
  "page_rows k P sortDesc cursor rows =
     (if sortDesc then rev (filter (\<lambda>r. P r \<and> (0 < cursor \<longrightarrow> k r < cursor)) rows)
      else filter (\<lambda>r. P r \<and> (0 < cursor \<longrightarrow> cursor < k r)) rows)"

definition log_ids_ok :: "('r \<Rightarrow> int) \<Rightarrow> 'r list \<Rightarrow> int \<Rightarrow> bool" where
  "log_ids_ok k rows nxt \<longleftrightarrow> log_ok k rows nxt \<and> nxt \<le> 2 ^ 63"

lemma log_ids_okD:
  assumes "log_ids_ok k rows nxt"
  shows "ascending k rows" and "r \<in> set rows \<Longrightarrow> 0 < k r" and "r \<in> set rows \<Longrightarrow> k r < 2 ^ 63"
  using assms by (force simp: log_ids_ok_def log_ok_def)+

lemma log_ids_ok_uint:
  "log_ids_ok k rows nxt \<Longrightarrow> r \<in> set rows \<Longrightarrow> uint (go_uint64 (k r)) = k r"
  using log_ids_okD [of k rows nxt] by (intro uint_go_uint64) force+

lemma QueryGroupMessagesV1_eq:
  assumes "log_ids_ok gr_ID (group_messages db) nxt" and "groupId \<noteq> []"
  shows "QueryGroupMessagesV1 flt groupId p db =
    map_sum id (\<lambda>page. \<lparr>qg_Messages = map group_message_proto page,
        qg_PagingInfo = response_paging gr_ID (paging_sortDesc p) (paging_pageSize p) page\<rparr>)
      (read_query flt (take (nat (paging_pageSize p))
        (page_rows gr_ID (\<lambda>r. gr_GroupID r = groupId) (paging_sortDesc p) (paging_idCursor p)
          (group_messages db))))"
  using assms log_ids_okD(1) [OF assms(1)]
  by (cases flt) (auto simp: QueryGroupMessagesV1_def QueryGroupMessagesWithCursorDesc_def
      QueryGroupMessagesWithCursorAsc_def QueryGroupMessages_def page_rows_def limit_def id_simps
      Let_def)

lemma QueryWelcomeMessagesV1_eq:
  assumes "log_ids_ok wr_ID (welcome_messages db) nxt" and "installationKey \<noteq> []"
  shows "QueryWelcomeMessagesV1 flt installationKey p db =
    map_sum id (\<lambda>page. \<lparr>qw_Messages = List.map_filter welcome_message_proto page,
        qw_PagingInfo = response_paging wr_ID (paging_sortDesc p) (paging_pageSize p) page\<rparr>)
      (read_query flt (take (nat (paging_pageSize p))
        (page_rows wr_ID (\<lambda>r. wr_InstallationKey r = installationKey) (paging_sortDesc p)
          (paging_idCursor p) (welcome_messages db))))"
  using assms log_ids_okD(1) [OF assms(1)]
  by (cases flt) (auto simp: QueryWelcomeMessagesV1_def QueryWelcomeMessagesWithCursorDesc_def
      QueryWelcomeMessagesWithCursorAsc_def QueryWelcomeMessages_def page_rows_def limit_def id_simps
      Let_def)

section \<open>Following the cursors\<close>

text \<open>
  The contract a paging method offers to a client that follows the cursor: an ascending page holds
  the first rows beyond the cursor, and the returned cursor is the id of the page's last row, or 0
  when the page was short. The client's lemma is that appending the page to what remains after it
  gives what remained before.
\<close>

definition remaining :: "('r \<Rightarrow> int) \<Rightarrow> ('r \<Rightarrow> bytes) \<Rightarrow> bytes \<Rightarrow> int \<Rightarrow> 'r list \<Rightarrow> 'r list" where
  "remaining k topic t c rows = filter (\<lambda>r. topic r = t \<and> c < k r) rows"

lemma page_rows_remaining:
  assumes "log_ids_ok k rows nxt" and "0 \<le> c"
  shows "page_rows k (\<lambda>r. topic r = t) False c rows = remaining k topic t c rows"
  using assms(2) log_ids_okD(2) [OF assms(1)]
  by (cases "c = 0") (auto simp: page_rows_def remaining_def intro!: filter_cong)

lemma paging_pageSize_response [simp]:
  "1 \<le> n \<Longrightarrow> n \<le> 100 \<Longrightarrow> paging_pageSize (Some (response_paging k d n page)) = n"
proof -
  assume n: "1 \<le> n" "n \<le> 100"
  then have "uint (go_uint32 n) = n" by (simp add: go_uint32_def uint_word_of_int)
  with n show ?thesis
    by (simp add: paging_pageSize_def response_paging_def maxPageSize_def word_less_def go_int32_small)
qed

locale paged_log =
  fixes rows :: "mls_db \<Rightarrow> 'r list" and key :: "'r \<Rightarrow> int" and topic :: "'r \<Rightarrow> bytes"
    and nxt :: "mls_db \<Rightarrow> int" and conv :: "'r \<Rightarrow> 'm option"
    and query :: "bytes \<Rightarrow> PagingInfo \<Rightarrow> mls_db \<Rightarrow> ('m list \<times> PagingInfo) result"
  assumes query_page: "log_ids_ok key (rows db) (nxt db) \<Longrightarrow> t \<noteq> [] \<Longrightarrow> pi_Direction p = SORT_ASCENDING \<Longrightarrow>
      query t p db = Inr (ms, p') \<Longrightarrow>
      \<exists>page. page = take (nat (paging_pageSize (Some p)))
          (page_rows key (\<lambda>r. topic r = t) False (paging_idCursor (Some p)) (rows db)) \<and>
        ms = List.map_filter conv page \<and>
        p' = response_paging key False (paging_pageSize (Some p)) page"
begin

lemma page_step:
  assumes ok: "log_ids_ok key (rows db) (nxt db)" and t: "t \<noteq> []"
    and p: "pi_Direction p = SORT_ASCENDING" and c: "c = paging_idCursor (Some p)" "0 \<le> c"
    and q: "query t p db = Inr (ms, p')"
  obtains (short) "pi_IdCursor p' = 0" "ms = List.map_filter conv (remaining key topic t c (rows db))"
    | (full) page where "page \<noteq> []" "ms = List.map_filter conv page"
        "remaining key topic t c (rows db) =
           page @ remaining key topic t (key (last page)) (rows db)"
        "paging_idCursor (Some p') = key (last page)" "pi_IdCursor p' \<noteq> 0"
        "pi_Direction p' = SORT_ASCENDING" "c < key (last page)" "last page \<in> set (rows db)"
proof -
  let ?n = "paging_pageSize (Some p)"
  let ?rem = "remaining key topic t c (rows db)"
  define page where "page = take (nat ?n) ?rem"
  have n: "1 \<le> ?n" "?n \<le> 100" using paging_pageSize_bounds [of "Some p"] by auto
  have ms: "ms = List.map_filter conv page" and p': "p' = response_paging key False ?n page"
    using query_page [OF ok t p q] page_rows_remaining [OF ok c(2), of topic t] c(1)
    by (auto simp: page_def)
  show thesis
  proof (cases "?n \<le> int (length page)")
    case False
    then have "length page < nat ?n" by simp
    then have "page = ?rem"
      using filter_above_short_page [of page "nat ?n"] by (simp add: page_def remaining_def)
    with False ms p' show thesis by (intro short) (simp_all add: response_paging_def)
  next
    case True
    with n have ne: "page \<noteq> []" by auto
    have split: "?rem = page @ remaining key topic t (key (last page)) (rows db)"
      using filter_above_last_page [OF log_ids_okD(1) [OF ok] _ ne] page_def
      by (simp add: remaining_def)
    have "last page \<in> set ?rem" using ne split by (metis Un_iff last_in_set set_append)
    then have last: "last page \<in> set (rows db)" "c < key (last page)" by (auto simp: remaining_def)
    have id: "0 < key (last page)" "key (last page) < 2 ^ 63"
      using log_ids_okD(2,3) [OF ok last(1)] .
    have "go_uint64 (key (last page)) \<noteq> 0" using uint_go_uint64 [of "key (last page)"] id by force
    with True id last ne ms split p' show thesis
      by (intro full) (simp_all add: response_paging_def paging_idCursor_def paging_direction_def
          go_int64_go_uint64)
  qed
qed

end

definition group_page_query ::
  "bytes \<Rightarrow> PagingInfo \<Rightarrow> mls_db \<Rightarrow> (GroupMessage list \<times> PagingInfo) result" where
  "group_page_query groupId p db =
     map_sum id (\<lambda>resp. (qg_Messages resp, qg_PagingInfo resp)) (QueryGroupMessagesV1 None groupId (Some p) db)"

definition welcome_page_query ::
  "bytes \<Rightarrow> PagingInfo \<Rightarrow> mls_db \<Rightarrow> (WelcomeMessage list \<times> PagingInfo) result" where
  "welcome_page_query key p db =
     map_sum id (\<lambda>resp. (qw_Messages resp, qw_PagingInfo resp)) (QueryWelcomeMessagesV1 None key (Some p) db)"

lemma paging_sortDesc_asc [simp]: "pi_Direction p = SORT_ASCENDING \<Longrightarrow> \<not> paging_sortDesc (Some p)"
  by (simp add: paging_sortDesc_def)

lemma map_filter_Some [simp]: "List.map_filter (\<lambda>r. Some (f r)) xs = map f xs"
  by (induction xs) (simp_all add: List.map_filter_simps)

interpretation gpages: paged_log group_messages gr_ID gr_GroupID group_messages_seq
  "\<lambda>r. Some (group_message_proto r)" group_page_query
  by unfold_locales (auto simp: group_page_query_def QueryGroupMessagesV1_eq)

interpretation wpages: paged_log welcome_messages wr_ID wr_InstallationKey welcome_messages_seq
  welcome_message_proto welcome_page_query
  by unfold_locales (auto simp: welcome_page_query_def QueryWelcomeMessagesV1_eq)

section \<open>What a wave scan returns\<close>

definition scan_window ::
  "('r \<Rightarrow> int) \<Rightarrow> ('r \<Rightarrow> bytes) \<Rightarrow> bytes \<Rightarrow> int \<Rightarrow> int \<Rightarrow> int \<Rightarrow> 'r list \<Rightarrow> 'r list" where
  "scan_window k topic t c floor ceiling rows =
     filter (\<lambda>r. topic r = t \<and> max c floor < k r \<and> k r \<le> ceiling) rows"

lemma filter_concat_distinct:
  assumes "distinct (map fst fs)" and "(t, c) \<in> set fs"
    and "\<And>u d x. x \<in> set (g (u, d)) \<Longrightarrow> topic x = u"
  shows "filter (\<lambda>x. topic x = t) (concat (map g fs)) = g (t, c)"
  using assms(1,2)
proof (induction fs)
  case (Cons f fs)
  obtain u d where f: "f = (u, d)" by (cases f)
  have same: "filter (\<lambda>x. topic x = u) (g (u, d)) = g (u, d)"
    using assms(3) by (auto simp: filter_id_conv)
  have other: "filter (\<lambda>x. topic x = t) (g (u, d)) = []" if "u \<noteq> t"
    using assms(3) that by (auto simp: filter_empty_conv)
  have none: "filter (\<lambda>x. topic x = t) (concat (map g fs)) = []" if "u = t"
    using Cons.prems(1) that f assms(3) by (force simp: filter_empty_conv)
  show ?case
  proof (cases "u = t")
    case True
    then have "(t, c) = (u, d)" using Cons.prems f by force
    with True same none f show ?thesis by simp
  next
    case False
    with Cons.prems f have "(t, c) \<in> set fs" by auto
    with False other Cons f show ?thesis by simp
  qed
qed simp

lemma lateral_scan_topic:
  assumes asc: "ascending k rows" and d: "distinct (map fst filters)" and m: "(t, c) \<in> set filters"
  shows "filter (\<lambda>r. topic r = t) (lateral_scan k topic rows filters floor ceiling n) =
    take (nat n) (scan_window k topic t c floor ceiling rows)"
proof -
  let ?g = "\<lambda>(t, c). limit n (select_asc k (\<lambda>r. topic r = t \<and> max c floor < k r \<and> k r \<le> ceiling) rows)"
  have g: "?g (t, c) = take (nat n) (scan_window k topic t c floor ceiling rows)"
    by (simp add: limit_def select_asc_ascending [OF asc] scan_window_def)
  have "filter (\<lambda>r. topic r = t) (concat (map ?g filters)) = ?g (t, c)"
    using d m by (rule filter_concat_distinct) (auto simp: limit_def dest!: in_set_takeD)
  moreover have "ascending k (?g (t, c))"
    unfolding g scan_window_def using asc by (intro ascending_take ascending_filter)
  then have "sort_key k (?g (t, c)) = ?g (t, c)"
    by (simp add: ascending_def strict_sorted_imp_sorted sort_key_id_if_sorted)
  ultimately show ?thesis unfolding lateral_scan_def filter_sort using g by simp
qed

lemma set_lateral_scan:
  assumes "ascending k rows"
  shows "set (lateral_scan k topic rows filters floor ceiling n) =
    (\<Union>(t, c) \<in> set filters. set (take (nat n) (scan_window k topic t c floor ceiling rows)))"
  by (auto simp: lateral_scan_def limit_def select_asc_ascending [OF assms] scan_window_def)

lemma distinct_key_concat:
  assumes "distinct (map fst fs)"
    and "\<And>u d x. x \<in> set (g (u, d)) \<Longrightarrow> topic x = u" and "\<And>u d. distinct (g (u, d))"
  shows "distinct (concat (map g fs))"
  using assms(1)
proof (induction fs)
  case (Cons f fs)
  obtain u d where f: "f = (u, d)" by (cases f)
  have "x \<notin> set (concat (map g fs))" if x: "x \<in> set (g (u, d))" for x
  proof
    assume "x \<in> set (concat (map g fs))"
    then obtain v e where v: "(v, e) \<in> set fs" "x \<in> set (g (v, e))" by auto
    then have "v = u" using assms(2) x by metis
    with v Cons.prems f show False by force
  qed
  then have "set (g (u, d)) \<inter> set (concat (map g fs)) = {}" by blast
  moreover have "distinct (concat (map g fs))" using Cons by simp
  ultimately show ?case using f assms(3) by simp
qed simp

lemma ascending_lateral_scan:
  assumes asc: "ascending k rows" and d: "distinct (map fst filters)"
  shows "ascending k (lateral_scan k topic rows filters floor ceiling n)"
proof -
  let ?out = "lateral_scan k topic rows filters floor ceiling n"
  let ?g = "\<lambda>(t, c). limit n (select_asc k (\<lambda>r. topic r = t \<and> max c floor < k r \<and> k r \<le> ceiling) rows)"
  have "distinct (concat (map ?g filters))"
    using d by (rule distinct_key_concat)
      (auto simp: limit_def select_asc_ascending [OF asc] ascending_distinct [OF asc]
        dest!: in_set_takeD)
  then have dist: "distinct ?out" by (simp add: lateral_scan_def)
  have sub: "set ?out \<subseteq> set rows"
    unfolding set_lateral_scan [OF asc] by (auto simp: scan_window_def dest!: in_set_takeD)
  then have "inj_on k (set ?out)" using ascending_inj [OF asc] by (auto intro!: inj_onI)
  with dist have "distinct (map k ?out)" by (simp add: distinct_map)
  moreover have "sorted (map k ?out)" by (simp add: lateral_scan_def)
  ultimately show ?thesis by (simp add: ascending_def strict_sorted_iff)
qed

text \<open>Raw progress counts every row of a topic, also those whose message type is unknown.\<close>

lemma scan_welcome_rows_spec:
  "scan_welcome_rows rs out progress =
     (out @ List.map_filter welcome_message_proto rs,
      \<lambda>key. let mine = filter (\<lambda>r. wr_InstallationKey r = key) rs in
        \<lparr>RawCount = RawCount (progress key) + int (length mine),
         LastRawID = (if mine = [] then LastRawID (progress key) else go_uint64 (wr_ID (last mine)))\<rparr>)"
proof (induction rs arbitrary: out progress)
  case Nil
  show ?case
    by (auto simp: List.map_filter_simps intro!: ext WaveScanTopicProgress.equality)
next
  case (Cons r rs)
  show ?case
    by (simp add: Cons.IH List.map_filter_simps fun_eq_iff Let_def split: option.splits)
qed

section \<open>Clamped cursors\<close>

lemma clampCursor_eq: "clampCursor c = min (uint c) maxInt64"
  by (auto simp: clampCursor_def maxInt64_def go_int64_small)

lemma clampCursor_mono: "c \<le> d \<Longrightarrow> clampCursor c \<le> clampCursor d"
  by (auto simp: clampCursor_eq word_le_def)

lemma clampCursor_go_uint64 [conv_simps]:
  "0 \<le> i \<Longrightarrow> i < 2 ^ 63 \<Longrightarrow> clampCursor (go_uint64 i) = i"
  by (simp add: clampCursor_eq uint_go_uint64 maxInt64_def)

lemma clampCursor_less: "i < 2 ^ 63 \<Longrightarrow> clampCursor c < i \<longleftrightarrow> uint c < i"
  by (auto simp: clampCursor_eq maxInt64_def min_less_iff_disj)

lemma clampCursor_ge: "i < 2 ^ 63 \<Longrightarrow> i \<le> clampCursor c \<longleftrightarrow> i \<le> uint c"
  by (simp add: clampCursor_eq maxInt64_def)

lemma scan_window_iff:
  assumes "log_ids_ok k rows nxt" and "r \<in> set rows"
  shows "topic r = t \<and> max (clampCursor c) (clampCursor f) < k r \<and> k r \<le> clampCursor u \<longleftrightarrow>
    topic r = t \<and> uint c < k r \<and> uint f < k r \<and> k r \<le> uint u"
  using log_ids_okD(3) [OF assms] by (simp add: clampCursor_less clampCursor_ge)

section \<open>Newest message per group\<close>

lemma foldl_upd_lookup:
  "foldl (\<lambda>m r. m(f r \<mapsto> r)) m rs k =
     (case filter (\<lambda>r. f r = k) rs of [] \<Rightarrow> m k | xs \<Rightarrow> Some (last xs))"
  by (induction rs arbitrary: m) (auto split: list.splits)

lemma filter_newest:
  assumes "distinct gs" and "\<And>g. g \<in> set gs \<Longrightarrow> topic (f g) = g"
  shows "filter (\<lambda>r. topic r = k) (map f gs) = (if k \<in> set gs then [f k] else [])"
  using assms by (induction gs) auto

definition newest :: "('r \<Rightarrow> 'k) \<Rightarrow> 'k \<Rightarrow> 'r list \<Rightarrow> 'r option" where
  "newest topic g rows =
     (case filter (\<lambda>r. topic r = g) rows of [] \<Rightarrow> None | rs \<Rightarrow> Some (last rs))"

lemma newest_map_of:
  assumes "ascending gr_ID (group_messages db)"
  shows "foldl (\<lambda>m r. m(gr_GroupID r \<mapsto> r)) Map.empty
      (map (\<lambda>g. hd (select_desc gr_ID (\<lambda>r. gr_GroupID r = g) (group_messages db)))
        (sort (remdups (filter (\<lambda>g. g \<in> gr_GroupID ` set (group_messages db)) gs)))) g =
    (if g \<in> set gs then newest gr_GroupID g (group_messages db) else None)"
proof -
  let ?rows = "group_messages db"
  let ?f = "\<lambda>g. last (filter (\<lambda>r. gr_GroupID r = g) ?rows)"
  let ?gs = "sort (remdups (filter (\<lambda>g. g \<in> gr_GroupID ` set ?rows) gs))"
  have ne: "filter (\<lambda>r. gr_GroupID r = h) ?rows \<noteq> [] \<longleftrightarrow> h \<in> gr_GroupID ` set ?rows" for h
    by (auto simp: filter_empty_conv)
  have topic: "gr_GroupID (?f h) = h" if "h \<in> set ?gs" for h
  proof -
    from that have "filter (\<lambda>r. gr_GroupID r = h) ?rows \<noteq> []" using ne by simp
    then have "?f h \<in> set (filter (\<lambda>r. gr_GroupID r = h) ?rows)" by (rule last_in_set)
    then show ?thesis by simp
  qed
  have hd: "hd (select_desc gr_ID (\<lambda>r. gr_GroupID r = h) ?rows) = ?f h" for h
    by (simp add: select_desc_ascending [OF assms] hd_rev)
  have "filter (\<lambda>r. gr_GroupID r = g) (map ?f ?gs) = (if g \<in> set ?gs then [?f g] else [])"
    using topic by (intro filter_newest) auto
  then show ?thesis
    using ne [of g] by (auto simp: hd foldl_upd_lookup newest_def split: list.splits)
qed

section \<open>Properties\<close>


definition test_group_row :: "int \<Rightarrow> bytes \<Rightarrow> GroupMessageRow" where
  "test_group_row i g = \<lparr>gr_ID = i, gr_CreatedAt = 10 * i, gr_GroupID = g, gr_Data = [1],
     gr_GroupIDDataHash = [word_of_int i], gr_IsCommit = Some False, gr_SenderHmac = [],
     gr_ShouldPush = Some True\<rparr>"

definition test_db :: mls_db where
  "test_db = empty_db\<lparr>group_messages := [test_group_row 1 [7], test_group_row 2 [8], test_group_row 4 [7]],
     group_messages_seq := 5,
     welcome_messages := [welcome_row 1 10 [9] [1] [1] [] 0 [] 0, welcome_row 3 10 [9] [2] [2] [] 0 [] 5],
     welcome_messages_seq := 4\<rparr>"

lemmas test_db_defs = test_db_def test_group_row_def empty_db_def

lemma test_db_ok:
  "log_ids_ok gr_ID (group_messages test_db) (group_messages_seq test_db)"
  "log_ids_ok wr_ID (welcome_messages test_db) (welcome_messages_seq test_db)"
  by (simp_all add: log_ids_ok_def log_ok_def test_db_defs welcome_row_def)


text \<open>
  C31. The scan of a catch-up wave over groups is exact for every 64-bit cursor: with filters for
  distinct groups, each group gets the first \<open>n\<close> of its rows with an id above both its own cursor
  and the scan cursor and at most the ceiling, compared as unsigned numbers; the whole result
  ascends by id and holds nothing else. In particular a cursor of \<open>2\<close>\<open>^\<close>\<open>63\<close> or more replays nothing.
\<close>

theorem QueryGroupMessagesWaveScan_exact:
  assumes ok: "log_ids_ok gr_ID (group_messages db) (group_messages_seq db)"
    and d: "distinct (map gc_GroupID filters)" and ne: "ceiling \<noteq> 0"
  shows "\<exists>rows. QueryGroupMessagesWaveScan None filters scanCursor ceiling n db =
      Inr (map group_message_proto rows) \<and> ascending gr_ID rows \<and>
    gr_GroupID ` set rows \<subseteq> gc_GroupID ` set filters \<and>
    (\<forall>f \<in> set filters. filter (\<lambda>r. gr_GroupID r = gc_GroupID f) rows =
       take (nat n) (filter (\<lambda>r. gr_GroupID r = gc_GroupID f \<and> uint (gc_IdCursor f) < gr_ID r \<and>
         uint scanCursor < gr_ID r \<and> gr_ID r \<le> uint ceiling) (group_messages db)))"
proof -
  let ?fs = "map (\<lambda>f. (gc_GroupID f, clampCursor (gc_IdCursor f))) filters"
  let ?rows = "lateral_scan gr_ID gr_GroupID (group_messages db) ?fs (clampCursor scanCursor)
    (clampCursor ceiling) n"
  have d': "distinct (map fst ?fs)" using d by (simp add: comp_def)
  note asc = log_ids_okD(1) [OF ok]
  have "filter (\<lambda>r. gr_GroupID r = gc_GroupID f) ?rows =
       take (nat n) (filter (\<lambda>r. gr_GroupID r = gc_GroupID f \<and> uint (gc_IdCursor f) < gr_ID r \<and>
         uint scanCursor < gr_ID r \<and> gr_ID r \<le> uint ceiling) (group_messages db))"
    if f: "f \<in> set filters" for f
  proof -
    have "filter (\<lambda>r. gr_GroupID r = gc_GroupID f) ?rows = take (nat n) (scan_window gr_ID gr_GroupID
        (gc_GroupID f) (clampCursor (gc_IdCursor f)) (clampCursor scanCursor) (clampCursor ceiling)
        (group_messages db))"
      using f by (intro lateral_scan_topic [OF asc d']) auto
    also have "scan_window gr_ID gr_GroupID (gc_GroupID f) (clampCursor (gc_IdCursor f))
        (clampCursor scanCursor) (clampCursor ceiling) (group_messages db) =
      filter (\<lambda>r. gr_GroupID r = gc_GroupID f \<and> uint (gc_IdCursor f) < gr_ID r \<and>
         uint scanCursor < gr_ID r \<and> gr_ID r \<le> uint ceiling) (group_messages db)"
      unfolding scan_window_def by (intro filter_cong refl scan_window_iff [OF ok])
    finally show ?thesis .
  qed
  moreover have "gr_GroupID ` set ?rows \<subseteq> gc_GroupID ` set filters"
    unfolding set_lateral_scan [OF asc] by (auto simp: scan_window_def dest!: in_set_takeD)
  moreover have "ascending gr_ID ?rows" using asc d' by (rule ascending_lateral_scan)
  moreover have "QueryGroupMessagesWaveScan None filters scanCursor ceiling n db =
      Inr (map group_message_proto ?rows)"
    using ne by (simp add: QueryGroupMessagesWaveScan_def lateral_scan_def)
  ultimately show ?thesis by blast
qed

theorem QueryGroupMessagesWaveScan_exact_witness:
  "\<exists>rows. QueryGroupMessagesWaveScan None
      [\<lparr>gc_GroupID = [7], gc_IdCursor = 1\<rparr>, \<lparr>gc_GroupID = [8], gc_IdCursor = 2 ^ 63\<rparr>] 0 4 10 test_db =
      Inr (map group_message_proto rows) \<and>
    filter (\<lambda>r. gr_GroupID r = [7]) rows = [test_group_row 4 [7]] \<and>
    filter (\<lambda>r. gr_GroupID r = [8]) rows = []"
proof -
  let ?fs = "[\<lparr>gc_GroupID = [7], gc_IdCursor = 1\<rparr>, \<lparr>gc_GroupID = [8], gc_IdCursor = 2 ^ 63\<rparr>] :: GroupCatchup list"
  have "distinct (map gc_GroupID ?fs)" and "(4::u64) \<noteq> 0" by simp_all
  from QueryGroupMessagesWaveScan_exact [OF test_db_ok(1) this, of 0 10]
  obtain rows where rows: "QueryGroupMessagesWaveScan None ?fs 0 4 10 test_db = Inr (map group_message_proto rows)"
    and each: "\<And>f. f \<in> set ?fs \<Longrightarrow> filter (\<lambda>r. gr_GroupID r = gc_GroupID f) rows =
       take (nat 10) (filter (\<lambda>r. gr_GroupID r = gc_GroupID f \<and> uint (gc_IdCursor f) < gr_ID r \<and>
         uint (0::u64) < gr_ID r \<and> gr_ID r \<le> uint (4::u64)) (group_messages test_db))"
    by blast
  from each [of "hd ?fs"] each [of "last ?fs"] rows show ?thesis
    by (intro exI [of _ rows]) (simp add: test_db_defs)
qed

text \<open>
  The scan of a wave over installations does not lose track of rows it cannot convert: it
  returns the convertible rows of the window in ascending order, and per installation its raw
  progress counts every row that was scanned and names the id of the last one, so the caller's
  page accounting and next cursor do not depend on the rows of unknown type that were skipped.
\<close>

theorem QueryWelcomeMessagesWaveScan_progress:
  assumes ok: "log_ids_ok wr_ID (welcome_messages db) (welcome_messages_seq db)"
    and d: "distinct (map wc_InstallationKey filters)" and ne: "ceiling \<noteq> 0" and f: "f \<in> set filters"
    and page: "page = take (nat n) (filter (\<lambda>r. wr_InstallationKey r = wc_InstallationKey f \<and>
        uint (wc_IdCursor f) < wr_ID r \<and> uint scanCursor < wr_ID r \<and> wr_ID r \<le> uint ceiling)
        (welcome_messages db))"
  shows "\<exists>msgs progress. QueryWelcomeMessagesWaveScan None filters scanCursor ceiling n db = Inr (msgs, progress) \<and>
    filter (\<lambda>m. welcomeInstallationKey m = wc_InstallationKey f) msgs =
      List.map_filter welcome_message_proto page \<and>
    RawCount (progress (wc_InstallationKey f)) = int (length page) \<and>
    uint (LastRawID (progress (wc_InstallationKey f))) = (if page = [] then 0 else wr_ID (last page))"
proof -
  let ?fs = "map (\<lambda>f. (wc_InstallationKey f, clampCursor (wc_IdCursor f))) filters"
  let ?key = "wc_InstallationKey f"
  let ?rows = "lateral_scan wr_ID wr_InstallationKey (welcome_messages db) ?fs (clampCursor scanCursor)
    (clampCursor ceiling) n"
  have "distinct (map fst ?fs)" using d by (simp add: comp_def)
  then have "filter (\<lambda>r. wr_InstallationKey r = ?key) ?rows = take (nat n) (scan_window wr_ID wr_InstallationKey
        ?key (clampCursor (wc_IdCursor f)) (clampCursor scanCursor) (clampCursor ceiling) (welcome_messages db))"
    using f by (intro lateral_scan_topic [OF log_ids_okD(1) [OF ok]]) auto
  also have "\<dots> = page"
    unfolding page scan_window_def
    by (intro arg_cong [where f = "take (nat n)"] filter_cong refl scan_window_iff [OF ok])
  finally have mine: "filter (\<lambda>r. wr_InstallationKey r = ?key) ?rows = page" .
  have "filter (\<lambda>m. welcomeInstallationKey m = ?key) (List.map_filter welcome_message_proto rs) =
      List.map_filter welcome_message_proto (filter (\<lambda>r. wr_InstallationKey r = ?key) rs)" for rs
    by (induction rs) (auto simp: List.map_filter_simps dest!: welcome_message_proto_getters split: option.splits)
  moreover have "uint (go_uint64 (wr_ID (last page))) = wr_ID (last page)" if "page \<noteq> []"
  proof (rule log_ids_ok_uint [OF ok])
    have "set page \<subseteq> set (welcome_messages db)" using page by (auto dest!: in_set_takeD)
    then show "last page \<in> set (welcome_messages db)" using that last_in_set by blast
  qed
  moreover have "QueryWelcomeMessagesWaveScan None filters scanCursor ceiling n db =
      Inr (scan_welcome_rows ?rows [] zero_progress)"
    using ne f by (auto simp: QueryWelcomeMessagesWaveScan_def)
  ultimately show ?thesis
    by (auto simp: scan_welcome_rows_spec zero_progress_def mine)
qed

theorem QueryWelcomeMessagesWaveScan_progress_witness:
  "\<exists>msgs progress. QueryWelcomeMessagesWaveScan None [\<lparr>wc_InstallationKey = [9], wc_IdCursor = 0\<rparr>] 0 3 10 test_db =
      Inr (msgs, progress) \<and> RawCount (progress [9]) = 2 \<and> uint (LastRawID (progress [9])) = 3"
proof -
  let ?f = "\<lparr>wc_InstallationKey = [9], wc_IdCursor = 0\<rparr> :: WelcomeCatchup"
  have h: "distinct (map wc_InstallationKey [?f])" "(3::u64) \<noteq> 0" "?f \<in> set [?f]" by simp_all
  from QueryWelcomeMessagesWaveScan_progress [OF test_db_ok(2) h refl, of 0 10] show ?thesis
    by (auto simp: test_db_defs welcome_row_def)
qed

text \<open>
  The newest-message lookup answers positionally: the response has one entry per requested
  group, in the order of the request (duplicates included), and each entry is the row of that group
  with the largest id, or absent when the group has no messages; the metadata variant is its
  projection.
\<close>

theorem GetNewestGroupMessage_positional:
  assumes "log_ids_ok gr_ID (group_messages db) (group_messages_seq db)"
  shows "GetNewestGroupMessage_rs None groupIds db =
      Inr (map (\<lambda>g. newest gr_GroupID g (group_messages db)) groupIds) \<and>
    GetNewestGroupMessageMetadata_rs None groupIds db =
      Inr (map (\<lambda>g. map_option metadata_of (newest gr_GroupID g (group_messages db))) groupIds)"
proof -
  note asc = log_ids_okD(1) [OF assms]
  have "nm_GroupID (metadata_of r) = gr_GroupID r" for r by (simp add: metadata_of_def)
  then have fuse: "foldl (\<lambda>m r. m(nm_GroupID r \<mapsto> r)) Map.empty (map metadata_of rs) k =
      map_option metadata_of (foldl (\<lambda>m r. m(gr_GroupID r \<mapsto> r)) Map.empty rs k)" for rs k
    unfolding foldl_upd_lookup
    by (auto simp: filter_map comp_def last_map split: list.splits)
  show ?thesis
    by (simp add: GetNewestGroupMessage_rs_def GetNewestGroupMessageMetadata_rs_def
        GetNewestGroupMessageMetadata_def GetNewestGroupMessage_def newest_map_of [OF asc] fuse del: map_map)
qed

theorem GetNewestGroupMessage_positional_witness:
  "GetNewestGroupMessage_rs None [[7], [9], [7]] test_db =
     Inr [Some (test_group_row 4 [7]), None, Some (test_group_row 4 [7])]"
  using GetNewestGroupMessage_positional [OF test_db_ok(1), of "[[7], [9], [7]]"]
  by (simp add: newest_def test_db_defs)

text \<open>
  The paging queries convert the cursor with a plain \<open>int64\<close> cast: a cursor of \<open>2\<close>\<open>^\<close>\<open>63\<close> or more
  becomes negative and is treated as no cursor, so the request is answered from the start of the
  group although no stored id exceeds the cursor. The wave scans clamp the cursor instead.
\<close>

theorem QueryGroupMessagesV1_cursor_wraps:
  assumes "2 ^ 63 \<le> uint (pi_IdCursor p)"
  shows "QueryGroupMessagesV1 flt groupId (Some p) db =
      QueryGroupMessagesV1 flt groupId (Some (p\<lparr>pi_IdCursor := 0\<rparr>)) db \<and>
    clampCursor (pi_IdCursor p) = 2 ^ 63 - 1"
proof -
  have "go_int64 (pi_IdCursor p) < 0"
    using assms uint_lt2p [of "pi_IdCursor p"] by (simp add: go_int64_eq)
  then have "\<not> 0 < paging_idCursor (Some p)" by (auto simp: paging_idCursor_def)
  moreover have "\<not> 0 < paging_idCursor (Some (p\<lparr>pi_IdCursor := 0\<rparr>))" by (simp add: paging_idCursor_def)
  moreover have "paging_pageSize (Some (p\<lparr>pi_IdCursor := 0\<rparr>)) = paging_pageSize (Some p)"
    "paging_sortDesc (Some (p\<lparr>pi_IdCursor := 0\<rparr>)) = paging_sortDesc (Some p)"
    by (simp_all add: paging_pageSize_def paging_sortDesc_def)
  ultimately show ?thesis
    using assms by (simp add: QueryGroupMessagesV1_def Let_def clampCursor_eq maxInt64_def)
qed

theorem QueryGroupMessagesV1_cursor_wraps_witness:
  "QueryGroupMessagesV1 None [7] (Some \<lparr>pi_Direction = SORT_ASCENDING, pi_Limit = 0, pi_IdCursor = 2 ^ 63\<rparr>) test_db =
   QueryGroupMessagesV1 None [7] (Some \<lparr>pi_Direction = SORT_ASCENDING, pi_Limit = 0, pi_IdCursor = 0\<rparr>) test_db"
  using QueryGroupMessagesV1_cursor_wraps
    [of "\<lparr>pi_Direction = SORT_ASCENDING, pi_Limit = 0, pi_IdCursor = 2 ^ 63\<rparr>" None "[7]" test_db]
  by simp

end
