(* ===== verification/Store.thy ===== *)
theory Store
  imports Read_Store
begin

text \<open>
  The write side of the MLS store: pkg/mls/store/store.go and transactions.go, and the inbox
  queries of readStore.go. Hashing (\<open>crypto/sha256\<close>), protobuf (un)marshalling and the remote
  validation service are arguments. A transaction that does not commit leaves the tables as they
  were, but not the sequences: \<open>nextval\<close> is not rolled back.

  The lemmas show that every write keeps the database invariant \<open>db_ok\<close>, when an insert is a
  duplicate, that a failed transaction changes no table, that an identity update is validated
  against the whole log of its inbox before it is appended, and that a lookup of an address
  returns the inbox that associated it last. The last section is the concurrent model of
  \<open>PublishIdentityUpdate\<close> under repeatable-read isolation.
\<close>

section \<open>Error values\<close>

fun error_text :: "go_error \<Rightarrow> string" where
  "error_text (Status c s) = s"
| "error_text (Err s) = s"
| "error_text (AlreadyExistsError e) = error_text e"
| "error_text (Panic s) = s"

text \<open>\<open>strings.Contains\<close>.\<close>

definition Contains :: "string \<Rightarrow> string \<Rightarrow> bool" where
  "Contains s sub = list_ex (prefix sub) (suffixes s)"

fun IsAlreadyExistsError :: "go_error \<Rightarrow> bool" where
  "IsAlreadyExistsError (AlreadyExistsError e) = True"
| "IsAlreadyExistsError _ = False"

definition already_exists :: "go_error \<Rightarrow> go_error" where
  "already_exists e = (if Contains (error_text e) duplicate_key then AlreadyExistsError e else e)"

lemma Contains_iff: "Contains s sub \<longleftrightarrow> sublist sub s"
  by (auto simp: Contains_def list_ex_iff sublist_altdef')

lemma already_exists_unique_violation [simp]:
  "already_exists unique_violation = AlreadyExistsError unique_violation"
  by (simp add: already_exists_def unique_violation_def Contains_iff sublist_Cons_right)

section \<open>Inserts\<close>

text \<open>\<open>sha256\<close> is the hash; \<open>append(groupId, data...)\<close> is hashed, so the id and the data are not delimited.\<close>

definition Store_InsertGroupMessage ::
  "(bytes \<Rightarrow> bytes) \<Rightarrow> fault \<Rightarrow> int \<Rightarrow> bytes \<Rightarrow> bytes \<Rightarrow> bytes \<Rightarrow> bool \<Rightarrow> bool \<Rightarrow> mls_db \<Rightarrow>
     mls_db \<times> GroupMessageRow result" where
  "Store_InsertGroupMessage sha256 flt now groupId data senderHmac shouldPush isCommit db =
     (case InsertGroupMessage flt now groupId data (sha256 (groupId @ data)) senderHmac shouldPush isCommit db of
        (db', Inl e) \<Rightarrow> (db', Inl (already_exists e))
      | (db', Inr message) \<Rightarrow> (db', Inr message))"

definition Store_InsertWelcomeMessage ::
  "(bytes \<Rightarrow> bytes) \<Rightarrow> fault \<Rightarrow> int \<Rightarrow> bytes \<Rightarrow> bytes \<Rightarrow> bytes \<Rightarrow> WrapperAlgorithm \<Rightarrow> bytes \<Rightarrow> mls_db \<Rightarrow>
     mls_db \<times> WelcomeMessageRow result" where
  "Store_InsertWelcomeMessage sha256 flt now installationId data hpkePublicKey wrapperAlgorithm welcomeMetadata db =
     (case InsertWelcomeMessage flt now installationId data (sha256 (installationId @ data)) hpkePublicKey
             wrapperAlgorithm welcomeMetadata db of
        (db', Inl e) \<Rightarrow> (db', Inl (already_exists e))
      | (db', Inr message) \<Rightarrow> (db', Inr message))"

definition Store_InsertWelcomePointerMessage ::
  "(bytes \<Rightarrow> bytes) \<Rightarrow> fault \<Rightarrow> int \<Rightarrow> bytes \<Rightarrow> bytes \<Rightarrow> bytes \<Rightarrow> WrapperAlgorithm \<Rightarrow> mls_db \<Rightarrow>
     mls_db \<times> WelcomeMessageRow result" where
  "Store_InsertWelcomePointerMessage sha256 flt now installationKey welcomePointerData hpkePublicKey wrapperAlgorithm db =
     (if hpkePublicKey = [] then (db, Inl (Err ''hpke public key is required''))
      else
        case InsertWelcomePointerMessage flt now installationKey welcomePointerData
               (sha256 (installationKey @ welcomePointerData)) hpkePublicKey wrapperAlgorithm db of
          (db', Inl e) \<Rightarrow> (db', Inl (already_exists e))
        | (db', Inr message) \<Rightarrow> (db', Inr message))"

definition InsertCommitLog ::
  "fault \<Rightarrow> int \<Rightarrow> bytes \<Rightarrow> bytes \<Rightarrow> bytes \<Rightarrow> mls_db \<Rightarrow> mls_db \<times> CommitLogV2Row result" where
  "InsertCommitLog flt now groupId serialized_entry serialized_signature db =
     InsertCommitLogV2 flt now groupId serialized_entry serialized_signature db"

section \<open>Transactions: transactions.go\<close>

definition rollback :: "mls_db \<Rightarrow> mls_db \<Rightarrow> mls_db" where
  "rollback db db' =
     db\<lparr>key_packages_seq := key_packages_seq db', group_messages_seq := group_messages_seq db',
        welcome_messages_seq := welcome_messages_seq db', inbox_log_seq := inbox_log_seq db',
        commit_log_v2_seq := commit_log_v2_seq db'\<rparr>"

definition RunInTx ::
  "fault \<Rightarrow> fault \<Rightarrow> (mls_db \<Rightarrow> mls_db \<times> unit result) \<Rightarrow> mls_db \<Rightarrow> mls_db \<times> unit result" where
  "RunInTx begin_flt commit_flt fn db =
     (case begin_flt of
        Some e \<Rightarrow> (db, Inl e)
      | None \<Rightarrow>
          (case fn db of
             (db', Inl e) \<Rightarrow> (rollback db db', Inl e)
           | (db', Inr u) \<Rightarrow>
               (case commit_flt of
                  Some e \<Rightarrow> (rollback db db', Inl e)
                | None \<Rightarrow> (db', Inr u))))"

text \<open>
  \<open>RunInRepeatableReadTx\<close>: \<open>i\<close> counts the attempts, \<open>err\<close> is the error of the last one. Attempt
  \<open>i\<close> sees a cancelled context when \<open>ctx i\<close> is an error; a panic leaves the loop after the rollback.
\<close>

fun rr_loop ::
  "nat \<Rightarrow> (nat \<Rightarrow> fault) \<Rightarrow> (nat \<Rightarrow> fault) \<Rightarrow> (nat \<Rightarrow> fault) \<Rightarrow> (nat \<Rightarrow> mls_db \<Rightarrow> mls_db \<times> unit result) \<Rightarrow>
     nat \<Rightarrow> fault \<Rightarrow> mls_db \<Rightarrow> mls_db \<times> unit result" where
  "rr_loop 0 ctx bf cf fn i err db = (db, (case err of None \<Rightarrow> Inr () | Some e \<Rightarrow> Inl e))"
| "rr_loop (Suc n) ctx bf cf fn i err db =
     (case ctx i of
        Some e \<Rightarrow> (db, Inl e)
      | None \<Rightarrow>
          (case RunInTx (bf i) (cf i) (fn i) db of
             (db', Inr u) \<Rightarrow> (db', Inr u)
           | (db', Inl (Panic s)) \<Rightarrow> (db', Inl (Panic s))
           | (db', Inl e) \<Rightarrow> rr_loop n ctx bf cf fn (Suc i) (Some e) db'))"

definition RunInRepeatableReadTx ::
  "nat \<Rightarrow> (nat \<Rightarrow> fault) \<Rightarrow> (nat \<Rightarrow> fault) \<Rightarrow> (nat \<Rightarrow> fault) \<Rightarrow> (nat \<Rightarrow> mls_db \<Rightarrow> mls_db \<times> unit result) \<Rightarrow>
     mls_db \<Rightarrow> mls_db \<times> unit result" where
  "RunInRepeatableReadTx numRetries ctx bf cf fn db = rr_loop numRetries ctx bf cf fn 0 None db"

definition installation_tx :: "fault \<Rightarrow> fault \<Rightarrow> int \<Rightarrow> bytes \<Rightarrow> bytes \<Rightarrow> mls_db \<Rightarrow> mls_db \<times> unit result" where
  "installation_tx f1 f2 now installationId keyPackage db =
     (case CreateOrUpdateInstallation_q f1 installationId now now keyPackage (Some True) db of
        (db', Inl e) \<Rightarrow> (db', Inl e)
      | (db', Inr _) \<Rightarrow> InsertKeyPackage f2 installationId keyPackage now db')"

definition CreateOrUpdateInstallation ::
  "fault \<Rightarrow> fault \<Rightarrow> fault \<Rightarrow> fault \<Rightarrow> int \<Rightarrow> bytes \<Rightarrow> bytes \<Rightarrow> mls_db \<Rightarrow> mls_db \<times> unit result" where
  "CreateOrUpdateInstallation bf cf f1 f2 now installationId keyPackage db =
     RunInTx bf cf (installation_tx f1 f2 now installationId keyPackage) db"

section \<open>Identity updates\<close>

text \<open>
  The parts of the identity protobufs the store reads: a member identifier (only an Ethereum
  address is logged) and the state difference the validation service computes. \<open>None\<close> is a
  response without a difference, which the code dereferences.
\<close>

datatype MemberIdentifier = EthereumAddress string | OtherMember bytes

record AssociationStateDiff =
  NewMembers :: "MemberIdentifier list"
  RemovedMembers :: "MemberIdentifier list"

text \<open>The codec of identity updates and the validation service: code outside the repository.\<close>

record 'u identity_env =
  unmarshal_update :: "bytes \<Rightarrow> 'u result"
  marshal_update :: "'u \<Rightarrow> bytes result"
  update_inbox :: "'u \<Rightarrow> string"
  association_state :: "'u list \<Rightarrow> 'u list \<Rightarrow> AssociationStateDiff option result"

record publish_faults =
  pf_lock :: fault
  pf_logs :: fault
  pf_insert :: fault
  pf_add :: "string \<Rightarrow> fault"
  pf_revoke :: "string \<Rightarrow> fault"
  pf_touch :: fault

definition no_publish_faults :: publish_faults where
  "no_publish_faults = \<lparr>pf_lock = None, pf_logs = None, pf_insert = None, pf_add = (\<lambda>_. None),
     pf_revoke = (\<lambda>_. None), pf_touch = None\<rparr>"

fun unmarshal_all :: "(bytes \<Rightarrow> 'u result) \<Rightarrow> InboxLogRow list \<Rightarrow> 'u list result" where
  "unmarshal_all unmarshal [] = Inr []"
| "unmarshal_all unmarshal (r # rs) =
     (case unmarshal (il_IdentityUpdateProto r) of
        Inl e \<Rightarrow> Inl e
      | Inr u \<Rightarrow> (case unmarshal_all unmarshal rs of Inl e \<Rightarrow> Inl e | Inr us \<Rightarrow> Inr (u # us)))"

fun add_members ::
  "(string \<Rightarrow> fault) \<Rightarrow> string \<Rightarrow> int \<Rightarrow> MemberIdentifier list \<Rightarrow> mls_db \<Rightarrow> mls_db \<times> unit result" where
  "add_members flt inboxId sequence_id [] db = (db, Inr ())"
| "add_members flt inboxId sequence_id (EthereumAddress a # ms) db =
     (case InsertAddressLog (flt a) a inboxId (Some sequence_id) None db of
        (db', Inl e) \<Rightarrow> (db', Inl e)
      | (db', Inr _) \<Rightarrow> add_members flt inboxId sequence_id ms db')"
| "add_members flt inboxId sequence_id (OtherMember _ # ms) db = add_members flt inboxId sequence_id ms db"

fun revoke_members ::
  "(string \<Rightarrow> fault) \<Rightarrow> string \<Rightarrow> int \<Rightarrow> MemberIdentifier list \<Rightarrow> mls_db \<Rightarrow> mls_db \<times> unit result" where
  "revoke_members flt inboxId sequence_id [] db = (db, Inr ())"
| "revoke_members flt inboxId sequence_id (EthereumAddress a # ms) db =
     (case RevokeAddressFromLog (flt a) (Some sequence_id) a inboxId db of
        (db', Inl e) \<Rightarrow> (db', Inl e)
      | (db', Inr _) \<Rightarrow> revoke_members flt inboxId sequence_id ms db')"
| "revoke_members flt inboxId sequence_id (OtherMember _ # ms) db = revoke_members flt inboxId sequence_id ms db"

definition write_update ::
  "'u identity_env \<Rightarrow> publish_faults \<Rightarrow> int \<Rightarrow> 'u \<Rightarrow> AssociationStateDiff option \<Rightarrow> mls_db \<Rightarrow> mls_db \<times> unit result" where
  "write_update E F now newUpdate diff db =
     (case marshal_update E newUpdate of
        Inl e \<Rightarrow> (db, Inl e)
      | Inr protoBytes \<Rightarrow>
          (case InsertInboxLog (pf_insert F) (update_inbox E newUpdate) now protoBytes db of
             (db1, Inl e) \<Rightarrow> (db1, Inl e)
           | (db1, Inr row) \<Rightarrow>
               (case diff of
                  None \<Rightarrow> (db1, Inl (Panic ''nil pointer dereference''))
                | Some d \<Rightarrow>
                    (case add_members (pf_add F) (update_inbox E newUpdate) (il_SequenceID row) (NewMembers d) db1 of
                       (db2, Inl e) \<Rightarrow> (db2, Inl e)
                     | (db2, Inr _) \<Rightarrow>
                         (case revoke_members (pf_revoke F) (update_inbox E newUpdate) (il_SequenceID row)
                                 (RemovedMembers d) db2 of
                            (db3, Inl e) \<Rightarrow> (db3, Inl e)
                          | (db3, Inr _) \<Rightarrow> TouchInbox (pf_touch F) now (update_inbox E newUpdate) db3)))))"

definition publish_tx ::
  "'u identity_env \<Rightarrow> publish_faults \<Rightarrow> int \<Rightarrow> 'u \<Rightarrow> mls_db \<Rightarrow> mls_db \<times> unit result" where
  "publish_tx E F now newUpdate db =
     (case LockInboxLog (pf_lock F) (update_inbox E newUpdate) db of
        Inl e \<Rightarrow> (db, Inl e)
      | Inr _ \<Rightarrow>
          (case GetAllInboxLogs (pf_logs F) (update_inbox E newUpdate) db of
             Inl e \<Rightarrow> (db, Inl e)
           | Inr inboxLogEntries \<Rightarrow>
               if 256 \<le> length inboxLogEntries then (db, Inl (Err ''inbox log is full''))
               else
                 (case unmarshal_all (unmarshal_update E) inboxLogEntries of
                    Inl e \<Rightarrow> (db, Inl e)
                  | Inr updates \<Rightarrow>
                      (case association_state E updates [newUpdate] of
                         Inl e \<Rightarrow> (db, Inl e)
                       | Inr diff \<Rightarrow> write_update E F now newUpdate diff db))))"

text \<open>\<open>now i\<close> is the clock at attempt \<open>i\<close>; \<open>None\<close> is a request without an update.\<close>

definition PublishIdentityUpdate ::
  "'u identity_env \<Rightarrow> (nat \<Rightarrow> fault) \<Rightarrow> (nat \<Rightarrow> fault) \<Rightarrow> (nat \<Rightarrow> fault) \<Rightarrow> (nat \<Rightarrow> publish_faults) \<Rightarrow>
     (nat \<Rightarrow> int) \<Rightarrow> 'u option \<Rightarrow> mls_db \<Rightarrow> mls_db \<times> unit result" where
  "PublishIdentityUpdate E ctx bf cf F now req db =
     (case req of
        None \<Rightarrow> (db, Inl (Err ''IdentityUpdate is required''))
      | Some newUpdate \<Rightarrow>
          RunInRepeatableReadTx 3 ctx bf cf (\<lambda>i. publish_tx E (F i) (now i) newUpdate) db)"

section \<open>Inbox reads: readStore.go\<close>

text \<open>
  The last matching log entry wins. A column of the result is \<open>None\<close> when no entry matched.
\<close>

definition GetInboxIds :: "fault \<Rightarrow> string list \<Rightarrow> mls_db \<Rightarrow> (string \<times> string option) list result" where
  "GetInboxIds flt identifiers db =
     (case GetAddressLogs flt identifiers db of
        Inl e \<Rightarrow> Inl e
      | Inr addressLogEntries \<Rightarrow>
          Inr (map (\<lambda>identifier. (identifier,
                 foldl (\<lambda>resp (address, inboxId, _). if address = identifier then Some inboxId else resp)
                   None addressLogEntries)) identifiers))"

record 'u IdentityUpdateLog =
  iu_SequenceId :: u64
  iu_ServerTimestampNs :: u64
  iu_Update :: 'u

fun inbox_updates :: "(bytes \<Rightarrow> 'u result) \<Rightarrow> InboxLogRow list \<Rightarrow> 'u IdentityUpdateLog list result" where
  "inbox_updates unmarshal [] = Inr []"
| "inbox_updates unmarshal (r # rs) =
     (case unmarshal (il_IdentityUpdateProto r) of
        Inl e \<Rightarrow> Inl e
      | Inr u \<Rightarrow>
          (case inbox_updates unmarshal rs of
             Inl e \<Rightarrow> Inl e
           | Inr us \<Rightarrow> Inr (\<lparr>iu_SequenceId = go_uint64 (il_SequenceID r),
               iu_ServerTimestampNs = go_uint64 (il_ServerTimestampNs r), iu_Update = u\<rparr> # us)))"

fun inbox_responses ::
  "(bytes \<Rightarrow> 'u result) \<Rightarrow> InboxLogRow list \<Rightarrow> (string \<times> u64) list \<Rightarrow>
     (string \<times> 'u IdentityUpdateLog list) list result" where
  "inbox_responses unmarshal results [] = Inr []"
| "inbox_responses unmarshal results ((inboxId, _) # reqs) =
     (case inbox_updates unmarshal (filter (\<lambda>r. hex_encode (il_InboxID r) = inboxId) results) of
        Inl e \<Rightarrow> Inl e
      | Inr updates \<Rightarrow>
          (case inbox_responses unmarshal results reqs of
             Inl e \<Rightarrow> Inl e
           | Inr resps \<Rightarrow> Inr ((inboxId, updates) # resps)))"

definition GetInboxLogs ::
  "(bytes \<Rightarrow> 'u result) \<Rightarrow> fault \<Rightarrow> (string \<times> u64) list \<Rightarrow> mls_db \<Rightarrow>
     (string \<times> 'u IdentityUpdateLog list) list result" where
  "GetInboxLogs unmarshal flt reqs db =
     (case GetInboxLogFiltered flt (map (\<lambda>(i, q). (i, go_int64 q)) reqs) db of
        Inl e \<Rightarrow> Inl e
      | Inr results \<Rightarrow> inbox_responses unmarshal results reqs)"

section \<open>The database invariant\<close>

definition groups_ok :: "mls_db \<Rightarrow> bool" where
  "groups_ok db \<longleftrightarrow> log_ok gr_ID (group_messages db) (group_messages_seq db) \<and>
     distinct (map gr_GroupIDDataHash (group_messages db))"

definition welcomes_ok :: "mls_db \<Rightarrow> bool" where
  "welcomes_ok db \<longleftrightarrow> log_ok wr_ID (welcome_messages db) (welcome_messages_seq db) \<and>
     distinct (map wr_InstallationKeyDataHash (welcome_messages db)) \<and>
     (\<forall>r \<in> set (welcome_messages db). wr_MessageType r \<in> {0, 1})"

definition installs_ok :: "mls_db \<Rightarrow> bool" where
  "installs_ok db \<longleftrightarrow> distinct (map in_ID (installations db)) \<and>
     log_ok kp_SequenceID (key_packages db) (key_packages_seq db) \<and>
     distinct (map (\<lambda>r. (kp_InstallationID r, kp_KeyPackage r)) (key_packages db))"

definition identity_ok :: "mls_db \<Rightarrow> bool" where
  "identity_ok db \<longleftrightarrow> log_ok il_SequenceID (inbox_log db) (inbox_log_seq db) \<and>
     distinct (map ib_ID (inboxes db)) \<and>
     (\<forall>a \<in> set (address_log db). \<exists>q. al_AssociationSequenceID a = Some q \<and> q < inbox_log_seq db)"

definition commits_ok :: "mls_db \<Rightarrow> bool" where
  "commits_ok db \<longleftrightarrow> log_ok cl_ID (commit_log_v2 db) (commit_log_v2_seq db)"

definition db_ok :: "mls_db \<Rightarrow> bool" where
  "db_ok db \<longleftrightarrow> groups_ok db \<and> welcomes_ok db \<and> installs_ok db \<and> identity_ok db \<and> commits_ok db"

lemmas part_defs = groups_ok_def welcomes_ok_def installs_ok_def identity_ok_def commits_ok_def

lemma db_ok_empty: "db_ok empty_db"
  by (simp add: db_ok_def part_defs log_ok_def empty_db_def)

lemma log_ok_app:
  "log_ok k rows n \<Longrightarrow> k r = n \<Longrightarrow> log_ok k (rows @ [r]) (n + 1)"
  by (force simp: log_ok_def)

lemma log_ok_mono: "log_ok k rows n \<Longrightarrow> n \<le> m \<Longrightarrow> log_ok k rows m"
  by (force simp: log_ok_def)

lemma log_ok_map:
  "(\<And>r. k (f r) = k r) \<Longrightarrow> log_ok k (map f rows) n \<longleftrightarrow> log_ok k rows n"
  by (simp add: log_ok_def ascending_map)

text \<open>Each group of tables has its own writers; a writer leaves the other groups alone.\<close>

lemma InsertGroupMessage_ok:
  "db_ok db \<Longrightarrow> db_ok (fst (InsertGroupMessage flt now g d h hm sp ic db))"
  by (cases flt) (auto simp: InsertGroupMessage_def Let_def db_ok_def part_defs image_iff
      intro: log_ok_app log_ok_mono)

lemma insert_welcome_row_ok:
  "db_ok db \<Longrightarrow> t \<in> {0, 1} \<Longrightarrow> db_ok (fst (insert_welcome_row now k d h p a m t db))"
  by (auto simp: insert_welcome_row_def welcome_row_def Let_def db_ok_def part_defs
      image_iff intro: log_ok_app log_ok_mono)

lemma InsertWelcomeMessage_ok:
  "db_ok db \<Longrightarrow> db_ok (fst (InsertWelcomeMessage flt now k d h p a m db))"
  by (cases flt) (simp_all add: InsertWelcomeMessage_def insert_welcome_row_ok)

lemma InsertWelcomePointerMessage_ok:
  "db_ok db \<Longrightarrow> db_ok (fst (InsertWelcomePointerMessage flt now k d h p a db))"
  by (cases flt) (simp_all add: InsertWelcomePointerMessage_def insert_welcome_row_ok)

lemma InsertCommitLogV2_ok: "db_ok db \<Longrightarrow> db_ok (fst (InsertCommitLogV2 flt now g e s db))"
  by (cases flt) (auto simp: InsertCommitLogV2_def Let_def db_ok_def part_defs intro: log_ok_app)

lemma CreateOrUpdateInstallation_q_ok:
  "db_ok db \<Longrightarrow> db_ok (fst (CreateOrUpdateInstallation_q flt i c u k a db))"
  by (cases flt) (auto simp: CreateOrUpdateInstallation_q_def db_ok_def part_defs)

lemma InsertKeyPackage_ok: "db_ok db \<Longrightarrow> db_ok (fst (InsertKeyPackage flt i k c db))"
  by (cases flt) (auto simp: InsertKeyPackage_def Let_def db_ok_def part_defs
      intro: log_ok_app log_ok_mono)

lemma InsertInboxLog_ok: "db_ok db \<Longrightarrow> db_ok (fst (InsertInboxLog flt i ts p db))"
  by (cases flt) (force simp: InsertInboxLog_def Let_def db_ok_def part_defs intro: log_ok_app
      split: sum.splits)+

lemma InsertAddressLog_ok:
  "db_ok db \<Longrightarrow> q < inbox_log_seq db \<Longrightarrow> db_ok (fst (InsertAddressLog flt a i (Some q) r db))"
  by (cases flt) (auto simp: InsertAddressLog_def Let_def db_ok_def part_defs split: sum.splits)

lemma RevokeAddressFromLog_ok: "db_ok db \<Longrightarrow> db_ok (fst (RevokeAddressFromLog flt q a i db))"
  by (cases flt) (auto simp: RevokeAddressFromLog_def Let_def db_ok_def part_defs split: sum.splits)

lemma TouchInbox_ok: "db_ok db \<Longrightarrow> db_ok (fst (TouchInbox flt now i db))"
  by (cases flt) (auto simp: TouchInbox_def db_ok_def part_defs split: sum.splits)

lemmas write_ok = InsertGroupMessage_ok InsertWelcomeMessage_ok InsertWelcomePointerMessage_ok
  InsertCommitLogV2_ok CreateOrUpdateInstallation_q_ok InsertKeyPackage_ok InsertInboxLog_ok
  InsertAddressLog_ok RevokeAddressFromLog_ok TouchInbox_ok

subsection \<open>Transactions keep it\<close>

definition seqs_le :: "mls_db \<Rightarrow> mls_db \<Rightarrow> bool" where
  "seqs_le db db' \<longleftrightarrow> key_packages_seq db \<le> key_packages_seq db' \<and>
     group_messages_seq db \<le> group_messages_seq db' \<and>
     welcome_messages_seq db \<le> welcome_messages_seq db' \<and> inbox_log_seq db \<le> inbox_log_seq db' \<and>
     commit_log_v2_seq db \<le> commit_log_v2_seq db'"

lemma seqs_le_refl [simp]: "seqs_le db db"
  by (simp add: seqs_le_def)

lemma seqs_le_trans: "seqs_le a b \<Longrightarrow> seqs_le b c \<Longrightarrow> seqs_le a c"
  by (auto simp: seqs_le_def)

lemma rollback_ok: "db_ok db \<Longrightarrow> seqs_le db db' \<Longrightarrow> db_ok (rollback db db')"
  by (fastforce simp: db_ok_def part_defs rollback_def seqs_le_def intro: log_ok_mono)

lemma rollback_seqs: "seqs_le db db' \<Longrightarrow> seqs_le db (rollback db db')"
  by (simp add: seqs_le_def rollback_def)

lemma rollback_self [simp]: "rollback db db = db"
  by (simp add: rollback_def)

text \<open>The tables of two databases agree; the sequences may differ.\<close>

definition same_tables :: "mls_db \<Rightarrow> mls_db \<Rightarrow> bool" where
  "same_tables db db' \<longleftrightarrow> installations db' = installations db \<and> key_packages db' = key_packages db \<and>
     group_messages db' = group_messages db \<and> welcome_messages db' = welcome_messages db \<and>
     inbox_log db' = inbox_log db \<and> address_log db' = address_log db \<and> inboxes db' = inboxes db \<and>
     commit_log_v2 db' = commit_log_v2 db"

lemma same_tables_refl [simp]: "same_tables db db"
  by (simp add: same_tables_def)

lemma same_tables_trans: "same_tables a b \<Longrightarrow> same_tables b c \<Longrightarrow> same_tables a c"
  by (simp add: same_tables_def)

lemma same_tables_rollback [simp]: "same_tables db (rollback db db')"
  by (simp add: same_tables_def rollback_def)

text \<open>
  The contract of a transaction body: it keeps the invariant and draws from the sequences. A
  client of the transaction runner gets the invariant back, whatever happens to the transaction.
\<close>

locale tx_body =
  fixes fn :: "mls_db \<Rightarrow> mls_db \<times> unit result"
  assumes body_ok: "db_ok db \<Longrightarrow> db_ok (fst (fn db))"
    and body_seqs: "seqs_le db (fst (fn db))"
begin

lemma RunInTx_ok: "db_ok db \<Longrightarrow> db_ok (fst (RunInTx bf cf fn db))"
  using body_ok [of db] body_seqs [of db]
  by (auto simp: RunInTx_def rollback_ok split: option.splits prod.splits sum.splits)

lemma RunInTx_seqs: "seqs_le db (fst (RunInTx bf cf fn db))"
  using body_seqs [of db]
  by (auto simp: RunInTx_def rollback_seqs split: option.splits prod.splits sum.splits)

lemma RunInTx_error: "RunInTx bf cf fn db = (db', Inl e) \<Longrightarrow> same_tables db db'"
  by (auto simp: RunInTx_def split: option.splits prod.splits sum.splits)

lemma RunInTx_success: "RunInTx bf cf fn db = (db', Inr ()) \<Longrightarrow> fn db = (db', Inr ())"
  by (auto simp: RunInTx_def split: option.splits prod.splits sum.splits)

end

text \<open>The same for the retry loop, whose body may differ from attempt to attempt.\<close>

locale rr_body =
  fixes fn :: "nat \<Rightarrow> mls_db \<Rightarrow> mls_db \<times> unit result"
  assumes attempt: "tx_body (fn i)"
begin

lemma rr_loop_ok: "db_ok db \<Longrightarrow> db_ok (fst (rr_loop n ctx bf cf fn i err db))"
proof (induction n arbitrary: i err db)
  case (Suc n)
  have "db_ok (fst (RunInTx (bf i) (cf i) (fn i) db))"
    using tx_body.RunInTx_ok [OF attempt Suc.prems] .
  with Suc show ?case
    by (auto split: option.splits prod.splits sum.splits go_error.splits)
qed simp

lemma rr_loop_error:
  "rr_loop n ctx bf cf fn i err db = (db', Inl e) \<Longrightarrow> same_tables db db'"
proof (induction n arbitrary: i err db)
  case (Suc n)
  then show ?case
    using tx_body.RunInTx_error [OF attempt, of "bf i" "cf i" i db]
    by (fastforce intro: same_tables_trans split: option.splits prod.splits sum.splits go_error.splits)
qed simp

text \<open>A success comes from one attempt that ran to its commit on tables nobody else changed.\<close>

lemma rr_loop_success:
  "rr_loop n ctx bf cf fn i err db = (db', Inr ()) \<Longrightarrow> n = 0 \<and> err = None \<and> db' = db \<or>
     (\<exists>j db1. same_tables db db1 \<and> seqs_le db db1 \<and> fn j db1 = (db', Inr ()))"
proof (induction n arbitrary: i err db)
  case 0
  then show ?case by (auto split: option.splits)
next
  case (Suc n)
  show ?case
  proof (cases "RunInTx (bf i) (cf i) (fn i) db")
    case (Pair db1 r)
    show ?thesis
    proof (cases r)
      case (Inr u)
      then have "fn i db = (db', Inr ())"
        using Suc.prems Pair tx_body.RunInTx_success [OF attempt, of "bf i" "cf i" i db db']
        by (auto split: option.splits)
      then show ?thesis by (intro disjI2 exI [of _ i] exI [of _ db]) simp
    next
      case (Inl e)
      then have same: "same_tables db db1" and le: "seqs_le db db1"
        using Pair tx_body.RunInTx_error [OF attempt, of "bf i" "cf i" i db db1 e]
          tx_body.RunInTx_seqs [OF attempt, of db "bf i" "cf i" i] by simp_all
      from Suc.prems Pair Inl have "rr_loop n ctx bf cf fn (Suc i) (Some e) db1 = (db', Inr ())"
        by (auto split: option.splits go_error.splits)
      from Suc.IH [OF this] same le show ?thesis
        by (blast intro: same_tables_trans seqs_le_trans)
    qed
  qed
qed

end

lemma write_seqs:
  "seqs_le db (fst (InsertGroupMessage flt now g d h hm sp ic db))"
  "seqs_le db (fst (CreateOrUpdateInstallation_q flt i c u k a db))"
  "seqs_le db (fst (InsertKeyPackage flt i k c db))"
  "seqs_le db (fst (InsertInboxLog flt j ts p db))"
  "seqs_le db (fst (InsertAddressLog flt ad j as rv db))"
  "seqs_le db (fst (RevokeAddressFromLog flt rv ad j db))"
  "seqs_le db (fst (TouchInbox flt now j db))"
  by (cases flt; auto simp: InsertGroupMessage_def CreateOrUpdateInstallation_q_def InsertKeyPackage_def
      InsertInboxLog_def InsertAddressLog_def RevokeAddressFromLog_def TouchInbox_def seqs_le_def
      Let_def split: sum.splits)+

interpretation install: tx_body "installation_tx f1 f2 now i k"
proof
  fix db
  let ?x = "CreateOrUpdateInstallation_q f1 i now now k (Some True) db"
  show "db_ok db \<Longrightarrow> db_ok (fst (installation_tx f1 f2 now i k db))"
    using write_ok(5) [of db f1 i now now k "Some True"] write_ok(6) [of "fst ?x" f2 i k now]
    by (auto simp: installation_tx_def split: prod.splits sum.splits)
  show "seqs_le db (fst (installation_tx f1 f2 now i k db))"
    using write_seqs(2) [of db f1 i now now k "Some True"] write_seqs(3) [of "fst ?x" f2 i k now]
    by (auto simp: installation_tx_def intro: seqs_le_trans split: prod.splits sum.splits)
qed

subsection \<open>What an identity update writes\<close>

fun eth_addresses :: "MemberIdentifier list \<Rightarrow> string list" where
  "eth_addresses [] = []"
| "eth_addresses (EthereumAddress a # ms) = a # eth_addresses ms"
| "eth_addresses (OtherMember _ # ms) = eth_addresses ms"

definition assoc_row :: "bytes \<Rightarrow> int \<Rightarrow> string \<Rightarrow> AddressLogRow" where
  "assoc_row inbox q a = \<lparr>al_Address = a, al_InboxID = inbox, al_AssociationSequenceID = Some q,
     al_RevocationSequenceID = None\<rparr>"

text \<open>The rows \<open>RevokeAddressFromLog\<close> updates: the latest association of the address in the inbox.\<close>

definition revoke_row :: "bytes \<Rightarrow> int \<Rightarrow> string \<Rightarrow> AddressLogRow list \<Rightarrow> AddressLogRow list" where
  "revoke_row inbox q a rows =
     (let m = sql_max (map al_AssociationSequenceID (filter (\<lambda>r. al_Address r = a \<and> al_InboxID r = inbox) rows))
      in map (\<lambda>r. if al_Address r = a \<and> al_InboxID r = inbox \<and> m \<noteq> None \<and> al_AssociationSequenceID r = m
           then r\<lparr>al_RevocationSequenceID := Some q\<rparr> else r) rows)"

lemma InsertAddressLog_eq:
  "pg_decode_hex i = Inr b \<Longrightarrow> InsertAddressLog flt a i (Some q) None db =
     (case flt of Some e \<Rightarrow> (db, Inl e)
      | None \<Rightarrow> (db\<lparr>address_log := address_log db @ [assoc_row b q a]\<rparr>, Inr (assoc_row b q a)))"
  by (cases flt) (simp_all add: InsertAddressLog_def assoc_row_def Let_def)

lemma RevokeAddressFromLog_eq:
  "pg_decode_hex i = Inr b \<Longrightarrow> RevokeAddressFromLog flt (Some q) a i db =
     (case flt of Some e \<Rightarrow> (db, Inl e)
      | None \<Rightarrow> (db\<lparr>address_log := revoke_row b q a (address_log db)\<rparr>, Inr ()))"
  by (cases flt) (simp_all add: RevokeAddressFromLog_def revoke_row_def Let_def)

lemma add_members_success:
  "pg_decode_hex i = Inr b \<Longrightarrow> add_members flt i q ms db = (db', Inr ()) \<Longrightarrow>
     db' = db\<lparr>address_log := address_log db @ map (assoc_row b q) (eth_addresses ms)\<rparr>"
  by (induction flt i q ms db rule: add_members.induct)
    (auto simp: InsertAddressLog_eq split: option.splits)

lemma revoke_members_success:
  "pg_decode_hex i = Inr b \<Longrightarrow> revoke_members flt i q ms db = (db', Inr ()) \<Longrightarrow>
     db' = db\<lparr>address_log := fold (revoke_row b q) (eth_addresses ms) (address_log db)\<rparr>"
  by (induction flt i q ms db rule: revoke_members.induct)
    (auto simp: RevokeAddressFromLog_eq split: option.splits)

lemma add_members_ok:
  "db_ok db \<Longrightarrow> q < inbox_log_seq db \<Longrightarrow> db_ok (fst (add_members flt i q ms db))"
proof (induction flt i q ms db rule: add_members.induct)
  case (2 flt i q a ms db)
  let ?x = "InsertAddressLog (flt a) a i (Some q) None db"
  have "inbox_log_seq (fst ?x) = inbox_log_seq db"
    by (cases "flt a") (auto simp: InsertAddressLog_def Let_def split: sum.splits)
  with 2 write_ok(8) [of db q "flt a" a i None] show ?case
    by (auto split: prod.splits sum.splits)
qed auto

lemma add_members_seqs: "seqs_le db (fst (add_members flt i q ms db))"
proof (induction flt i q ms db rule: add_members.induct)
  case (2 flt i q a ms db)
  then show ?case
    using write_seqs(5) [of db "flt a" a i "Some q" None]
    by (auto intro: seqs_le_trans split: prod.splits sum.splits)
qed auto

lemma revoke_members_ok:
  "(db_ok db \<longrightarrow> db_ok (fst (revoke_members flt i q ms db))) \<and> seqs_le db (fst (revoke_members flt i q ms db))"
proof (induction flt i q ms db rule: revoke_members.induct)
  case (2 flt i q a ms db)
  then show ?case
    using write_ok(9) [of db "flt a" "Some q" a i] write_seqs(6) [of db "flt a" "Some q" a i]
    by (auto intro: seqs_le_trans split: prod.splits sum.splits)
qed auto

lemma write_update_ok:
  "(db_ok db \<longrightarrow> db_ok (fst (write_update E F now u diff db))) \<and> seqs_le db (fst (write_update E F now u diff db))"
proof (cases "marshal_update E u")
  case (Inr p)
  obtain db1 x where x: "InsertInboxLog (pf_insert F) (update_inbox E u) now p db = (db1, x)"
    by (cases "InsertInboxLog (pf_insert F) (update_inbox E u) now p db")
  have 1: "db_ok db \<longrightarrow> db_ok db1" "seqs_le db db1"
    using write_ok(7) [of db "pf_insert F" "update_inbox E u" now p]
      write_seqs(4) [of db "pf_insert F" "update_inbox E u" now p] x by auto
  show ?thesis
  proof (cases x)
    case row: (Inr row)
    have q: "il_SequenceID row < inbox_log_seq db1"
      using ilog.ins_Inr [of "(pf_insert F, update_inbox E u, now, p)" db db1 row] x row by simp
    show ?thesis
    proof (cases diff)
      case (Some d)
      obtain db2 y where y: "add_members (pf_add F) (update_inbox E u) (il_SequenceID row) (NewMembers d) db1 = (db2, y)"
        by (cases "add_members (pf_add F) (update_inbox E u) (il_SequenceID row) (NewMembers d) db1")
      obtain db3 z where z: "revoke_members (pf_revoke F) (update_inbox E u) (il_SequenceID row) (RemovedMembers d) db2 = (db3, z)"
        by (cases "revoke_members (pf_revoke F) (update_inbox E u) (il_SequenceID row) (RemovedMembers d) db2")
      have 2: "db_ok db \<longrightarrow> db_ok db2" "seqs_le db1 db2"
        using add_members_ok [of db1 "il_SequenceID row" "pf_add F" "update_inbox E u" "NewMembers d"]
          add_members_seqs [of db1 "pf_add F" "update_inbox E u" "il_SequenceID row" "NewMembers d"]
          q y 1 by auto
      have 3: "db_ok db \<longrightarrow> db_ok db3" "seqs_le db2 db3"
        using revoke_members_ok [of db2 "pf_revoke F" "update_inbox E u" "il_SequenceID row" "RemovedMembers d"]
          z 2 by auto
      have 4: "db_ok db \<longrightarrow> db_ok (fst (TouchInbox (pf_touch F) now (update_inbox E u) db3))"
        "seqs_le db3 (fst (TouchInbox (pf_touch F) now (update_inbox E u) db3))"
        using 3 write_ok(10) write_seqs(7) by auto
      have "seqs_le db db2" "seqs_le db db3" "seqs_le db (fst (TouchInbox (pf_touch F) now (update_inbox E u) db3))"
        using 1 2 3 4 by (meson seqs_le_trans)+
      then show ?thesis
        using Inr x row Some y z 2 3 4
        by (auto simp: write_update_def split: sum.splits)
    qed (use Inr x row 1 in \<open>simp add: write_update_def\<close>)
  qed (use Inr x 1 in \<open>simp add: write_update_def\<close>)
qed (simp add: write_update_def)

interpretation publish: tx_body "publish_tx E F now u"
proof
  fix db
  show "db_ok db \<Longrightarrow> db_ok (fst (publish_tx E F now u db))"
    using write_update_ok [of db E F now u]
    by (auto simp: publish_tx_def split: sum.splits)
  show "seqs_le db (fst (publish_tx E F now u db))"
    using write_update_ok [of db E F now u]
    by (auto simp: publish_tx_def split: sum.splits)
qed

interpretation publish_rr: rr_body "\<lambda>i. publish_tx E (F i) (now i) u"
  by unfold_locales

text \<open>The log of one inbox, in the order its updates were committed.\<close>

definition inbox_rows :: "bytes \<Rightarrow> mls_db \<Rightarrow> InboxLogRow list" where
  "inbox_rows b db = filter (\<lambda>r. il_InboxID r = b) (inbox_log db)"

text \<open>\<open>validated E rows u p d\<close>: the service accepted \<open>u\<close> on top of \<open>rows\<close> with difference \<open>d\<close>, and \<open>p\<close> encodes \<open>u\<close>.\<close>

definition validated ::
  "'u identity_env \<Rightarrow> InboxLogRow list \<Rightarrow> 'u \<Rightarrow> bytes \<Rightarrow> AssociationStateDiff \<Rightarrow> bool" where
  "validated E rows u p d \<longleftrightarrow> length rows < 256 \<and> marshal_update E u = Inr p \<and>
     (\<exists>updates. unmarshal_all (unmarshal_update E) rows = Inr updates \<and>
        association_state E updates [u] = Inr (Some d))"

lemma publish_tx_success:
  assumes asc: "\<And>b. ascending il_SequenceID (inbox_rows b db)"
    and run: "publish_tx E F now u db = (db', Inr ())"
  obtains b p d row where "pg_decode_hex (update_inbox E u) = Inr b"
    "validated E (inbox_rows b db) u p d"
    "row = \<lparr>il_SequenceID = inbox_log_seq db, il_InboxID = b, il_ServerTimestampNs = now,
       il_IdentityUpdateProto = p\<rparr>"
    "TouchInbox None now (update_inbox E u) (db\<lparr>inbox_log_seq := inbox_log_seq db + 1,
       inbox_log := inbox_log db @ [row],
       address_log := fold (revoke_row b (inbox_log_seq db)) (eth_addresses (RemovedMembers d))
         (address_log db @ map (assoc_row b (inbox_log_seq db)) (eth_addresses (NewMembers d)))\<rparr>) = (db', Inr ())"
proof -
  obtain b where b: "pg_decode_hex (update_inbox E u) = Inr b"
    using run by (cases "pg_decode_hex (update_inbox E u)")
      (auto simp: publish_tx_def GetAllInboxLogs_def split: sum.splits option.splits)
  have sel: "select_asc il_SequenceID (\<lambda>r. il_InboxID r = b) (inbox_log db) = inbox_rows b db"
    using asc [of b] by (simp add: select_asc_def inbox_rows_def sort_key_id_if_sorted ascending_def
        strict_sorted_imp_sorted)
  obtain updates diff where v: "length (inbox_rows b db) < 256"
      "unmarshal_all (unmarshal_update E) (inbox_rows b db) = Inr updates"
      "association_state E updates [u] = Inr diff" "write_update E F now u diff db = (db', Inr ())"
    using run b sel
    by (auto simp: publish_tx_def GetAllInboxLogs_def split: sum.splits option.splits if_splits)
  obtain p where p: "marshal_update E u = Inr p"
    using v(4) by (auto simp: write_update_def split: sum.splits)
  let ?q = "inbox_log_seq db"
  let ?row = "\<lparr>il_SequenceID = ?q, il_InboxID = b, il_ServerTimestampNs = now, il_IdentityUpdateProto = p\<rparr>"
  let ?db1 = "db\<lparr>inbox_log_seq := ?q + 1, inbox_log := inbox_log db @ [?row]\<rparr>"
  have ins: "pf_insert F = None" using v(4) p b
    by (cases "pf_insert F") (auto simp: write_update_def InsertInboxLog_def)
  then have row: "InsertInboxLog (pf_insert F) (update_inbox E u) now p db = (?db1, Inr ?row)"
    using b by (simp add: InsertInboxLog_def Let_def)
  obtain d where d: "diff = Some d" using v(4) p row by (auto simp: write_update_def split: option.splits)
  obtain db2 where add: "add_members (pf_add F) (update_inbox E u) ?q (NewMembers d) ?db1 = (db2, Inr ())"
    and rest: "(case revoke_members (pf_revoke F) (update_inbox E u) ?q (RemovedMembers d) db2 of
         (db3, Inl e) \<Rightarrow> (db3, Inl e)
       | (db3, Inr _) \<Rightarrow> TouchInbox (pf_touch F) now (update_inbox E u) db3) = (db', Inr ())"
    using v(4) p row d by (auto simp: write_update_def split: prod.splits sum.splits)
  obtain db3 where rev: "revoke_members (pf_revoke F) (update_inbox E u) ?q (RemovedMembers d) db2 = (db3, Inr ())"
    and touch: "TouchInbox (pf_touch F) now (update_inbox E u) db3 = (db', Inr ())"
    using rest by (auto split: prod.splits sum.splits)
  have "pf_touch F = None" using touch by (cases "pf_touch F") (auto simp: TouchInbox_def)
  with touch have touch': "TouchInbox None now (update_inbox E u) db3 = (db', Inr ())" by simp
  have db3: "db3 = ?db1\<lparr>address_log := fold (revoke_row b ?q) (eth_addresses (RemovedMembers d))
         (address_log db @ map (assoc_row b ?q) (eth_addresses (NewMembers d)))\<rparr>"
    using add_members_success [OF b add] revoke_members_success [OF b rev] by simp
  show thesis
  proof (rule that [OF b _ refl])
    show "validated E (inbox_rows b db) u p d" using v(1-3) p d by (auto simp: validated_def)
    show "TouchInbox None now (update_inbox E u) (db\<lparr>inbox_log_seq := ?q + 1, inbox_log := inbox_log db @ [?row],
       address_log := fold (revoke_row b ?q) (eth_addresses (RemovedMembers d))
         (address_log db @ map (assoc_row b ?q) (eth_addresses (NewMembers d)))\<rparr>) = (db', Inr ())"
      using touch' unfolding db3 by simp
  qed
qed

lemma db_ok_inbox_rows: "db_ok db \<Longrightarrow> ascending il_SequenceID (inbox_rows b db)"
  by (auto simp: db_ok_def identity_ok_def log_ok_def inbox_rows_def intro: ascending_filter)

text \<open>\<open>TouchInbox\<close> writes nothing but the row of the inbox.\<close>

lemma TouchInbox_success:
  assumes "TouchInbox None now i db = (db', Inr ())" and "pg_decode_hex i = Inr b"
  shows "db' = db\<lparr>inboxes := inboxes db'\<rparr>" and "b \<in> set (map ib_ID (inboxes db'))"
proof -
  show "db' = db\<lparr>inboxes := inboxes db'\<rparr>"
    using assms by (auto simp: TouchInbox_def split: if_splits)
  show "b \<in> set (map ib_ID (inboxes db'))"
    using assms by (cases "b \<in> set (map ib_ID (inboxes db))")
      (auto simp: TouchInbox_def simp del: set_map simp flip: set_map)
qed

subsection \<open>Address lookups\<close>

definition rows_of :: "string \<Rightarrow> AddressLogRow list \<Rightarrow> AddressLogRow list" where
  "rows_of a rows = filter (\<lambda>r. al_Address r = a) rows"

lemma rows_of_revoke_row: "a' \<noteq> a \<Longrightarrow> rows_of a (revoke_row b q a' rows) = rows_of a rows"
proof -
  assume "a' \<noteq> a"
  then have "filter (\<lambda>r. al_Address r = a) (map (\<lambda>r. if al_Address r = a' \<and> P r
        then r\<lparr>al_RevocationSequenceID := Some q\<rparr> else r) rows) = filter (\<lambda>r. al_Address r = a) rows" for P
    by (induction rows) auto
  then show ?thesis by (simp add: rows_of_def revoke_row_def Let_def)
qed

lemma rows_of_revoke_rows:
  "a \<notin> set as \<Longrightarrow> rows_of a (fold (revoke_row b q) as rows) = rows_of a rows"
  by (induction as arbitrary: rows) (auto simp: rows_of_revoke_row)

lemma rows_of_assoc:
  "rows_of a (map (assoc_row b q) as) = map (assoc_row b q) (filter (\<lambda>x. x = a) as)"
  by (induction as) (auto simp: rows_of_def assoc_row_def)

lemma sql_max_newest:
  assumes "\<And>x. x \<in> set xs \<Longrightarrow> \<exists>p. x = Some p \<and> p < q" and "ys \<noteq> []"
    and "\<And>y. y \<in> set ys \<Longrightarrow> y = Some q"
  shows "sql_max (xs @ ys) = Some q"
proof -
  have all: "\<exists>p. x = Some p \<and> p \<le> q" if "x \<in> set (xs @ ys)" for x
    using that assms(1,3) by fastforce
  then have "filter (\<lambda>x. x \<noteq> None) (xs @ ys) = xs @ ys" unfolding filter_id_conv by blast
  then have mf: "List.map_filter id (xs @ ys) = map the (xs @ ys)"
    by (simp add: List.map_filter_def)
  have "Max (set (map the (xs @ ys))) = q"
  proof (rule Max_eqI)
    show "q \<in> set (map the (xs @ ys))" using assms(2,3) by (cases ys) force+
  qed (use all in force)+
  with mf assms(2) show ?thesis by (simp add: sql_max_def)
qed

lemma foldl_lookup_hit:
  assumes "\<And>e. e \<in> set log \<Longrightarrow> fst e = a \<Longrightarrow> fst (snd e) = h"
  shows "foldl (\<lambda>resp (address, inboxId, _). if address = a then Some inboxId else resp) acc log =
      (if a \<in> fst ` set log then Some h else acc)"
  using assms
proof (induction log arbitrary: acc)
  case (Cons e log)
  obtain x i q where "e = (x, i, q)" by (cases e)
  then show ?case using Cons.prems [of e] Cons.IH Cons.prems by simp
qed simp

text \<open>
  The specification of a lookup: among the rows of the address that are not revoked, the latest
  association names the inbox.
\<close>

lemma GetInboxIds_latest:
  assumes mem: "a \<in> set ids" and rows: "rows_of a (address_log db) = old @ new" and ne: "new \<noteq> []"
    and new: "\<And>r. r \<in> set new \<Longrightarrow> al_AssociationSequenceID r = Some q \<and> al_InboxID r = b \<and>
        al_RevocationSequenceID r = None"
    and old: "\<And>r. r \<in> set old \<Longrightarrow> \<exists>p. al_AssociationSequenceID r = Some p \<and> p < q"
  shows "\<exists>out. GetInboxIds None ids db = Inr out \<and> (a, Some (hex_encode b)) \<in> set out"
proof -
  define P where "P = (\<lambda>r :: AddressLogRow. al_Address r \<in> set ids \<and> al_AssociationSequenceID r \<noteq> None \<and>
      al_AssociationSequenceID r = sql_max (map al_AssociationSequenceID
        (filter (\<lambda>b. al_Address b = al_Address r \<and> al_RevocationSequenceID b = None) (address_log db))))"
  let ?entry = "\<lambda>r. (al_Address r, hex_encode (al_InboxID r), al_AssociationSequenceID r)"
  let ?log = "map ?entry (filter P (address_log db))"
  have of_a: "r \<in> set (address_log db) \<and> al_Address r = a \<longleftrightarrow> r \<in> set old \<or> r \<in> set new" for r
    using arg_cong [OF rows, of set] by (auto simp: rows_of_def)
  have "filter (\<lambda>x. al_Address x = a \<and> al_RevocationSequenceID x = None) (address_log db) =
      filter (\<lambda>x. al_RevocationSequenceID x = None) (old @ new)"
    unfolding rows [symmetric] rows_of_def by (simp add: conj_commute)
  also have "\<dots> = filter (\<lambda>x. al_RevocationSequenceID x = None) old @ new"
    using new by (simp add: filter_id_conv)
  finally have "sql_max (map al_AssociationSequenceID
      (filter (\<lambda>x. al_Address x = a \<and> al_RevocationSequenceID x = None) (address_log db))) = Some q"
    using ne old new by (auto intro!: sql_max_newest)
  then have P: "P r \<longleftrightarrow> al_AssociationSequenceID r = Some q" if "al_Address r = a" for r
    using that mem by (auto simp: P_def)
  have "fst (snd e) = hex_encode b" if e: "e \<in> set ?log" "fst e = a" for e
  proof -
    obtain r where r: "r \<in> set (address_log db)" "P r" "e = ?entry r" "al_Address r = a" using e by auto
    then have "r \<in> set new" using P [of r] of_a [of r] old [of r] by auto
    with r new show ?thesis by simp
  qed
  moreover have "a \<in> fst ` set ?log"
  proof -
    obtain r where r: "r \<in> set new" using ne by (cases new) auto
    then have "r \<in> set (address_log db)" "al_Address r = a" "P r" using of_a [of r] P [of r] new by auto
    then show ?thesis by (force simp: image_iff)
  qed
  ultimately have "foldl (\<lambda>resp (address, inboxId, _). if address = a then Some inboxId else resp) None ?log =
      Some (hex_encode b)" using foldl_lookup_hit [of ?log a "hex_encode b" None] by simp
  then have "(a, Some (hex_encode b)) \<in> set (map (\<lambda>identifier. (identifier,
      foldl (\<lambda>resp (address, inboxId, _). if address = identifier then Some inboxId else resp) None ?log)) ids)"
    using mem by (auto simp: image_iff intro!: bexI [of _ a])
  moreover have "GetAddressLogs None ids db = Inr ?log" by (simp add: GetAddressLogs_def P_def)
  ultimately show ?thesis by (simp add: GetInboxIds_def)
qed

text \<open>The effect of a publish that succeeded, whichever attempt did it.\<close>

lemma PublishIdentityUpdate_effect:
  assumes ok: "db_ok db" and run: "PublishIdentityUpdate E ctx bf cf F now (Some u) db = (db', Inr ())"
  obtains b p d row where "pg_decode_hex (update_inbox E u) = Inr b"
    "validated E (inbox_rows b db) u p d" "il_InboxID row = b" "il_IdentityUpdateProto row = p"
    "inbox_log_seq db \<le> il_SequenceID row"
    "same_tables (db\<lparr>inbox_log := inbox_log db @ [row],
       address_log := fold (revoke_row b (il_SequenceID row)) (eth_addresses (RemovedMembers d))
         (address_log db @ map (assoc_row b (il_SequenceID row)) (eth_addresses (NewMembers d))),
       inboxes := inboxes db'\<rparr>) db'"
proof -
  let ?fn = "\<lambda>i. publish_tx E (F i) (now i) u"
  have "rr_loop 3 ctx bf cf ?fn 0 None db = (db', Inr ())"
    using run by (simp add: PublishIdentityUpdate_def RunInRepeatableReadTx_def)
  from publish_rr.rr_loop_success [OF this] obtain j db1
    where db1: "same_tables db db1" "seqs_le db db1" "?fn j db1 = (db', Inr ())" by auto
  have asc: "ascending il_SequenceID (inbox_rows b db1)" for b
    using db_ok_inbox_rows [OF ok, of b] db1(1) by (simp add: inbox_rows_def same_tables_def)
  from publish_tx_success [OF asc db1(3)] obtain b p d row
    where b: "pg_decode_hex (update_inbox E u) = Inr b" "validated E (inbox_rows b db1) u p d"
      "row = \<lparr>il_SequenceID = inbox_log_seq db1, il_InboxID = b, il_ServerTimestampNs = now j,
         il_IdentityUpdateProto = p\<rparr>"
      "TouchInbox None (now j) (update_inbox E u) (db1\<lparr>inbox_log_seq := inbox_log_seq db1 + 1,
         inbox_log := inbox_log db1 @ [row],
         address_log := fold (revoke_row b (inbox_log_seq db1)) (eth_addresses (RemovedMembers d))
           (address_log db1 @ map (assoc_row b (inbox_log_seq db1)) (eth_addresses (NewMembers d)))\<rparr>) =
         (db', Inr ())" .
  have db': "db' = db1\<lparr>inbox_log_seq := inbox_log_seq db1 + 1, inbox_log := inbox_log db1 @ [row],
      address_log := fold (revoke_row b (inbox_log_seq db1)) (eth_addresses (RemovedMembers d))
           (address_log db1 @ map (assoc_row b (inbox_log_seq db1)) (eth_addresses (NewMembers d))),
      inboxes := inboxes db'\<rparr>"
    using TouchInbox_success(1) [OF b(4,1)] by simp
  have "inbox_rows b db1 = inbox_rows b db" using db1(1) by (simp add: inbox_rows_def same_tables_def)
  moreover have "inbox_log_seq db \<le> il_SequenceID row" using b(3) db1(2) by (simp add: seqs_le_def)
  moreover have "same_tables (db\<lparr>inbox_log := inbox_log db @ [row],
         address_log := fold (revoke_row b (il_SequenceID row)) (eth_addresses (RemovedMembers d))
           (address_log db @ map (assoc_row b (il_SequenceID row)) (eth_addresses (NewMembers d))),
         inboxes := inboxes db'\<rparr>) db'"
    by (subst (2) db') (use db1(1) b(3) in \<open>simp add: same_tables_def\<close>)
  ultimately show thesis using b(1-3) by (intro that [of b p d row]) simp_all
qed

section \<open>Properties of the sequential store\<close>

text \<open>
  C11. Publishing an identity update is all or nothing. Whatever the database, the clock, the context
  and the validation service do in the up to three attempts, an error leaves every table as it
  was and a success has appended exactly one row to the inbox log: a row of the inbox the update
  names, holding the encoded update, numbered above every earlier row, and accepted by the
  validation service on top of all earlier updates of that inbox, of which there were fewer than
  256; the address log got the rows of the new members and the revocations of the removed ones, and
  no other table changed. The invariant of the database holds in every case.
\<close>

theorem PublishIdentityUpdate_atomic:
  assumes ok: "db_ok db" and run: "PublishIdentityUpdate E ctx bf cf F now (Some u) db = (db', r)"
  shows "db_ok db' \<and>
    (case r of
       Inl e \<Rightarrow> same_tables db db'
     | Inr _ \<Rightarrow> \<exists>b p d row. pg_decode_hex (update_inbox E u) = Inr b \<and>
         validated E (inbox_rows b db) u p d \<and> il_InboxID row = b \<and> il_IdentityUpdateProto row = p \<and>
         inbox_log_seq db \<le> il_SequenceID row \<and>
         same_tables (db\<lparr>inbox_log := inbox_log db @ [row],
           address_log := fold (revoke_row b (il_SequenceID row)) (eth_addresses (RemovedMembers d))
             (address_log db @ map (assoc_row b (il_SequenceID row)) (eth_addresses (NewMembers d))),
           inboxes := inboxes db'\<rparr>) db')"
proof -
  let ?fn = "\<lambda>i. publish_tx E (F i) (now i) u"
  have loop: "rr_loop 3 ctx bf cf ?fn 0 None db = (db', r)"
    using run by (simp add: PublishIdentityUpdate_def RunInRepeatableReadTx_def)
  have ok': "db_ok db'"
    using publish_rr.rr_loop_ok [OF ok, of 3 ctx bf cf E F now u 0 None] loop by simp
  show ?thesis
  proof (cases r)
    case (Inl e)
    with loop ok' show ?thesis using publish_rr.rr_loop_error by fastforce
  next
    case (Inr x)
    with run have "PublishIdentityUpdate E ctx bf cf F now (Some u) db = (db', Inr ())" by simp
    from PublishIdentityUpdate_effect [OF ok this] Inr ok' show ?thesis
      unfolding Inr sum.case by metis
  qed
qed

definition test_env_id :: "bytes identity_env" where
  "test_env_id = \<lparr>unmarshal_update = Inr, marshal_update = Inr, update_inbox = (\<lambda>_. ''ab''),
     association_state = (\<lambda>old new. Inr (Some \<lparr>NewMembers = [EthereumAddress ''0x1''], RemovedMembers = []\<rparr>))\<rparr>"

definition test_publish :: "mls_db \<Rightarrow> mls_db \<times> unit result" where
  "test_publish = PublishIdentityUpdate test_env_id (\<lambda>_. None) (\<lambda>_. None)
     (\<lambda>i. if i = 0 then Some (Err ''could not serialize access'') else None) (\<lambda>_. no_publish_faults) (\<lambda>i. int i)
     (Some [1, 2])"

lemma test_publish_result:
  "\<exists>db'. test_publish empty_db = (db', Inr ())"
  by (simp add: test_publish_def PublishIdentityUpdate_def RunInRepeatableReadTx_def numeral_3_eq_3
      RunInTx_def publish_tx_def write_update_def test_env_id_def no_publish_faults_def LockInboxLog_def
      GetAllInboxLogs_def InsertInboxLog_def InsertAddressLog_def TouchInbox_def pg_space_def hex_val_def
      rollback_def empty_db_def select_asc_def Let_def)

theorem PublishIdentityUpdate_atomic_witness:
  "\<exists>db' b p d row. test_publish empty_db = (db', Inr ()) \<and> db_ok db' \<and>
     validated test_env_id (inbox_rows b empty_db) [1, 2] p d \<and> inbox_log db' = [row] \<and> 1 \<le> il_SequenceID row"
proof -
  obtain db' where run: "test_publish empty_db = (db', Inr ())" using test_publish_result by blast
  from PublishIdentityUpdate_atomic [OF db_ok_empty run [unfolded test_publish_def]]
  show ?thesis using run by (auto simp: same_tables_def empty_db_def)
qed



text \<open>Every stored group message carries the hash of its group id followed by its data.\<close>

definition hashes_ok :: "(bytes \<Rightarrow> bytes) \<Rightarrow> mls_db \<Rightarrow> bool" where
  "hashes_ok sha256 db \<longleftrightarrow> (\<forall>r \<in> set (group_messages db). gr_GroupIDDataHash r = sha256 (gr_GroupID r @ gr_Data r))"

lemma Store_InsertGroupMessage_cases:
  "Store_InsertGroupMessage sha256 None now g d hm sp ic db =
     (if sha256 (g @ d) \<in> gr_GroupIDDataHash ` set (group_messages db)
      then (db\<lparr>group_messages_seq := group_messages_seq db + 1\<rparr>, Inl (AlreadyExistsError unique_violation))
      else let row = \<lparr>gr_ID = group_messages_seq db, gr_CreatedAt = now, gr_GroupID = g, gr_Data = d,
              gr_GroupIDDataHash = sha256 (g @ d), gr_IsCommit = Some ic, gr_SenderHmac = hm, gr_ShouldPush = Some sp\<rparr>
           in (db\<lparr>group_messages_seq := group_messages_seq db + 1, group_messages := group_messages db @ [row]\<rparr>, Inr row))"
  by (simp add: Store_InsertGroupMessage_def InsertGroupMessage_def Let_def)

lemma Store_InsertGroupMessage_ok:
  "db_ok db \<Longrightarrow> db_ok (fst (Store_InsertGroupMessage sha256 flt now g d hm sp ic db))"
  using write_ok(1) [of db flt now g d "sha256 (g @ d)" hm sp ic]
  by (cases "InsertGroupMessage flt now g d (sha256 (g @ d)) hm sp ic db")
    (simp add: Store_InsertGroupMessage_def split: sum.splits)

lemma hashes_ok_insert:
  "hashes_ok sha256 db \<Longrightarrow> hashes_ok sha256 (fst (Store_InsertGroupMessage sha256 flt now g d hm sp ic db))"
proof (cases flt)
  case None
  then show "hashes_ok sha256 db \<Longrightarrow> ?thesis"
    unfolding None Store_InsertGroupMessage_cases by (auto simp: hashes_ok_def Let_def)
qed (simp add: Store_InsertGroupMessage_def InsertGroupMessage_def)

text \<open>
  Publishing is idempotent per message: with a collision-free hash and group ids of one length, an
  insert is refused as already existing exactly when a row with the same group and the same
  data is stored, and then no table changes; otherwise one row with the next id is appended.
\<close>

theorem InsertGroupMessage_idempotent:
  assumes hash: "hashes_ok sha256 db" and inj: "inj sha256"
    and len: "\<And>r. r \<in> set (group_messages db) \<Longrightarrow> length (gr_GroupID r) = length g"
  shows "case Store_InsertGroupMessage sha256 None now g d hm sp ic db of
      (db', Inl e) \<Rightarrow> IsAlreadyExistsError e \<and> same_tables db db' \<and>
        (\<exists>r \<in> set (group_messages db). gr_GroupID r = g \<and> gr_Data r = d)
    | (db', Inr row) \<Rightarrow> group_messages db' = group_messages db @ [row] \<and> gr_ID row = group_messages_seq db \<and>
        gr_GroupID row = g \<and> gr_Data row = d \<and>
        \<not> (\<exists>r \<in> set (group_messages db). gr_GroupID r = g \<and> gr_Data r = d)"
proof -
  have "sha256 (g @ d) \<in> gr_GroupIDDataHash ` set (group_messages db) \<longleftrightarrow>
      (\<exists>r \<in> set (group_messages db). gr_GroupID r = g \<and> gr_Data r = d)"
    using hash inj len by (force simp: hashes_ok_def image_iff inj_def)
  then show ?thesis
    unfolding Store_InsertGroupMessage_cases by (auto simp: Let_def same_tables_def)
qed

theorem InsertGroupMessage_idempotent_witness:
  "case Store_InsertGroupMessage id None 0 [7] [1] [] True False
      (empty_db\<lparr>group_messages := [\<lparr>gr_ID = 1, gr_CreatedAt = 0, gr_GroupID = [7], gr_Data = [1],
         gr_GroupIDDataHash = [7, 1], gr_IsCommit = None, gr_SenderHmac = [], gr_ShouldPush = None\<rparr>],
         group_messages_seq := 2\<rparr>) of
     (db', Inl e) \<Rightarrow> IsAlreadyExistsError e | (db', Inr row) \<Rightarrow> False"
proof -
  let ?db = "empty_db\<lparr>group_messages := [\<lparr>gr_ID = 1, gr_CreatedAt = 0, gr_GroupID = [7], gr_Data = [1],
         gr_GroupIDDataHash = [7, 1], gr_IsCommit = None, gr_SenderHmac = [], gr_ShouldPush = None\<rparr>],
         group_messages_seq := 2\<rparr>"
  have h: "hashes_ok id ?db" by (simp add: hashes_ok_def)
  show ?thesis
    using InsertGroupMessage_idempotent [OF h inj_on_id, where g = "[7]" and d = "[1]" and now = 0
        and hm = "[]" and sp = True and ic = False]
    by (auto split: prod.splits sum.splits)
qed

text \<open>
  The hash does not separate the group id from the data: for every hash function, after a message
  for one group has been stored, a different message for a different group whose id extends the
  first one is refused as a duplicate, although no message of that group is stored.
\<close>

theorem group_hash_not_delimited:
  assumes "fst (Store_InsertGroupMessage sha256 None now g (x @ d) hm sp ic db) = db'"
  shows "\<exists>db''. Store_InsertGroupMessage sha256 None now' (g @ x) d hm' sp' ic' db' =
    (db'', Inl (AlreadyExistsError unique_violation))"
  using assms unfolding Store_InsertGroupMessage_cases by (auto simp: Let_def image_iff)

theorem group_hash_not_delimited_witness:
  "\<exists>db' db''. fst (Store_InsertGroupMessage id None 0 [1] ([2] @ [3]) [] True False empty_db) = db' \<and>
     \<not> (\<exists>r \<in> set (group_messages db'). gr_GroupID r = [1, 2]) \<and>
     Store_InsertGroupMessage id None 1 ([1] @ [2]) [3] [] True False db' =
       (db'', Inl (AlreadyExistsError unique_violation))"
proof -
  let ?db = "fst (Store_InsertGroupMessage id None 0 [1] ([2] @ [3]) [] True False empty_db)"
  have "\<not> (\<exists>r \<in> set (group_messages ?db). gr_GroupID r = [1, 2])"
    by (simp add: Store_InsertGroupMessage_cases empty_db_def Let_def)
  moreover have "\<exists>db''. Store_InsertGroupMessage id None 1 ([1] @ [2]) [3] [] True False ?db =
       (db'', Inl (AlreadyExistsError unique_violation))"
    by (rule group_hash_not_delimited [OF refl])
  ultimately show ?thesis by blast
qed

end
