(* ===== verification/Publish_Concurrency.thy ===== *)
theory Publish_Concurrency
  imports Store
begin

text \<open>
  Concurrent publishers of identity updates (\<open>PublishIdentityUpdate\<close> of pkg/mls/store/store.go)
  on a Postgres database at repeatable-read isolation.

  A transaction's first statement takes the advisory lock, so its snapshot is taken before it may
  have to wait for the lock: what it then reads can be older than what is committed. The
  transaction runs \<open>publish_tx\<close> on its snapshot with the live sequences, and commits only if no row
  it updated has been updated since the snapshot. The row every publisher of an inbox updates
  is that of \<open>TouchInbox\<close>.

  The theorem is that the log of every inbox is nevertheless a chain: each entry was validated
  against exactly the entries before it. The lock, which is keyed by the text of the inbox id
  and not by its bytes, is not what the proof rests on; the conflict on the touched row is.
\<close>

section \<open>Row versions, conflicts and merging\<close>

definition inbox_lookup :: "bytes \<Rightarrow> InboxRow list \<Rightarrow> InboxRow option" where
  "inbox_lookup b rows = find (\<lambda>r. ib_ID r = b) rows"

definition write_conflict :: "InboxRow list \<Rightarrow> InboxRow list \<Rightarrow> InboxRow list \<Rightarrow> bool" where
  "write_conflict snap new cur =
     list_ex (\<lambda>r. inbox_lookup (ib_ID r) new \<noteq> inbox_lookup (ib_ID r) snap \<and>
       inbox_lookup (ib_ID r) cur \<noteq> inbox_lookup (ib_ID r) snap) new"

definition merge_inboxes :: "InboxRow list \<Rightarrow> InboxRow list \<Rightarrow> InboxRow list \<Rightarrow> InboxRow list" where
  "merge_inboxes snap new cur =
     map (\<lambda>r. case inbox_lookup (ib_ID r) new of
        Some r' \<Rightarrow> if inbox_lookup (ib_ID r) snap \<noteq> Some r' then r' else r
      | None \<Rightarrow> r) cur @
     filter (\<lambda>r. inbox_lookup (ib_ID r) snap = None) new"

text \<open>Address rows are updated in place and appended, never deleted: a position identifies a row.\<close>

definition merge_rows :: "'r list \<Rightarrow> 'r list \<Rightarrow> 'r list \<Rightarrow> 'r list" where
  "merge_rows snap new cur =
     map (\<lambda>i. if i < length snap \<and> new ! i \<noteq> snap ! i then new ! i else cur ! i) [0..<length cur] @
     drop (length snap) new"

definition merge :: "mls_db \<Rightarrow> mls_db \<Rightarrow> mls_db \<Rightarrow> mls_db" where
  "merge snap new cur =
     cur\<lparr>inbox_log := inbox_log cur @ drop (length (inbox_log snap)) (inbox_log new),
         address_log := merge_rows (address_log snap) (address_log new) (address_log cur),
         inboxes := merge_inboxes (inboxes snap) (inboxes new) (inboxes cur)\<rparr>"

section \<open>Publishers\<close>

datatype 'u tx_state = Idle | Begun 'u mls_db | Ran 'u mls_db mls_db

record 'u cstate =
  c_db :: mls_db
  c_lock :: "string \<Rightarrow> nat option"
  c_tx :: "nat \<Rightarrow> 'u tx_state"

definition release :: "nat \<Rightarrow> (string \<Rightarrow> nat option) \<Rightarrow> string \<Rightarrow> nat option" where
  "release t lock = (\<lambda>i. if lock i = Some t then None else lock i)"

definition initial_cstate :: "'u cstate" where
  "initial_cstate = \<lparr>c_db = empty_db, c_lock = (\<lambda>_. None), c_tx = (\<lambda>_. Idle)\<rparr>"

inductive pub_step :: "'u identity_env \<Rightarrow> 'u cstate \<Rightarrow> 'u cstate \<Rightarrow> bool" for E where
  begin_tx: "c_tx s t = Idle \<Longrightarrow> pub_step E s (s\<lparr>c_tx := (c_tx s)(t := Begun u (c_db s))\<rparr>)"
| lock_tx: "c_tx s t = Begun u snap \<Longrightarrow> c_lock s (update_inbox E u) = None \<Longrightarrow>
    pub_step E s (s\<lparr>c_lock := (c_lock s)(update_inbox E u \<mapsto> t)\<rparr>)"
| run_tx: "c_tx s t = Begun u snap \<Longrightarrow> c_lock s (update_inbox E u) = Some t \<Longrightarrow>
    publish_tx E F now u (rollback snap (c_db s)) = (new, Inr ()) \<Longrightarrow>
    pub_step E s (s\<lparr>c_db := rollback (c_db s) new, c_tx := (c_tx s)(t := Ran u snap new)\<rparr>)"
| fail_tx: "c_tx s t = Begun u snap \<Longrightarrow> c_lock s (update_inbox E u) = Some t \<Longrightarrow>
    publish_tx E F now u (rollback snap (c_db s)) = (new, Inl e) \<Longrightarrow>
    pub_step E s (s\<lparr>c_db := rollback (c_db s) new, c_tx := (c_tx s)(t := Idle),
      c_lock := release t (c_lock s)\<rparr>)"
| commit_tx: "c_tx s t = Ran u snap new \<Longrightarrow>
    \<not> write_conflict (inboxes snap) (inboxes new) (inboxes (c_db s)) \<Longrightarrow>
    pub_step E s (s\<lparr>c_db := merge snap new (c_db s), c_tx := (c_tx s)(t := Idle),
      c_lock := release t (c_lock s)\<rparr>)"
| abort_tx: "pub_step E s (s\<lparr>c_tx := (c_tx s)(t := Idle), c_lock := release t (c_lock s)\<rparr>)"

inductive pub_reach :: "'u identity_env \<Rightarrow> 'u cstate \<Rightarrow> bool" for E where
  pub_init: "pub_reach E initial_cstate"
| pub_next: "pub_reach E s \<Longrightarrow> pub_step E s s' \<Longrightarrow> pub_reach E s'"

text \<open>The log of an inbox is a chain: every entry was validated on top of those before it.\<close>

definition chain_ok :: "'u identity_env \<Rightarrow> InboxLogRow list \<Rightarrow> bool" where
  "chain_ok E rows \<longleftrightarrow> length rows \<le> 256 \<and>
     (\<forall>i < length rows. \<exists>u d. validated E (take i rows) u (il_IdentityUpdateProto (rows ! i)) d)"

lemma chain_ok_snoc:
  assumes "chain_ok E rows" and "validated E rows u (il_IdentityUpdateProto row) d"
  shows "chain_ok E (rows @ [row])"
proof -
  have "\<exists>u d. validated E (take i (rows @ [row])) u (il_IdentityUpdateProto ((rows @ [row]) ! i)) d"
    if "i < length (rows @ [row])" for i
    using that assms by (cases "i < length rows") (auto simp: chain_ok_def nth_append)
  moreover have "length rows < 256" using assms(2) by (simp add: validated_def)
  ultimately show ?thesis by (simp add: chain_ok_def)
qed

section \<open>Invariant\<close>

definition ver :: "mls_db \<Rightarrow> bytes \<Rightarrow> nat" where
  "ver db b = (case inbox_lookup b (inboxes db) of None \<Rightarrow> 0 | Some r \<Rightarrow> Suc (ib_Version r))"

text \<open>
  A snapshot is never ahead of the committed state, and when it has the current version of an
  inbox it has that inbox's current log.
\<close>

definition snap_ok :: "mls_db \<Rightarrow> mls_db \<Rightarrow> bool" where
  "snap_ok cur snap \<longleftrightarrow>
     (\<forall>b. ascending il_SequenceID (inbox_rows b snap) \<and> ver snap b \<le> ver cur b \<and>
        (ver snap b = ver cur b \<longrightarrow> inbox_rows b snap = inbox_rows b cur)) \<and>
     (\<forall>r \<in> set (inbox_log snap). il_SequenceID r < inbox_log_seq cur)"

definition ran_ok :: "'u identity_env \<Rightarrow> mls_db \<Rightarrow> mls_db \<Rightarrow> bool" where
  "ran_ok E snap new \<longleftrightarrow>
     (\<exists>b row u d. inbox_log new = inbox_log snap @ [row] \<and> il_InboxID row = b \<and>
        validated E (inbox_rows b snap) u (il_IdentityUpdateProto row) d \<and>
        (\<forall>r \<in> set (inbox_rows b snap). il_SequenceID r < il_SequenceID row) \<and>
        il_SequenceID row < inbox_log_seq new \<and> ver new b = Suc (ver snap b) \<and>
        (\<forall>b'. b' \<noteq> b \<longrightarrow> inbox_lookup b' (inboxes new) = inbox_lookup b' (inboxes snap)))"

fun tx_ok :: "'u identity_env \<Rightarrow> mls_db \<Rightarrow> 'u tx_state \<Rightarrow> bool" where
  "tx_ok E cur Idle = True"
| "tx_ok E cur (Begun u snap) = snap_ok cur snap"
| "tx_ok E cur (Ran u snap new) = (snap_ok cur snap \<and> ran_ok E snap new \<and> inbox_log_seq new \<le> inbox_log_seq cur)"

definition pub_inv :: "'u identity_env \<Rightarrow> 'u cstate \<Rightarrow> bool" where
  "pub_inv E s \<longleftrightarrow> snap_ok (c_db s) (c_db s) \<and> (\<forall>b. chain_ok E (inbox_rows b (c_db s))) \<and>
     (\<forall>t. tx_ok E (c_db s) (c_tx s t))"

lemma ver_0: "ver db b = 0 \<longleftrightarrow> inbox_lookup b (inboxes db) = None"
  by (simp add: ver_def split: option.splits)

lemma inbox_lookup_Some: "inbox_lookup b rows = Some r \<Longrightarrow> ib_ID r = b \<and> r \<in> set rows"
  by (auto simp: inbox_lookup_def find_Some_iff)

lemma inbox_lookup_append:
  "inbox_lookup b (xs @ ys) = (case inbox_lookup b xs of None \<Rightarrow> inbox_lookup b ys | Some r \<Rightarrow> Some r)"
  by (induction xs) (auto simp: inbox_lookup_def)

lemma inbox_lookup_single [simp]: "inbox_lookup b [r] = (if ib_ID r = b then Some r else None)"
  by (simp add: inbox_lookup_def)

lemma inbox_lookup_map:
  "(\<And>r. ib_ID (f r) = ib_ID r) \<Longrightarrow> inbox_lookup b (map f rows) = map_option f (inbox_lookup b rows)"
  by (induction rows) (auto simp: inbox_lookup_def)

lemma inbox_lookup_filter:
  "(\<And>r. r \<in> set rows \<Longrightarrow> ib_ID r = b \<Longrightarrow> P r) \<Longrightarrow> inbox_lookup b (filter P rows) = inbox_lookup b rows"
  by (induction rows) (auto simp: inbox_lookup_def)

lemma inbox_lookup_filter_None:
  "(\<And>r. r \<in> set rows \<Longrightarrow> ib_ID r = b \<Longrightarrow> \<not> P r) \<Longrightarrow> inbox_lookup b (filter P rows) = None"
  by (induction rows) (auto simp: inbox_lookup_def)

text \<open>Touching an inbox raises its version and leaves the other inboxes alone.\<close>

lemma TouchInbox_lookup:
  assumes "TouchInbox None now i db = (db', Inr ())" and "pg_decode_hex i = Inr b"
  shows "ver db' b = Suc (ver db b)"
    and "b' \<noteq> b \<Longrightarrow> inbox_lookup b' (inboxes db') = inbox_lookup b' (inboxes db)"
proof -
  let ?f = "\<lambda>r. if ib_ID r = b then r\<lparr>ib_UpdatedAt := now, ib_Version := Suc (ib_Version r)\<rparr> else r"
  have f: "inbox_lookup c (map ?f rows) = map_option ?f (inbox_lookup c rows)" for c rows
    by (rule inbox_lookup_map) simp
  have none: "inbox_lookup b rows = None \<longleftrightarrow> b \<notin> ib_ID ` set rows" for rows
    by (auto simp: inbox_lookup_def find_None_iff)
  show "ver db' b = Suc (ver db b)"
  proof (cases "b \<in> ib_ID ` set (inboxes db)")
    case True
    then obtain r where r: "inbox_lookup b (inboxes db) = Some r" using none by blast
    have "db' = db\<lparr>inboxes := map ?f (inboxes db)\<rparr>" using True assms by (simp add: TouchInbox_def)
    then show ?thesis using inbox_lookup_Some [OF r] r by (simp add: ver_def f)
  next
    case False
    then have "inbox_lookup b (inboxes db) = None" using none by blast
    with False assms show ?thesis
      by (auto simp: TouchInbox_def ver_def inbox_lookup_append)
  qed
  show "inbox_lookup b' (inboxes db') = inbox_lookup b' (inboxes db)" if "b' \<noteq> b"
  proof (cases "b \<in> ib_ID ` set (inboxes db)")
    case True
    then have "db' = db\<lparr>inboxes := map ?f (inboxes db)\<rparr>" using assms by (simp add: TouchInbox_def)
    then show ?thesis using that
      by (cases "inbox_lookup b' (inboxes db)") (auto simp: f dest: inbox_lookup_Some)
  next
    case False
    then show ?thesis using assms that
      by (auto simp: TouchInbox_def inbox_lookup_append split: option.splits)
  qed
qed

text \<open>What a run leaves behind, in terms of the snapshot it started from.\<close>

lemma run_ran_ok:
  assumes snap: "snap_ok cur snap" and run: "publish_tx E F now u (rollback snap cur) = (new, Inr ())"
  shows "ran_ok E snap new"
proof -
  let ?view = "rollback snap cur"
  have rows: "inbox_rows b ?view = inbox_rows b snap" for b by (simp add: inbox_rows_def rollback_def)
  have asc: "ascending il_SequenceID (inbox_rows b ?view)" for b using snap rows by (simp add: snap_ok_def)
  from publish_tx_success [OF asc run] obtain b p d row
    where b: "pg_decode_hex (update_inbox E u) = Inr b" "validated E (inbox_rows b ?view) u p d"
      "row = \<lparr>il_SequenceID = inbox_log_seq ?view, il_InboxID = b, il_ServerTimestampNs = now,
         il_IdentityUpdateProto = p\<rparr>"
      "TouchInbox None now (update_inbox E u) (?view\<lparr>inbox_log_seq := inbox_log_seq ?view + 1,
         inbox_log := inbox_log ?view @ [row],
         address_log := fold (revoke_row b (inbox_log_seq ?view)) (eth_addresses (RemovedMembers d))
           (address_log ?view @ map (assoc_row b (inbox_log_seq ?view)) (eth_addresses (NewMembers d)))\<rparr>) =
         (new, Inr ())" .
  note touch = TouchInbox_lookup [OF b(4,1)] TouchInbox_success(1) [OF b(4,1)]
  have new: "inbox_log new = inbox_log snap @ [row]" "inbox_log_seq new = inbox_log_seq cur + 1"
    by (subst touch(3); simp add: rollback_def)+
  have "ver new b = Suc (ver snap b)" using touch(1) by (simp add: ver_def rollback_def)
  moreover have "inbox_lookup b' (inboxes new) = inbox_lookup b' (inboxes snap)" if "b' \<noteq> b" for b'
    using touch(2) [OF that] by (simp add: rollback_def)
  moreover have "\<forall>r \<in> set (inbox_rows b snap). il_SequenceID r < inbox_log_seq cur"
    using snap by (auto simp: snap_ok_def inbox_rows_def)
  ultimately show ?thesis
    using b(2,3) new rows by (auto simp: ran_ok_def rollback_def intro!: exI [of _ u] exI [of _ d])
qed

lemma publish_tx_seq_mono:
  "publish_tx E F now u (rollback snap cur) = (new, r) \<Longrightarrow> inbox_log_seq cur \<le> inbox_log_seq new"
  using publish.body_seqs [of "rollback snap cur" E F now u] by (simp add: seqs_le_def rollback_def)

text \<open>Advancing the sequences of the committed state disturbs nobody.\<close>

lemma snap_ok_rollback:
  "inbox_log_seq cur \<le> inbox_log_seq new \<Longrightarrow> snap_ok cur snap \<Longrightarrow> snap_ok (rollback cur new) snap"
  by (fastforce simp: snap_ok_def rollback_def ver_def inbox_rows_def)

lemma snap_ok_rollback_self:
  "inbox_log_seq cur \<le> inbox_log_seq new \<Longrightarrow> snap_ok cur cur \<Longrightarrow> snap_ok (rollback cur new) (rollback cur new)"
  by (fastforce simp: snap_ok_def rollback_def ver_def inbox_rows_def)

lemma tx_ok_rollback:
  "inbox_log_seq cur \<le> inbox_log_seq new \<Longrightarrow> tx_ok E cur x \<Longrightarrow> tx_ok E (rollback cur new) x"
  by (cases x) (simp_all add: snap_ok_rollback, simp add: rollback_def)

lemma inbox_rows_rollback [simp]: "inbox_rows b (rollback cur new) = inbox_rows b cur"
  by (simp add: inbox_rows_def rollback_def)

text \<open>
  A commit without a conflict: the committer's inbox grows by its row and gets a new version, every
  other inbox keeps its log and its version.
\<close>

lemma commit_effect:
  assumes snap: "snap_ok cur snap" and ran: "ran_ok E snap new"
    and nc: "\<not> write_conflict (inboxes snap) (inboxes new) (inboxes cur)"
  obtains b row u d where "inbox_log (merge snap new cur) = inbox_log cur @ [row]" "il_InboxID row = b"
    "validated E (inbox_rows b cur) u (il_IdentityUpdateProto row) d"
    "\<forall>r \<in> set (inbox_rows b cur). il_SequenceID r < il_SequenceID row"
    "il_SequenceID row < inbox_log_seq new"
    "\<forall>b'. ver (merge snap new cur) b' = (if b' = b then Suc (ver cur b) else ver cur b')"
proof -
  obtain b row u d where r: "inbox_log new = inbox_log snap @ [row]" "il_InboxID row = b"
      "validated E (inbox_rows b snap) u (il_IdentityUpdateProto row) d"
      "\<forall>r \<in> set (inbox_rows b snap). il_SequenceID r < il_SequenceID row"
      "il_SequenceID row < inbox_log_seq new" "ver new b = Suc (ver snap b)"
      "\<forall>b'. b' \<noteq> b \<longrightarrow> inbox_lookup b' (inboxes new) = inbox_lookup b' (inboxes snap)"
    using ran by (auto simp: ran_ok_def)
  obtain nr where nr: "inbox_lookup b (inboxes new) = Some nr"
    using r(6) by (auto simp: ver_def split: option.splits)
  have changed: "inbox_lookup b (inboxes new) \<noteq> inbox_lookup b (inboxes snap)"
    using r(6) by (auto simp: ver_def)
  have same: "inbox_lookup b (inboxes cur) = inbox_lookup b (inboxes snap)"
    using nc changed inbox_lookup_Some [OF nr] by (auto simp: write_conflict_def list_ex_iff)
  then have vb: "ver cur b = ver snap b" by (simp add: ver_def)
  then have rows: "inbox_rows b cur = inbox_rows b snap" using snap by (simp add: snap_ok_def)
  let ?f = "\<lambda>r. case inbox_lookup (ib_ID r) (inboxes new) of
        Some r' \<Rightarrow> if inbox_lookup (ib_ID r) (inboxes snap) \<noteq> Some r' then r' else r | None \<Rightarrow> r"
  have f: "inbox_lookup c (map ?f rs) = map_option ?f (inbox_lookup c rs)" for c rs
    by (rule inbox_lookup_map) (auto split: option.splits dest: inbox_lookup_Some)
  have merged: "inbox_lookup c (inboxes (merge snap new cur)) =
      (case inbox_lookup c (inboxes cur) of
         Some r \<Rightarrow> Some (?f r)
       | None \<Rightarrow> inbox_lookup c (filter (\<lambda>r. inbox_lookup (ib_ID r) (inboxes snap) = None) (inboxes new)))" for c
    by (simp add: merge_def merge_inboxes_def inbox_lookup_append f split: option.splits)
  have "inbox_lookup b (inboxes (merge snap new cur)) = Some nr"
  proof (cases "inbox_lookup b (inboxes cur)")
    case None
    then show ?thesis using merged [of b] same nr by (simp add: inbox_lookup_filter)
  next
    case (Some cr)
    then have id: "ib_ID cr = b" using inbox_lookup_Some by blast
    have "inbox_lookup b (inboxes snap) \<noteq> Some nr" using changed nr by simp
    with merged [of b] Some nr id show ?thesis by simp
  qed
  then have vb': "ver (merge snap new cur) b = Suc (ver cur b)"
    using r(6) vb nr by (simp add: ver_def)
  have other: "inbox_lookup c (inboxes (merge snap new cur)) = inbox_lookup c (inboxes cur)" if "c \<noteq> b" for c
  proof (cases "inbox_lookup c (inboxes cur)")
    case None
    then have "ver snap c \<le> 0" using snap ver_0 [of cur c] by (metis snap_ok_def)
    then have "inbox_lookup c (inboxes snap) = None" by (simp add: ver_0)
    then have "inbox_lookup c (inboxes new) = None" using r(7) that by simp
    then have "inbox_lookup c (filter (\<lambda>r. inbox_lookup (ib_ID r) (inboxes snap) = None) (inboxes new)) = None"
      by (auto simp: inbox_lookup_def find_None_iff)
    with merged [of c] None show ?thesis by simp
  next
    case (Some cr)
    then have id: "ib_ID cr = c" using inbox_lookup_Some by blast
    have "inbox_lookup c (inboxes new) = inbox_lookup c (inboxes snap)" using r(7) that by simp
    with merged [of c] Some id show ?thesis by (simp split: option.split)
  qed
  have "inbox_log (merge snap new cur) = inbox_log cur @ [row]" using r(1) by (simp add: merge_def)
  moreover have "ver (merge snap new cur) c = (if c = b then Suc (ver cur b) else ver cur c)" for c
    using vb' other [of c] by (simp add: ver_def)
  ultimately show thesis using r(2-5) rows by (intro that [of row b u d]) simp_all
qed

lemma commit_inv:
  assumes inv: "pub_inv E s" and tx: "c_tx s t = Ran u snap new"
    and nc: "\<not> write_conflict (inboxes snap) (inboxes new) (inboxes (c_db s))"
    and cur: "cur' = merge snap new (c_db s)"
  shows "snap_ok cur' cur'" and "chain_ok E (inbox_rows b cur')"
    and "tx_ok E (c_db s) x \<Longrightarrow> tx_ok E cur' x"
proof -
  have snap: "snap_ok (c_db s) snap" "ran_ok E snap new" "inbox_log_seq new \<le> inbox_log_seq (c_db s)"
    using inv tx by (metis pub_inv_def tx_ok.simps(3))+
  have self: "snap_ok (c_db s) (c_db s)" and chain: "\<And>b. chain_ok E (inbox_rows b (c_db s))"
    using inv by (simp_all add: pub_inv_def)
  from commit_effect [OF snap(1,2) nc, folded cur] obtain c row v d where
    log: "inbox_log cur' = inbox_log (c_db s) @ [row]" "il_InboxID row = c"
    and val: "validated E (inbox_rows c (c_db s)) v (il_IdentityUpdateProto row) d"
    and above: "\<forall>r \<in> set (inbox_rows c (c_db s)). il_SequenceID r < il_SequenceID row"
    and seq: "il_SequenceID row < inbox_log_seq new"
    and ver': "\<forall>b'. ver cur' b' = (if b' = c then Suc (ver (c_db s) c) else ver (c_db s) b')" .
  note ver = ver' [rule_format]
  have rows: "inbox_rows b' cur' = (if b' = c then inbox_rows c (c_db s) @ [row] else inbox_rows b' (c_db s))" for b'
    using log by (auto simp: inbox_rows_def)
  have seq': "inbox_log_seq cur' = inbox_log_seq (c_db s)" by (simp add: cur merge_def)
  have asc: "ascending il_SequenceID (inbox_rows b' (c_db s))" for b' using self by (simp add: snap_ok_def)
  have bound: "il_SequenceID r < inbox_log_seq (c_db s)" if "r \<in> set (inbox_log cur')" for r
    using that log seq snap(3) self by (auto simp: snap_ok_def)
  have "ascending il_SequenceID (inbox_rows b' cur')" for b' using rows above asc by simp
  with bound seq' show "snap_ok cur' cur'" by (simp add: snap_ok_def)
  show "chain_ok E (inbox_rows b cur')" using rows chain chain_ok_snoc [OF chain val] by simp
  have other: "snap_ok cur' sn" if sn: "snap_ok (c_db s) sn" for sn
  proof -
    have "ver sn b' \<le> ver cur' b' \<and> (ver sn b' = ver cur' b' \<longrightarrow> inbox_rows b' sn = inbox_rows b' cur')" for b'
    proof (cases "b' = c")
      case True
      then have "ver sn b' < ver cur' b'" using sn ver [of b'] by (simp add: snap_ok_def le_imp_less_Suc)
      then show ?thesis by simp
    next
      case False
      then show ?thesis using sn ver [of b'] rows [of b'] by (simp add: snap_ok_def)
    qed
    then show ?thesis using sn seq' by (simp add: snap_ok_def)
  qed
  show "tx_ok E (c_db s) x \<Longrightarrow> tx_ok E cur' x" by (cases x) (simp_all add: other seq')
qed

lemma pub_step_inv: "pub_step E s s' \<Longrightarrow> pub_inv E s \<Longrightarrow> pub_inv E s'"
proof (induction rule: pub_step.induct)
  case (begin_tx s t u)
  then show ?case by (simp add: pub_inv_def)
next
  case (run_tx s t u snap F now new)
  then have "snap_ok (c_db s) snap" by (metis pub_inv_def tx_ok.simps(2))
  moreover have le: "inbox_log_seq (c_db s) \<le> inbox_log_seq new" using run_tx(3) by (rule publish_tx_seq_mono)
  moreover have "inbox_log_seq new \<le> inbox_log_seq (rollback (c_db s) new)" by (simp add: rollback_def)
  ultimately show ?case
    using run_tx run_ran_ok [of "c_db s" snap E F now u new]
    by (simp add: pub_inv_def snap_ok_rollback snap_ok_rollback_self tx_ok_rollback)
next
  case (fail_tx s t u snap F now new e)
  have "inbox_log_seq (c_db s) \<le> inbox_log_seq new" using fail_tx(3) by (rule publish_tx_seq_mono)
  with fail_tx show ?case by (simp add: pub_inv_def snap_ok_rollback_self tx_ok_rollback)
next
  case (commit_tx s t u snap new)
  note c = commit_inv [OF commit_tx(3,1,2) refl]
  show ?case using c commit_tx(3) by (simp add: pub_inv_def)
qed (simp_all add: pub_inv_def)

lemma pub_reach_inv: "pub_reach E s \<Longrightarrow> pub_inv E s"
proof (induction rule: pub_reach.induct)
  case pub_init
  show ?case
    by (simp add: pub_inv_def initial_cstate_def snap_ok_def chain_ok_def inbox_rows_def empty_db_def)
qed (auto intro: pub_step_inv)

section \<open>Property\<close>

text \<open>
  C6. Concurrent identity updates never lose or skip a validation. However many publishers begin,
  wait for the advisory lock, run on a stale snapshot, fail, abort, retry and commit, in every
  reachable state the committed log of every inbox is a chain of at most 256 entries in which each
  entry was accepted by the validation service on top of exactly the entries before it, numbered
  in that order.
\<close>

theorem publish_serializable:
  assumes "pub_reach E s"
  shows "chain_ok E (inbox_rows b (c_db s)) \<and> ascending il_SequenceID (inbox_rows b (c_db s))"
  using pub_reach_inv [OF assms] by (simp add: pub_inv_def snap_ok_def)

definition test_new :: mls_db where
  "test_new = fst (publish_tx test_env_id no_publish_faults 5 [1, 2] empty_db)"

definition test_committed :: "bytes cstate" where
  "test_committed = initial_cstate\<lparr>c_db := merge empty_db test_new (rollback empty_db test_new)\<rparr>"

lemmas publish_eval = publish_tx_def write_update_def test_env_id_def no_publish_faults_def LockInboxLog_def
  GetAllInboxLogs_def InsertInboxLog_def InsertAddressLog_def TouchInbox_def pg_space_def hex_val_def
  rollback_def empty_db_def select_asc_def Let_def

lemma test_run: "publish_tx test_env_id no_publish_faults 5 [1, 2] (rollback empty_db empty_db) = (test_new, Inr ())"
  by (simp add: test_new_def publish_eval)

lemma test_committed_reach: "pub_reach test_env_id test_committed"
proof -
  let ?E = test_env_id
  let ?s0 = "initial_cstate :: bytes cstate"
  let ?s1 = "?s0\<lparr>c_tx := (c_tx ?s0)(0 := Begun [1, 2] (c_db ?s0))\<rparr>"
  let ?s2 = "?s1\<lparr>c_lock := (c_lock ?s1)(update_inbox ?E [1, 2] \<mapsto> 0)\<rparr>"
  let ?s3 = "?s2\<lparr>c_db := rollback (c_db ?s2) test_new, c_tx := (c_tx ?s2)(0 := Ran [1, 2] empty_db test_new)\<rparr>"
  let ?s4 = "?s3\<lparr>c_db := merge empty_db test_new (c_db ?s3), c_tx := (c_tx ?s3)(0 := Idle),
      c_lock := release 0 (c_lock ?s3)\<rparr>"
  have db: "c_db ?s0 = empty_db" by (simp add: initial_cstate_def)
  have "pub_reach ?E ?s1"
    by (rule pub_next [OF pub_init begin_tx]) (simp add: initial_cstate_def)
  then have "pub_reach ?E ?s2"
    by (rule pub_next [OF _ lock_tx [where u = "[1, 2]" and t = 0]]) (simp_all add: initial_cstate_def)
  then have "pub_reach ?E ?s3"
    by (rule pub_next [OF _ run_tx [where snap = empty_db and F = no_publish_faults and now = 5]])
      (simp_all add: db test_run del: rollback_self)
  then have "pub_reach ?E ?s4"
    by (rule pub_next [OF _ commit_tx [where t = 0 and u = "[1, 2]"]])
      (simp_all add: write_conflict_def list_ex_iff inbox_lookup_def test_new_def publish_eval initial_cstate_def)
  moreover have "?s4 = test_committed"
    by (simp add: test_committed_def initial_cstate_def release_def fun_eq_iff)
  ultimately show ?thesis by simp
qed

theorem publish_serializable_witness:
  "length (inbox_rows [0xAB] (c_db test_committed)) = 1 \<and>
   chain_ok test_env_id (inbox_rows [0xAB] (c_db test_committed))"
proof -
  have "length (inbox_rows [0xAB] (c_db test_committed)) = 1"
    by (simp add: test_committed_def merge_def inbox_rows_def test_new_def publish_eval initial_cstate_def)
  then show ?thesis using publish_serializable [OF test_committed_reach, of "[0xAB]"] by blast
qed

end
