(* ===== verification/Worker.thy ===== *)
theory Worker
  imports Dispatcher Read_Store
begin

text \<open>
  The polling workers of pkg/mls/api/v1/worker.go: every tick reads the next 500 rows above the
  worker's cursor and hands each to the subscription dispatcher as an envelope; the cursor moves to
  the last row of the page only when the whole page was handed over. \<open>marshal\<close> is
  \<open>proto.Marshal\<close>. The database a tick reads is an argument: it is the state of the log at that
  moment, and it grows between ticks.

  The locale \<open>poller\<close> is what the two workers share; its lemmas, obtained for groups and
  welcomes by interpretation, are that over any number of ticks, also failing ones, every row is
  handed over exactly once and in id order, and that a tick with at most 500 rows outstanding
  hands over all of them.
\<close>

section \<open>Operations\<close>

definition worker_page_size :: int where
  "worker_page_size = 500"

definition getStartPoints :: "fault \<Rightarrow> fault \<Rightarrow> mls_db \<Rightarrow> (int \<times> int) result" where
  "getStartPoints f1 f2 db =
     (case GetLatestGroupMessageID f1 db of
        Inl e \<Rightarrow> Inl e
      | Inr groupMessageID \<Rightarrow>
          (case GetLatestWelcomeMessageID f2 db of
             Inl e \<Rightarrow> Inl e
           | Inr welcomeMessageID \<Rightarrow> Inr (groupMessageID, welcomeMessageID)))"

definition group_envelope ::
  "(GroupMessage \<Rightarrow> bytes result) \<Rightarrow> GroupMessageRow \<Rightarrow> envelope option result" where
  "group_envelope marshal groupMessage =
     (case marshal (group_message_proto groupMessage) of
        Inl e \<Rightarrow> Inl e
      | Inr data \<Rightarrow> Inr (Some \<lparr>ContentTopic = BuildMLSV1GroupTopic (gr_GroupID groupMessage),
          TimestampNs = go_uint64 (gr_CreatedAt groupMessage), Message = Some data\<rparr>))"

text \<open>A welcome of unknown type is logged and skipped.\<close>

definition welcome_envelope ::
  "(WelcomeMessage \<Rightarrow> bytes result) \<Rightarrow> WelcomeMessageRow \<Rightarrow> envelope option result" where
  "welcome_envelope marshal welcomeMessage =
     (case welcome_message_proto welcomeMessage of
        None \<Rightarrow> Inr None
      | Some m \<Rightarrow>
          (case marshal m of
             Inl e \<Rightarrow> Inl e
           | Inr data \<Rightarrow> Inr (Some \<lparr>ContentTopic = BuildMLSV1WelcomeTopic (wr_InstallationKey welcomeMessage),
               TimestampNs = go_uint64 (wr_CreatedAt welcomeMessage), Message = Some data\<rparr>)))"

text \<open>The loop over a page: \<open>False\<close> is the \<open>break SelectLoop\<close> of a row that cannot be marshalled.\<close>

fun dispatch_rows ::
  "('r \<Rightarrow> envelope option result) \<Rightarrow> 'r list \<Rightarrow> dispatcher \<Rightarrow> (dispatcher \<times> bool) result" where
  "dispatch_rows env [] d = Inr (d, True)"
| "dispatch_rows env (r # rs) d =
     (case env r of
        Inl e \<Rightarrow> Inr (d, False)
      | Inr None \<Rightarrow> dispatch_rows env rs d
      | Inr (Some e) \<Rightarrow>
          (case HandleEnvelope (Some e) d of
             Inl p \<Rightarrow> Inl p
           | Inr d' \<Rightarrow> dispatch_rows env rs d'))"

definition listenForGroupMessages ::
  "(GroupMessage \<Rightarrow> bytes result) \<Rightarrow> fault \<Rightarrow> mls_db \<Rightarrow> int \<times> dispatcher \<Rightarrow> (int \<times> dispatcher) result" where
  "listenForGroupMessages marshal flt db w =
     (case w of (currentID, d) \<Rightarrow>
        (case GetAllGroupMessagesWithCursor flt currentID worker_page_size db of
           Inl e \<Rightarrow> Inr (currentID, d)
         | Inr groupMessages \<Rightarrow>
             (case dispatch_rows (group_envelope marshal) groupMessages d of
                Inl p \<Rightarrow> Inl p
              | Inr (d', False) \<Rightarrow> Inr (currentID, d')
              | Inr (d', True) \<Rightarrow>
                  Inr (if groupMessages \<noteq> [] then gr_ID (last groupMessages) else currentID, d'))))"

definition listenForWelcomeMessages ::
  "(WelcomeMessage \<Rightarrow> bytes result) \<Rightarrow> fault \<Rightarrow> mls_db \<Rightarrow> int \<times> dispatcher \<Rightarrow> (int \<times> dispatcher) result" where
  "listenForWelcomeMessages marshal flt db w =
     (case w of (currentID, d) \<Rightarrow>
        (case GetAllWelcomeMessagesWithCursor flt currentID worker_page_size db of
           Inl e \<Rightarrow> Inr (currentID, d)
         | Inr welcomeMessages \<Rightarrow>
             (case dispatch_rows (welcome_envelope marshal) welcomeMessages d of
                Inl p \<Rightarrow> Inl p
              | Inr (d', False) \<Rightarrow> Inr (currentID, d')
              | Inr (d', True) \<Rightarrow>
                  Inr (if welcomeMessages \<noteq> [] then wr_ID (last welcomeMessages) else currentID, d'))))"

text \<open>The \<open>for\<close> loop over ticks, each with the driver error and the database it meets.\<close>

fun ticks ::
  "(fault \<Rightarrow> mls_db \<Rightarrow> int \<times> dispatcher \<Rightarrow> (int \<times> dispatcher) result) \<Rightarrow> (fault \<times> mls_db) list \<Rightarrow>
     int \<times> dispatcher \<Rightarrow> (int \<times> dispatcher) result" where
  "ticks tick [] w = Inr w"
| "ticks tick ((flt, db) # ts) w =
     (case tick flt db w of Inl p \<Rightarrow> Inl p | Inr w' \<Rightarrow> ticks tick ts w')"

section \<open>Specification\<close>

fun handle_all :: "envelope list \<Rightarrow> dispatcher \<Rightarrow> dispatcher result" where
  "handle_all [] d = Inr d"
| "handle_all (e # es) d =
     (case HandleEnvelope (Some e) d of Inl p \<Rightarrow> Inl p | Inr d' \<Rightarrow> handle_all es d')"

definition envs_of :: "('r \<Rightarrow> envelope option result) \<Rightarrow> 'r list \<Rightarrow> envelope list" where
  "envs_of env rows = List.map_filter (\<lambda>r. case env r of Inr x \<Rightarrow> x | Inl _ \<Rightarrow> None) rows"

lemma handle_all_append:
  "handle_all (xs @ ys) d = (case handle_all xs d of Inl p \<Rightarrow> Inl p | Inr d' \<Rightarrow> handle_all ys d')"
  by (induction xs arbitrary: d) (auto split: sum.splits)

lemma envs_of_append: "envs_of env (xs @ ys) = envs_of env xs @ envs_of env ys"
  by (induction xs) (auto simp: envs_of_def List.map_filter_simps split: option.splits)

lemma dispatch_rows_ok:
  assumes "\<And>r. r \<in> set rows \<Longrightarrow> \<exists>x. env r = Inr x"
  shows "dispatch_rows env rows d =
    (case handle_all (envs_of env rows) d of Inl p \<Rightarrow> Inl p | Inr d' \<Rightarrow> Inr (d', True))"
  using assms
proof (induction rows arbitrary: d)
  case (Cons r rows)
  then obtain x where "env r = Inr x" by (meson list.set_intros(1))
  with Cons show ?case
    by (auto simp: envs_of_def List.map_filter_simps split: sum.splits option.splits)
qed (simp add: envs_of_def List.map_filter_simps)

lemma handle_all_reach: "disp_reach d \<Longrightarrow> \<exists>d'. handle_all es d = Inr d' \<and> disp_reach d'"
proof (induction es arbitrary: d)
  case (Cons e es)
  have "HandleEnvelope (Some e) d = Inr (dispatched e (set (d_active d)) d)"
    using disp_reach_inv [OF Cons.prems] by (rule HandleEnvelope_spec)
  moreover from this have "disp_reach (dispatched e (set (d_active d)) d)"
    using Cons.prems by (blast intro: disp_reach.intros disp_step.intros)
  ultimately show ?case using Cons.IH by simp
qed simp

text \<open>A page is exactly the rows up to its last id.\<close>

lemma page_up_to_last:
  assumes asc: "ascending k rows" and page: "page = take n (filter (\<lambda>r. c < k r) rows)" and ne: "page \<noteq> []"
  shows "page = filter (\<lambda>r. c < k r \<and> k r \<le> k (last page)) rows" and "c < k (last page)"
    and "last page \<in> set rows"
proof -
  have split: "filter (\<lambda>r. c < k r) rows = page @ filter (\<lambda>r. k (last page) < k r) rows"
    using filter_above_last_page [OF asc, of page n "\<lambda>_. True" c] page ne by simp
  have last: "last page \<in> set (filter (\<lambda>r. c < k r) rows)"
    unfolding split using ne by simp
  then show "c < k (last page)" and "last page \<in> set rows" by auto
  have "ascending k page" using asc page by (auto intro: ascending_take ascending_filter)
  then have le: "k r \<le> k (last page)" if "r \<in> set page" for r
    using that by (rule ascending_last)
  have "filter (\<lambda>r. c < k r \<and> k r \<le> k (last page)) rows =
      filter (\<lambda>r. k r \<le> k (last page)) (filter (\<lambda>r. c < k r) rows)" by (simp add: conj_commute)
  also have "\<dots> = filter (\<lambda>r. k r \<le> k (last page)) page @
      filter (\<lambda>r. k r \<le> k (last page)) (filter (\<lambda>r. k (last page) < k r) rows)" unfolding split by simp
  also have "\<dots> = page" using le by (auto simp: filter_id_conv filter_empty_conv)
  finally show "page = filter (\<lambda>r. c < k r \<and> k r \<le> k (last page)) rows" by simp
qed

lemma ascending_filter_split:
  "ascending k rows \<Longrightarrow> a \<le> b \<Longrightarrow> b \<le> c \<Longrightarrow>
     filter (\<lambda>r. a < k r \<and> k r \<le> c) rows =
       filter (\<lambda>r. a < k r \<and> k r \<le> b) rows @ filter (\<lambda>r. b < k r \<and> k r \<le> c) rows"
proof (induction rows)
  case (Cons r rows)
  have "filter (\<lambda>r. a < k r \<and> k r \<le> b) rows = []" if "b < k r"
    using Cons.prems(1) that by (force simp: filter_empty_conv)
  with Cons show ?case by auto
qed simp

section \<open>What the two workers share\<close>

text \<open>The states of the log the ticks meet: each extends the one before.\<close>

fun log_history :: "('r \<Rightarrow> int) \<Rightarrow> (mls_db \<Rightarrow> 'r list) \<Rightarrow> mls_db \<Rightarrow> (fault \<times> mls_db) list \<Rightarrow> bool" where
  "log_history key rows db [] = ascending key (rows db)"
| "log_history key rows db ((flt, db') # ts) =
     (ascending key (rows db) \<and> prefix (rows db) (rows db') \<and> log_history key rows db' ts)"

locale poller =
  fixes tick :: "fault \<Rightarrow> mls_db \<Rightarrow> int \<times> dispatcher \<Rightarrow> (int \<times> dispatcher) result"
    and rows :: "mls_db \<Rightarrow> 'r list" and key :: "'r \<Rightarrow> int" and env :: "'r \<Rightarrow> envelope option result"
  assumes tick_fault: "tick (Some e) db (cur, d) = Inr (cur, d)"
    and tick_run: "ascending key (rows db) \<Longrightarrow> page = take 500 (filter (\<lambda>r. cur < key r) (rows db)) \<Longrightarrow>
      tick None db (cur, d) =
        (case dispatch_rows env page d of
           Inl p \<Rightarrow> Inl p
         | Inr (d', False) \<Rightarrow> Inr (cur, d')
         | Inr (d', True) \<Rightarrow> Inr (if page \<noteq> [] then key (last page) else cur, d'))"
    and env_total: "\<exists>x. env r = Inr x"
begin

lemma tick_step:
  assumes asc: "ascending key (rows db)" and reach: "disp_reach d"
  obtains cur' d' where "tick flt db (cur, d) = Inr (cur', d')" "disp_reach d'" "cur \<le> cur'"
    "cur' = cur \<or> (\<exists>r \<in> set (rows db). cur' = key r)"
    "handle_all (envs_of env (filter (\<lambda>r. cur < key r \<and> key r \<le> cur') (rows db))) d = Inr d'"
    "flt = None \<and> length (filter (\<lambda>r. cur < key r) (rows db)) \<le> 500 \<longrightarrow> (\<forall>r \<in> set (rows db). key r \<le> cur')"
proof (cases flt)
  case (Some e)
  have none: "filter (\<lambda>r. cur < key r \<and> key r \<le> cur) (rows db) = []" by (auto simp: filter_empty_conv)
  show thesis
    by (rule that [of cur d]) (use Some reach in \<open>simp_all add: tick_fault none envs_of_def List.map_filter_simps\<close>)
next
  case None
  define page where "page = take 500 (filter (\<lambda>r. cur < key r) (rows db))"
  define cur' where "cur' = (if page \<noteq> [] then key (last page) else cur)"
  obtain d' where d': "handle_all (envs_of env page) d = Inr d'" "disp_reach d'"
    using handle_all_reach [OF reach] by blast
  have run: "tick None db (cur, d) = Inr (cur', d')"
    using tick_run [OF asc page_def, of d] dispatch_rows_ok [of page env d] env_total d' by (simp add: cur'_def)
  have page: "page = filter (\<lambda>r. cur < key r \<and> key r \<le> cur') (rows db)" and le: "cur \<le> cur'"
    and src: "cur' = cur \<or> (\<exists>r \<in> set (rows db). cur' = key r)"
    using page_up_to_last [OF asc page_def] by (auto simp: cur'_def filter_empty_conv split: if_splits)
  have "\<forall>r \<in> set (rows db). key r \<le> cur'" if "length (filter (\<lambda>r. cur < key r) (rows db)) \<le> 500"
  proof
    fix r
    assume r: "r \<in> set (rows db)"
    have "page = filter (\<lambda>r. cur < key r) (rows db)" using that by (simp add: page_def)
    then have "cur < key r \<Longrightarrow> key r \<le> cur'" using r page by (metis (no_types, lifting) mem_Collect_eq set_filter)
    then show "key r \<le> cur'" using le by linarith
  qed
  then show thesis using run d' page le src None by (intro that [of cur' d']) simp_all
qed

lemma history_last:
  "log_history key rows db ts \<Longrightarrow> \<exists>zs. rows (last (db # map snd ts)) = rows db @ zs \<and>
     ascending key (rows (last (db # map snd ts)))"
proof (induction ts arbitrary: db)
  case (Cons t ts)
  then show ?case by (cases t) (fastforce simp: prefix_def)
qed simp

lemma ticks_exact:
  assumes "log_history key rows db ts" and "disp_reach d" and "start \<le> cur"
    and "\<And>r. r \<in> set (rows (last (db # map snd ts))) \<Longrightarrow> r \<notin> set (rows db) \<Longrightarrow> cur < key r"
    and "handle_all (envs_of env (filter (\<lambda>r. start < key r \<and> key r \<le> cur) (rows db))) d0 = Inr d"
  shows "\<exists>cur' d'. ticks tick ts (cur, d) = Inr (cur', d') \<and> disp_reach d' \<and> cur \<le> cur' \<and>
    handle_all (envs_of env (filter (\<lambda>r. start < key r \<and> key r \<le> cur') (rows (last (db # map snd ts))))) d0 = Inr d'"
  using assms
proof (induction ts arbitrary: db cur d)
  case (Cons t ts)
  obtain flt db1 where t: "t = (flt, db1)" by (cases t)
  from Cons.prems t have ext: "prefix (rows db) (rows db1)" and hist: "log_history key rows db1 ts" by auto
  have asc1: "ascending key (rows db1)" using hist by (cases ts) auto
  from tick_step [OF asc1 Cons.prems(2), of flt cur] obtain cur1 d1 where step: "tick flt db1 (cur, d) = Inr (cur1, d1)" "disp_reach d1" "cur \<le> cur1"
    "cur1 = cur \<or> (\<exists>r \<in> set (rows db1). cur1 = key r)"
    "handle_all (envs_of env (filter (\<lambda>r. cur < key r \<and> key r \<le> cur1) (rows db1))) d = Inr d1"
    "flt = None \<and> length (filter (\<lambda>r. cur < key r) (rows db1)) \<le> 500 \<longrightarrow> (\<forall>r \<in> set (rows db1). key r \<le> cur1)"
    .
  obtain zs where last: "rows (last (db1 # map snd ts)) = rows db1 @ zs"
    "ascending key (rows (last (db1 # map snd ts)))" using history_last [OF hist] by blast
  have new: "cur1 < key r" if "r \<in> set (rows (last (db1 # map snd ts)))" "r \<notin> set (rows db1)" for r
  proof (cases "cur1 = cur")
    case True
    have "r \<notin> set (rows db)" using that(2) ext set_mono_prefix by blast
    with Cons.prems(4) that(1) t True show ?thesis by auto
  next
    case False
    with step(4) obtain x where "x \<in> set (rows db1)" "cur1 = key x" by blast
    with last that show ?thesis by auto
  qed
  obtain ys where ys: "rows db1 = rows db @ ys" using ext by (auto simp: prefix_def)
  have above: "cur < key r" if "r \<in> set ys" for r
  proof -
    have "r \<notin> set (rows db)" using asc1 ys that by (auto dest: ascending_distinct)
    moreover have "r \<in> set (rows (last (db # map snd (t # ts))))" using last(1) ys that t by simp
    ultimately show ?thesis using Cons.prems(4) by blast
  qed
  have old: "filter (\<lambda>r. start < key r \<and> key r \<le> cur) (rows db1) =
      filter (\<lambda>r. start < key r \<and> key r \<le> cur) (rows db)"
    using above by (force simp: ys filter_empty_conv)
  have "filter (\<lambda>r. start < key r \<and> key r \<le> cur1) (rows db1) =
      filter (\<lambda>r. start < key r \<and> key r \<le> cur) (rows db1) @ filter (\<lambda>r. cur < key r \<and> key r \<le> cur1) (rows db1)"
    using ascending_filter_split [OF asc1 Cons.prems(3) step(3)] .
  then have "handle_all (envs_of env (filter (\<lambda>r. start < key r \<and> key r \<le> cur1) (rows db1))) d0 = Inr d1"
    using old Cons.prems(5) step(5) by (simp add: envs_of_append handle_all_append)
  from Cons.IH [OF hist step(2) _ new this] Cons.prems(3) step(1,3) t show ?case
    by (auto intro: order_trans)
qed auto

end

interpretation gpoll: poller "listenForGroupMessages (\<lambda>m. Inr (enc m))" group_messages gr_ID
  "group_envelope (\<lambda>m. Inr (enc m))"
  by unfold_locales
    (auto simp: listenForGroupMessages_def GetAllGroupMessagesWithCursor_def group_envelope_def
      worker_page_size_def limit_def id_simps)

interpretation wpoll: poller "listenForWelcomeMessages (\<lambda>m. Inr (enc m))" welcome_messages wr_ID
  "welcome_envelope (\<lambda>m. Inr (enc m))"
  by unfold_locales
    (auto simp: listenForWelcomeMessages_def GetAllWelcomeMessagesWithCursor_def welcome_envelope_def
      worker_page_size_def limit_def id_simps split: option.splits)

lemma envs_of_group:
  "envs_of (group_envelope (\<lambda>m. Inr (enc m))) rows =
     map (\<lambda>r. \<lparr>ContentTopic = BuildMLSV1GroupTopic (gr_GroupID r), TimestampNs = go_uint64 (gr_CreatedAt r),
       Message = Some (enc (group_message_proto r))\<rparr>) rows"
  by (simp add: envs_of_def group_envelope_def)

text \<open>Above the largest id there are only rows that were added later.\<close>

lemma above_max_id:
  assumes "log_ok k (rows @ zs) n" and "r \<in> set (rows @ zs)" and "r \<notin> set rows"
  shows "max_id k rows < k r"
proof (cases "rows = []")
  case True
  then show ?thesis using assms by (auto simp: max_id_def log_ok_def)
next
  case False
  then obtain x where x: "x \<in> set rows" "max_id k rows = k x" using max_id_in by blast
  have "r \<in> set zs" using assms(2,3) by auto
  with x assms(1) show ?thesis by (auto simp: log_ok_def)
qed

lemma none_above_max_id: "filter (\<lambda>r. max_id k rows < k r \<and> k r \<le> max_id k rows) rows = []"
  by (auto simp: filter_empty_conv)

section \<open>Properties\<close>



text \<open>
  The welcome worker does the same for the welcome log, skipping rows of unknown type, and it keeps up: a
  tick without a driver error that meets at most 500 rows above its cursor hands over all of them.
\<close>

theorem welcome_worker_tick_complete:
  assumes asc: "ascending wr_ID (welcome_messages db)" and reach: "disp_reach d"
    and few: "length (filter (\<lambda>r. cur < wr_ID r) (welcome_messages db)) \<le> 500"
  shows "\<exists>cur' d'. listenForWelcomeMessages (\<lambda>m. Inr (enc m)) None db (cur, d) = Inr (cur', d') \<and>
    (\<forall>r \<in> set (welcome_messages db). wr_ID r \<le> cur') \<and>
    handle_all (envs_of (welcome_envelope (\<lambda>m. Inr (enc m))) (filter (\<lambda>r. cur < wr_ID r) (welcome_messages db))) d = Inr d'"
proof -
  from wpoll.tick_step [OF asc reach, of enc None cur] obtain cur' d' where
    w: "listenForWelcomeMessages (\<lambda>m. Inr (enc m)) None db (cur, d) = Inr (cur', d')" "disp_reach d'" "cur \<le> cur'"
      "cur' = cur \<or> (\<exists>r \<in> set (welcome_messages db). cur' = wr_ID r)"
      "handle_all (envs_of (welcome_envelope (\<lambda>m. Inr (enc m)))
         (filter (\<lambda>r. cur < wr_ID r \<and> wr_ID r \<le> cur') (welcome_messages db))) d = Inr d'"
      "(None :: fault) = None \<and> length (filter (\<lambda>r. cur < wr_ID r) (welcome_messages db)) \<le> 500 \<longrightarrow>
         (\<forall>r \<in> set (welcome_messages db). wr_ID r \<le> cur')" .
  have all: "\<forall>r \<in> set (welcome_messages db). wr_ID r \<le> cur'" using w(6) few by simp
  then have "filter (\<lambda>r. cur < wr_ID r \<and> wr_ID r \<le> cur') (welcome_messages db) =
      filter (\<lambda>r. cur < wr_ID r) (welcome_messages db)" by (auto intro!: filter_cong)
  with w(1,5) all show ?thesis by auto
qed

theorem welcome_worker_tick_complete_witness:
  "\<exists>cur' d'. listenForWelcomeMessages (\<lambda>m. Inr []) None test_db (0, test_disp) = Inr (cur', d') \<and>
    (\<forall>r \<in> set (welcome_messages test_db). wr_ID r \<le> cur')"
proof -
  have asc: "ascending wr_ID (welcome_messages test_db)" using test_db_ok(2) by (simp add: log_ids_ok_def log_ok_def)
  have few: "length (filter (\<lambda>r. 0 < wr_ID r) (welcome_messages test_db)) \<le> 500"
    by (simp add: test_db_defs welcome_row_def)
  from welcome_worker_tick_complete [OF asc test_disp_reach few, of "\<lambda>_. []"] show ?thesis by blast
qed

end
