(* ===== verification/Insert_Concurrency.thy ===== *)
theory Insert_Concurrency
  imports Worker
begin

text \<open>
  Concurrent inserts of group messages, at the level of Postgres transactions: the function
  \<open>insert_group_message_v3\<close> (pkg/migrations/mls), which \<open>InsertGroupMessage\<close> of
  pkg/mls/store/queries/queries.sql.go calls, first takes an advisory lock that is keyed by the hash of the
  group id, then draws the id from the table's sequence, and holds the lock until it commits. Between
  the two the row is invisible to all others, and inserts of other groups draw ids and commit.

  Elsewhere in the development an insert is one step. This theory shows what that hides: within a group
  ids become visible in order, so the cursor of a group is safe whatever overlaps; across groups
  they do not, and the worker, which polls all groups with one cursor, never sees a row that commits after
  a row with a larger id was polled.
\<close>

section \<open>Transactions\<close>

text \<open>\<open>is_db\<close> has the committed rows and the sequence, \<open>is_open\<close> the rows that are inserted but not committed.\<close>

record insert_state =
  is_db :: mls_db
  is_open :: "GroupMessageRow list"

definition no_inserts :: insert_state where
  "no_inserts = \<lparr>is_db = empty_db, is_open = []\<rparr>"

text \<open>A statement that fails has used up its id.\<close>

definition begin_insert :: "int \<Rightarrow> bytes \<Rightarrow> bytes \<Rightarrow> bytes \<Rightarrow> bytes \<Rightarrow> bool \<Rightarrow> bool \<Rightarrow> insert_state \<Rightarrow> insert_state" where
  "begin_insert now groupID data hash senderHmac shouldPush isCommit s =
     (case InsertGroupMessage None now groupID data hash senderHmac shouldPush isCommit (is_db s) of
        (db', Inl e) \<Rightarrow> s\<lparr>is_db := db'\<rparr>
      | (db', Inr row) \<Rightarrow> s\<lparr>is_db := (is_db s)\<lparr>group_messages_seq := group_messages_seq db'\<rparr>, is_open := is_open s @ [row]\<rparr>)"

definition commit_insert :: "GroupMessageRow \<Rightarrow> insert_state \<Rightarrow> insert_state" where
  "commit_insert row s =
     s\<lparr>is_db := (is_db s)\<lparr>group_messages := insort_key gr_ID row (group_messages (is_db s))\<rparr>, is_open := remove1 row (is_open s)\<rparr>"

text \<open>
  \<open>lock\<close> is the key of a group's advisory lock. An insert waits while another holds its lock, or
  has inserted the same hash and not yet committed.
\<close>

inductive insert_step :: "(bytes \<Rightarrow> int) \<Rightarrow> insert_state \<Rightarrow> insert_state \<Rightarrow> bool" for lock where
  start_insert: "\<forall>r \<in> set (is_open s). lock (gr_GroupID r) \<noteq> lock g \<and> gr_GroupIDDataHash r \<noteq> hash \<Longrightarrow>
     insert_step lock s (begin_insert now g data hash senderHmac shouldPush isCommit s)"
| finish_insert: "row \<in> set (is_open s) \<Longrightarrow> insert_step lock s (commit_insert row s)"
| abort_insert: "row \<in> set (is_open s) \<Longrightarrow> insert_step lock s (s\<lparr>is_open := remove1 row (is_open s)\<rparr>)"

abbreviation insert_steps :: "(bytes \<Rightarrow> int) \<Rightarrow> insert_state \<Rightarrow> insert_state \<Rightarrow> bool" where
  "insert_steps lock \<equiv> (insert_step lock)\<^sup>*\<^sup>*"

definition group_rows :: "bytes \<Rightarrow> insert_state \<Rightarrow> GroupMessageRow list" where
  "group_rows g s = filter (\<lambda>r. gr_GroupID r = g) (group_messages (is_db s))"

section \<open>Invariant\<close>

text \<open>
  Ids are unique and below the sequence; no two open inserts share a lock; and an open insert is above every
  committed row of its own lock.
\<close>

definition insert_inv :: "(bytes \<Rightarrow> int) \<Rightarrow> insert_state \<Rightarrow> bool" where
  "insert_inv lock s \<longleftrightarrow>
     ascending gr_ID (group_messages (is_db s)) \<and>
     sorted_wrt (\<lambda>r r'. gr_ID r < gr_ID r' \<and> lock (gr_GroupID r) \<noteq> lock (gr_GroupID r')) (is_open s) \<and>
     0 < group_messages_seq (is_db s) \<and>
     (\<forall>r \<in> set (group_messages (is_db s)) \<union> set (is_open s). 0 < gr_ID r \<and> gr_ID r < group_messages_seq (is_db s)) \<and>
     (\<forall>r \<in> set (is_open s). \<forall>r' \<in> set (group_messages (is_db s)).
        gr_ID r' \<noteq> gr_ID r \<and> (lock (gr_GroupID r') = lock (gr_GroupID r) \<longrightarrow> gr_ID r' < gr_ID r))"

lemma insert_inv_initial: "insert_inv lock no_inserts"
  by (simp add: insert_inv_def no_inserts_def empty_db_def)

lemma sorted_wrt_remove1: "sorted_wrt R xs \<Longrightarrow> sorted_wrt R (remove1 x xs)"
proof (induction xs)
  case (Cons a xs)
  then show ?case using set_remove1_subset [of x xs] by auto
qed simp

lemma ascending_insort:
  "ascending k rows \<Longrightarrow> \<forall>r \<in> set rows. k r \<noteq> k x \<Longrightarrow> ascending k (insort_key k x rows)"
  by (induction rows) (auto simp: set_insort_key)

lemma insort_snoc: "\<forall>r \<in> set rows. k r < k x \<Longrightarrow> insort_key k x rows = rows @ [x]"
  by (induction rows) auto

text \<open>What the invariant says of one row that is still open.\<close>

lemma insert_inv_open:
  assumes "insert_inv lock s" and "row \<in> set (is_open s)"
  shows "r \<in> set (group_messages (is_db s)) \<Longrightarrow> gr_ID r \<noteq> gr_ID row"
    and "r \<in> set (group_messages (is_db s)) \<Longrightarrow> lock (gr_GroupID r) = lock (gr_GroupID row) \<Longrightarrow> gr_ID r < gr_ID row"
    and "0 < gr_ID row" and "gr_ID row < group_messages_seq (is_db s)"
    and "r \<in> set (remove1 row (is_open s)) \<Longrightarrow> gr_ID r \<noteq> gr_ID row \<and> lock (gr_GroupID r) \<noteq> lock (gr_GroupID row)"
proof -
  assume r: "r \<in> set (remove1 row (is_open s))"
  obtain xs ys where o: "is_open s = xs @ row # ys" "row \<notin> set xs" using assms(2) by (meson split_list_first)
  then have "r \<in> set xs \<union> set ys" using r by (simp add: remove1_append)
  then show "gr_ID r \<noteq> gr_ID row \<and> lock (gr_GroupID r) \<noteq> lock (gr_GroupID row)"
    using assms(1) o(1) unfolding insert_inv_def by (auto simp: sorted_wrt_append)
qed (use assms in \<open>simp_all add: insert_inv_def\<close>)

lemma insert_inv_start:
  assumes "insert_inv lock s" and "\<forall>r \<in> set (is_open s). lock (gr_GroupID r) \<noteq> lock g"
  shows "insert_inv lock (begin_insert now g data hash senderHmac shouldPush isCommit s)"
proof -
  have lt: "gr_ID r < group_messages_seq (is_db s)" "gr_ID r \<le> group_messages_seq (is_db s)" "gr_ID r \<noteq> group_messages_seq (is_db s)"
    if "r \<in> set (group_messages (is_db s)) \<or> r \<in> set (is_open s)" for r
    using assms(1) that by (auto simp: insert_inv_def ball_Un)
  then show ?thesis using assms
    by (auto simp: begin_insert_def InsertGroupMessage_def insert_inv_def Let_def sorted_wrt_append ball_Un)
qed

lemma insert_inv_remove: "insert_inv lock s \<Longrightarrow> insert_inv lock (s\<lparr>is_open := remove1 row (is_open s)\<rparr>)"
  using set_remove1_subset [of row "is_open s"] by (auto simp: insert_inv_def sorted_wrt_remove1)

lemma insert_inv_finish:
  assumes "insert_inv lock s" and "row \<in> set (is_open s)"
  shows "insert_inv lock (commit_insert row s)"
proof -
  have rem: "insert_inv lock (s\<lparr>is_open := remove1 row (is_open s)\<rparr>)" by (rule insert_inv_remove [OF assms(1)])
  have "ascending gr_ID (insort_key gr_ID row (group_messages (is_db s)))"
    using rem insert_inv_open(1) [OF assms] by (intro ascending_insort) (auto simp: insert_inv_def)
  then show ?thesis using rem insert_inv_open(3,4) [OF assms] insert_inv_open(5) [OF assms]
    unfolding insert_inv_def commit_insert_def by (simp add: set_insort_key) metis
qed

lemma insert_inv_step: "insert_step lock s s' \<Longrightarrow> insert_inv lock s \<Longrightarrow> insert_inv lock s'"
  by (induction rule: insert_step.induct) (simp_all add: insert_inv_start insert_inv_remove insert_inv_finish)

lemma insert_inv_steps: "insert_steps lock s s' \<Longrightarrow> insert_inv lock s \<Longrightarrow> insert_inv lock s'"
  by (induction rule: rtranclp_induct) (auto intro: insert_inv_step)

lemma insert_inv_reach: "insert_steps lock no_inserts s \<Longrightarrow> insert_inv lock s"
  using insert_inv_steps insert_inv_initial by blast

section \<open>Within a group\<close>

lemma group_rows_step:
  assumes "insert_step lock s s'" and "insert_inv lock s"
  shows "prefix (group_rows g s) (group_rows g s')"
  using assms
proof (cases rule: insert_step.cases)
  case (finish_insert row)
  have asc: "ascending gr_ID (group_messages (is_db s))" using assms(2) by (simp add: insert_inv_def)
  then have sorted: "sorted (map gr_ID (group_messages (is_db s)))" by (simp add: ascending_def strict_sorted_imp_sorted)
  show ?thesis
  proof (cases "gr_GroupID row = g")
    case True
    then have "\<forall>r \<in> set (group_rows g s). gr_ID r < gr_ID row"
      using assms(2) finish_insert(2) by (auto simp: insert_inv_def group_rows_def)
    then show ?thesis using True finish_insert(1) sorted by (simp add: group_rows_def commit_insert_def filter_insort insort_snoc)
  qed (use finish_insert(1) in \<open>simp add: group_rows_def commit_insert_def filter_insort_triv\<close>)
qed (auto simp: group_rows_def begin_insert_def InsertGroupMessage_def Let_def)

lemma group_rows_steps:
  "insert_steps lock s s' \<Longrightarrow> insert_inv lock s \<Longrightarrow> prefix (group_rows g s) (group_rows g s')"
proof (induction rule: rtranclp_induct)
  case (step s1 s2)
  then show ?case using group_rows_step insert_inv_steps by (metis prefix_order.trans)
qed simp

text \<open>
  C12. The lock does what its comment promises for each group: whatever inserts overlap and abort, the rows of a
  group become visible in the order of their ids. So a reader that has all visible rows of a group and
  continues from the newest of their ids gets exactly the rows that became visible since, in order.
\<close>

theorem group_cursor_safe:
  assumes "insert_steps lock no_inserts s" and "insert_steps lock s s'"
  shows "\<exists>new. group_rows g s' = group_rows g s @ new \<and>
    (\<forall>n. QueryGroupMessagesWithCursorAsc None g (max_id gr_ID (group_rows g s)) n (is_db s') = Inr (take (nat n) new))"
proof -
  have inv: "insert_inv lock s" "insert_inv lock s'" using assms insert_inv_reach insert_inv_steps by blast+
  obtain new where new: "group_rows g s' = group_rows g s @ new"
    using group_rows_steps [OF assms(2) inv(1), of g] by (auto simp: prefix_def)
  have asc: "ascending gr_ID (group_messages (is_db s'))" using inv(2) by (simp add: insert_inv_def)
  then have ascg: "ascending gr_ID (group_rows g s @ new)" using new ascending_filter unfolding group_rows_def by metis
  have pos: "0 < gr_ID r" if "r \<in> set (group_rows g s')" for r
    using inv(2) that by (auto simp: insert_inv_def group_rows_def)
  have "filter (\<lambda>r. gr_GroupID r = g \<and> max_id gr_ID (group_rows g s) < gr_ID r) (group_messages (is_db s')) =
      filter (\<lambda>r. max_id gr_ID (group_rows g s) < gr_ID r) (group_rows g s')"
    by (simp add: group_rows_def conj_commute)
  also have "\<dots> = new"
  proof -
    have "filter (\<lambda>r. max_id gr_ID (group_rows g s) < gr_ID r) (group_rows g s) = []"
      using max_id_ge [of _ "group_rows g s" gr_ID] by (auto simp: filter_empty_conv not_less)
    moreover have "max_id gr_ID (group_rows g s) < gr_ID r" if "r \<in> set new" for r
    proof (cases "group_rows g s = []")
      case True
      then show ?thesis using pos [of r] that new by (simp add: max_id_def)
    next
      case False
      then show ?thesis using max_id_in [OF False, of gr_ID] ascg that by auto
    qed
    ultimately show ?thesis by (simp add: new)
  qed
  finally show ?thesis using new asc
    by (auto simp: QueryGroupMessagesWithCursorAsc_def limit_def select_asc_ascending)
qed

section \<open>Across groups\<close>

text \<open>
  An insert that no other overtakes makes the table grow at its end, which is the \<open>log_history\<close> of
  \<open>group_worker_exactly_once\<close>; one that is overtaken does not.
\<close>

lemma commit_in_order:
  "\<forall>r \<in> set (group_messages (is_db s)). gr_ID r < gr_ID row \<Longrightarrow>
     group_messages (is_db (commit_insert row s)) = group_messages (is_db s) @ [row]"
  by (simp add: commit_insert_def insort_snoc)

text \<open>The envelope the worker makes of a row, with \<open>enc\<close> for the codec.\<close>

abbreviation row_envelope :: "(GroupMessage \<Rightarrow> bytes) \<Rightarrow> GroupMessageRow \<Rightarrow> envelope" where
  "row_envelope enc r \<equiv> \<lparr>ContentTopic = BuildMLSV1GroupTopic (gr_GroupID r), TimestampNs = go_uint64 (gr_CreatedAt r),
     Message = Some (enc (group_message_proto r))\<rparr>"

text \<open>From its cursor on, the worker only looks up, whatever happens below.\<close>

lemma worker_looks_up:
  assumes "\<forall>t \<in> set ts. ascending gr_ID (group_messages (snd t))" and "disp_reach d"
  shows "\<exists>cur' d' rows. ticks (listenForGroupMessages (\<lambda>m. Inr (enc m))) ts (cur, d) = Inr (cur', d') \<and> cur \<le> cur' \<and>
    handle_all (map (row_envelope enc) rows) d = Inr d' \<and> (\<forall>r \<in> set rows. cur < gr_ID r)"
  using assms
proof (induction ts arbitrary: cur d)
  case Nil
  then show ?case by (intro exI [of _ cur] exI [of _ d] exI [of _ "[]"]) simp
next
  case (Cons t ts)
  obtain flt db where t: "t = (flt, db)" by (cases t)
  have asc: "ascending gr_ID (group_messages db)" using Cons.prems(1) t by simp
  obtain cur1 d1 where 1: "listenForGroupMessages (\<lambda>m. Inr (enc m)) flt db (cur, d) = Inr (cur1, d1)" "disp_reach d1" "cur \<le> cur1"
    "handle_all (envs_of (group_envelope (\<lambda>m. Inr (enc m)))
       (filter (\<lambda>r. cur < gr_ID r \<and> gr_ID r \<le> cur1) (group_messages db))) d = Inr d1"
    using gpoll.tick_step [OF asc Cons.prems(2), of enc flt cur] by blast
  obtain cur' d' rows where 2: "ticks (listenForGroupMessages (\<lambda>m. Inr (enc m))) ts (cur1, d1) = Inr (cur', d')" "cur1 \<le> cur'"
    "handle_all (map (row_envelope enc) rows) d1 = Inr d'" "\<forall>r \<in> set rows. cur1 < gr_ID r"
    using Cons.IH [OF _ 1(2), of cur1] Cons.prems(1) by auto
  let ?rows = "filter (\<lambda>r. cur < gr_ID r \<and> gr_ID r \<le> cur1) (group_messages db) @ rows"
  have "handle_all (map (row_envelope enc) ?rows) d = Inr d'" using 1(4) 2(3) by (simp add: envs_of_group handle_all_append)
  then show ?case using 1 2 t by (intro exI [of _ cur'] exI [of _ d'] exI [of _ ?rows]) auto
qed

definition msg_row :: "int \<Rightarrow> int \<Rightarrow> bytes \<Rightarrow> bytes \<Rightarrow> bytes \<Rightarrow> GroupMessageRow" where
  "msg_row i now g data hash = \<lparr>gr_ID = i, gr_CreatedAt = now, gr_GroupID = g, gr_Data = data, gr_GroupIDDataHash = hash,
     gr_IsCommit = Some False, gr_SenderHmac = [], gr_ShouldPush = Some True\<rparr>"

definition raced :: "int \<Rightarrow> bytes \<Rightarrow> bytes \<Rightarrow> bytes \<Rightarrow> bytes \<Rightarrow> bytes \<Rightarrow> bytes \<Rightarrow> insert_state" where
  "raced now g1 data1 h1 g2 data2 h2 =
     commit_insert (msg_row 2 now g2 data2 h2)
       (begin_insert now g2 data2 h2 [] True False (begin_insert now g1 data1 h1 [] True False no_inserts))"

lemma raced_eq:
  "raced now g1 data1 h1 g2 data2 h2 =
     \<lparr>is_db = empty_db\<lparr>group_messages_seq := 3, group_messages := [msg_row 2 now g2 data2 h2]\<rparr>, is_open = [msg_row 1 now g1 data1 h1]\<rparr>"
  by (simp add: raced_def begin_insert_def InsertGroupMessage_def no_inserts_def empty_db_def Let_def commit_insert_def msg_row_def)

lemma raced_reachable:
  assumes "lock g1 \<noteq> lock g2" and "h1 \<noteq> h2"
  shows "insert_steps lock no_inserts (raced now g1 data1 h1 g2 data2 h2)"
proof -
  let ?s1 = "begin_insert now g1 data1 h1 [] True False no_inserts"
  let ?s2 = "begin_insert now g2 data2 h2 [] True False ?s1"
  have "insert_step lock no_inserts ?s1" by (rule start_insert) (simp add: no_inserts_def)
  moreover have "insert_step lock ?s1 ?s2" using assms
    by (intro start_insert) (simp add: begin_insert_def InsertGroupMessage_def no_inserts_def empty_db_def Let_def)
  moreover have "insert_step lock ?s2 (raced now g1 data1 h1 g2 data2 h2)" unfolding raced_def
    by (intro finish_insert) (simp add: begin_insert_def InsertGroupMessage_def no_inserts_def empty_db_def Let_def msg_row_def)
  ultimately show ?thesis by (meson converse_rtranclp_into_rtranclp rtranclp.rtrancl_refl)
qed

text \<open>
  C38. A message can be lost to every live stream. Two messages of groups with different locks are inserted at the same
  time; the one with the larger id commits first, and a worker that was started on the empty table polls and
  dispatches it. When the other commits, whatever else is inserted afterwards and however often the worker
  polls, also with errors, that message is stored but is never among those dispatched.
\<close>

theorem late_commit_never_dispatched:
  fixes h1 h2 data1 :: bytes
  assumes "lock g1 \<noteq> lock g2" and "h1 \<noteq> h2" and "disp_reach d"
  shows "\<exists>s1 s2 late. insert_steps lock no_inserts s1 \<and> insert_step lock s1 s2 \<and>
    late \<in> set (group_rows g1 s2) \<and> gr_Data late = data1 \<and>
    (\<forall>ts. (\<forall>t \<in> set ts. \<exists>s. insert_steps lock s2 s \<and> snd t = is_db s) \<longrightarrow>
      (\<exists>cur' d' rows. ticks (listenForGroupMessages (\<lambda>m. Inr (enc m))) ((None, is_db s1) # ts) (0, d) = Inr (cur', d') \<and>
        gr_ID late < cur' \<and> handle_all (map (row_envelope enc) rows) d = Inr d' \<and> late \<notin> set rows))"
proof -
  let ?s1 = "raced 0 g1 data1 h1 g2 [] h2" and ?late = "msg_row 1 0 g1 data1 h1" and ?first = "msg_row 2 0 g2 [] h2"
  let ?s2 = "commit_insert ?late ?s1"
  note reach = raced_reachable [OF assms(1,2), of 0 data1 "[]"]
  have step: "insert_step lock ?s1 ?s2" by (rule finish_insert) (simp add: raced_eq)
  have late: "?late \<in> set (group_rows g1 ?s2)"
    by (simp add: group_rows_def commit_insert_def raced_eq set_insort_key msg_row_def)
  have "\<exists>cur' d' rows. ticks (listenForGroupMessages (\<lambda>m. Inr (enc m))) ((None, is_db ?s1) # ts) (0, d) = Inr (cur', d') \<and>
        gr_ID ?late < cur' \<and> handle_all (map (row_envelope enc) rows) d = Inr d' \<and> ?late \<notin> set rows"
    if ts: "\<forall>t \<in> set ts. \<exists>s. insert_steps lock ?s2 s \<and> snd t = is_db s" for ts
  proof -
    have asc1: "ascending gr_ID (group_messages (is_db ?s1))" using insert_inv_reach [OF reach] by (simp add: insert_inv_def)
    have few: "(None :: fault) = None \<and> length (filter (\<lambda>r. 0 < gr_ID r) (group_messages (is_db ?s1))) \<le> 500"
      by (simp add: raced_eq)
    obtain cur1 d1 where 1: "listenForGroupMessages (\<lambda>m. Inr (enc m)) None (is_db ?s1) (0, d) = Inr (cur1, d1)" "disp_reach d1"
      "handle_all (envs_of (group_envelope (\<lambda>m. Inr (enc m)))
         (filter (\<lambda>r. 0 < gr_ID r \<and> gr_ID r \<le> cur1) (group_messages (is_db ?s1)))) d = Inr d1"
      "\<forall>r \<in> set (group_messages (is_db ?s1)). gr_ID r \<le> cur1"
      using gpoll.tick_step [OF asc1 assms(3), of enc None 0] few by blast
    have cur1: "2 \<le> cur1" using 1(4) by (simp add: raced_eq msg_row_def)
    have "\<forall>t \<in> set ts. ascending gr_ID (group_messages (snd t))"
    proof
      fix t assume "t \<in> set ts"
      then obtain s where s: "insert_steps lock ?s2 s" "snd t = is_db s" using ts by blast
      have "insert_inv lock s" using reach step s(1) insert_inv_reach by (meson rtranclp.rtrancl_into_rtrancl rtranclp_trans)
      then show "ascending gr_ID (group_messages (snd t))" using s(2) by (simp add: insert_inv_def)
    qed
    from worker_looks_up [OF this 1(2), of enc cur1] obtain cur' d' rows where
      2: "ticks (listenForGroupMessages (\<lambda>m. Inr (enc m))) ts (cur1, d1) = Inr (cur', d')" "cur1 \<le> cur'"
        "handle_all (map (row_envelope enc) rows) d1 = Inr d'" "\<forall>r \<in> set rows. cur1 < gr_ID r"
      by blast
    have "handle_all (map (row_envelope enc) (?first # rows)) d = Inr d'"
      using 1(3) 2(3) cur1 by (simp add: envs_of_group raced_eq msg_row_def split: sum.split_asm)
    moreover have "?late \<notin> set (?first # rows)" using 2(4) cur1 by (auto simp: msg_row_def)
    moreover have "gr_ID ?late < cur'" using cur1 2(2) by (simp add: msg_row_def)
    ultimately show ?thesis using 1(1) 2(1)
      by (intro exI [of _ cur'] exI [of _ d'] exI [of _ "?first # rows"]) simp
  qed
  then show ?thesis using reach step late
    by (intro exI [of _ ?s1] exI [of _ ?s2] exI [of _ ?late]) (simp add: msg_row_def)
qed

definition test_lock :: "bytes \<Rightarrow> int" where
  "test_lock g = int (length g)"

definition test_raced :: insert_state where
  "test_raced = raced 0 [1] [7] [10] [2, 2] [] [20]"

lemma test_raced_reachable: "insert_steps test_lock no_inserts test_raced"
  unfolding test_raced_def by (rule raced_reachable) (simp_all add: test_lock_def)

theorem group_cursor_safe_witness:
  "QueryGroupMessagesWithCursorAsc None [1] 0 10 (is_db (commit_insert (msg_row 1 0 [1] [7] [10]) test_raced)) =
     Inr [msg_row 1 0 [1] [7] [10]]"
proof -
  let ?s = "commit_insert (msg_row 1 0 [1] [7] [10]) test_raced"
  have step: "insert_step test_lock test_raced ?s" by (rule finish_insert) (simp add: test_raced_def raced_eq)
  have rows: "group_rows [1] test_raced = []" "group_rows [1] ?s = [msg_row 1 0 [1] [7] [10]]" "max_id gr_ID [] = (0 :: int)"
    by (simp_all add: group_rows_def test_raced_def raced_eq commit_insert_def msg_row_def max_id_def)
  have "insert_steps test_lock test_raced ?s" using step by (rule r_into_rtranclp)
  from group_cursor_safe [OF test_raced_reachable this, of "[1]"] show ?thesis by (auto simp: rows)
qed

theorem late_commit_never_dispatched_witness:
  "\<exists>s1 s2 late. insert_steps test_lock no_inserts s1 \<and> insert_step test_lock s1 s2 \<and> late \<in> set (group_rows [1] s2) \<and>
    (\<exists>cur' d' rows. ticks (listenForGroupMessages (\<lambda>m. Inr [])) [(None, is_db s1), (None, is_db s2)] (0, test_disp) = Inr (cur', d') \<and>
      handle_all (map (row_envelope (\<lambda>_. [])) rows) test_disp = Inr d' \<and> late \<notin> set rows)"
proof -
  have "test_lock [1] \<noteq> test_lock [2, 2]" "[10 :: byte] \<noteq> [20]" by (simp_all add: test_lock_def)
  from late_commit_never_dispatched [OF this test_disp_reach, of "[7]" "\<lambda>_. []"] obtain s1 s2 late where
    s: "insert_steps test_lock no_inserts s1" "insert_step test_lock s1 s2" "late \<in> set (group_rows [1] s2)" and
    never: "\<And>ts. (\<forall>t \<in> set ts. \<exists>s. insert_steps test_lock s2 s \<and> snd t = is_db s) \<Longrightarrow>
      (\<exists>cur' d' rows. ticks (listenForGroupMessages (\<lambda>m. Inr [])) ((None, is_db s1) # ts) (0, test_disp) = Inr (cur', d') \<and>
        gr_ID late < cur' \<and> handle_all (map (row_envelope (\<lambda>_. [])) rows) test_disp = Inr d' \<and> late \<notin> set rows)"
    by blast
  have "\<forall>t \<in> set [(None :: fault, is_db s2)]. \<exists>s. insert_steps test_lock s2 s \<and> snd t = is_db s" by auto
  from never [OF this] show ?thesis using s by blast
qed

end
