(* ===== verification/Validation.thy ===== *)
theory Validation
  imports Mls_Types
begin

text \<open>
  The client of the remote MLS validation service, pkg/mlsvalidate/service.go, and the cutover
  switch of pkg/migration. The generated gRPC stub is an argument: a function from the request
  to the responses or a transport error. The code turns the responses into results and fails the
  whole batch on the first response that is not ok.

  The lemmas show that a batch succeeds exactly when every response is ok, that results keep the
  order of the responses, and that a stub answering once per request gives one result per input.
\<close>

section \<open>Cutover: pkg/migration\<close>

text \<open>\<open>None\<close> is a nil checker.\<close>

definition IsMigrationComplete :: "u64 option \<Rightarrow> u64 \<Rightarrow> bool" where
  "IsMigrationComplete c now =
     (case c of None \<Rightarrow> False | Some cutoverNs \<Rightarrow> cutoverNs \<noteq> 0 \<and> cutoverNs \<le> now)"

definition CutoverNs :: "u64 option \<Rightarrow> u64" where
  "CutoverNs c = (case c of None \<Rightarrow> 0 | Some cutoverNs \<Rightarrow> cutoverNs)"

lemma IsMigrationComplete_mono:
  "IsMigrationComplete c now \<Longrightarrow> now \<le> later \<Longrightarrow> IsMigrationComplete c later"
  by (auto simp: IsMigrationComplete_def split: option.splits)

section \<open>Requests and responses of the validation service\<close>

record KeyPackageRequest =
  kq_KeyPackageBytes :: bytes
  kq_IsInboxIdCredential :: bool

record KeyPackageResponse =
  kr_IsOk :: bool
  kr_ErrorMessage :: string
  kr_InstallationPublicKey :: bytes
  kr_Expiration :: u64

record GroupMessageResponse =
  vr_IsOk :: bool
  vr_ErrorMessage :: string
  vr_GroupId :: string
  vr_IsCommit :: bool

record InboxIdValidationResult =
  vk_InstallationKey :: bytes
  vk_Expiration :: u64

record GroupMessageValidationResult =
  vg_GroupId :: string
  vg_IsCommit :: bool

definition validation_failed :: "string \<Rightarrow> go_error" where
  "validation_failed msg = Err (''validation failed with error '' @ msg)"

definition makeValidateKeyPackageRequest :: "bytes list \<Rightarrow> bool \<Rightarrow> KeyPackageRequest list" where
  "makeValidateKeyPackageRequest keyPackageBytes isInboxIdCredential =
     map (\<lambda>k. \<lparr>kq_KeyPackageBytes = k, kq_IsInboxIdCredential = isInboxIdCredential\<rparr>) keyPackageBytes"

fun key_package_results :: "KeyPackageResponse list \<Rightarrow> InboxIdValidationResult list result" where
  "key_package_results [] = Inr []"
| "key_package_results (r # rs) =
     (if \<not> kr_IsOk r then Inl (validation_failed (kr_ErrorMessage r))
      else case key_package_results rs of
        Inl e \<Rightarrow> Inl e
      | Inr out \<Rightarrow> Inr (\<lparr>vk_InstallationKey = kr_InstallationPublicKey r, vk_Expiration = kr_Expiration r\<rparr> # out))"

definition ValidateInboxIdKeyPackages ::
  "(KeyPackageRequest list \<Rightarrow> KeyPackageResponse list result) \<Rightarrow> bytes list \<Rightarrow> InboxIdValidationResult list result" where
  "ValidateInboxIdKeyPackages client keyPackages =
     (case client (makeValidateKeyPackageRequest keyPackages True) of
        Inl e \<Rightarrow> Inl e
      | Inr responses \<Rightarrow> key_package_results responses)"

fun group_message_results :: "GroupMessageResponse list \<Rightarrow> GroupMessageValidationResult list result" where
  "group_message_results [] = Inr []"
| "group_message_results (r # rs) =
     (if \<not> vr_IsOk r then Inl (validation_failed (vr_ErrorMessage r))
      else case group_message_results rs of
        Inl e \<Rightarrow> Inl e
      | Inr out \<Rightarrow> Inr (\<lparr>vg_GroupId = vr_GroupId r, vg_IsCommit = vr_IsCommit r\<rparr> # out))"

text \<open>
  A group message input is an option of its one version; \<open>groupMessage.GetV1().Data\<close> panics on an
  input without a version, which the handlers exclude before they call.
\<close>

type_synonym GroupMessageInput = "GroupMessageInput_V1 option"

fun makeValidateGroupMessagesRequest :: "GroupMessageInput list \<Rightarrow> bytes list result" where
  "makeValidateGroupMessagesRequest [] = Inr []"
| "makeValidateGroupMessagesRequest (None # ms) = Inl (Panic ''nil pointer dereference'')"
| "makeValidateGroupMessagesRequest (Some m # ms) =
     (case makeValidateGroupMessagesRequest ms of
        Inl e \<Rightarrow> Inl e
      | Inr out \<Rightarrow> Inr (gmi_Data m # out))"

definition ValidateGroupMessagePayloads ::
  "(bytes list \<Rightarrow> GroupMessageResponse list result) \<Rightarrow> bytes list \<Rightarrow> GroupMessageValidationResult list result" where
  "ValidateGroupMessagePayloads client groupMessagePayloads =
     (case client groupMessagePayloads of
        Inl e \<Rightarrow> Inl e
      | Inr responses \<Rightarrow> group_message_results responses)"

definition ValidateGroupMessages ::
  "(bytes list \<Rightarrow> GroupMessageResponse list result) \<Rightarrow> GroupMessageInput list \<Rightarrow>
     GroupMessageValidationResult list result" where
  "ValidateGroupMessages client groupMessages =
     (case makeValidateGroupMessagesRequest groupMessages of
        Inl e \<Rightarrow> Inl e
      | Inr req \<Rightarrow>
          (case client req of
             Inl e \<Rightarrow> Inl e
           | Inr responses \<Rightarrow> group_message_results responses))"

section \<open>Lemmas\<close>

lemma group_message_results_Inr:
  "group_message_results rs = Inr out \<longleftrightarrow>
     list_all vr_IsOk rs \<and> out = map (\<lambda>r. \<lparr>vg_GroupId = vr_GroupId r, vg_IsCommit = vr_IsCommit r\<rparr>) rs"
  by (induction rs arbitrary: out) (auto split: sum.splits, blast?)

lemma key_package_results_Inr:
  "key_package_results rs = Inr out \<longleftrightarrow> list_all kr_IsOk rs \<and>
     out = map (\<lambda>r. \<lparr>vk_InstallationKey = kr_InstallationPublicKey r, vk_Expiration = kr_Expiration r\<rparr>) rs"
  by (induction rs arbitrary: out) (auto split: sum.splits, blast?)

lemma makeValidateGroupMessagesRequest_Some:
  "makeValidateGroupMessagesRequest (map Some ms) = Inr (map gmi_Data ms)"
  by (induction ms) simp_all

lemma ValidateGroupMessages_payloads:
  "ValidateGroupMessages client (map Some ms) = ValidateGroupMessagePayloads client (map gmi_Data ms)"
  by (simp add: ValidateGroupMessages_def ValidateGroupMessagePayloads_def
      makeValidateGroupMessagesRequest_Some)

lemma ValidateGroupMessagePayloads_length:
  "ValidateGroupMessagePayloads client ps = Inr out \<Longrightarrow>
     (\<And>req resps. client req = Inr resps \<Longrightarrow> length resps = length req) \<Longrightarrow> length out = length ps"
  by (auto simp: ValidateGroupMessagePayloads_def group_message_results_Inr split: sum.splits)

end
