(* ===== verification/Mls_Service.thy ===== *)
theory Mls_Service
  imports Store Validation
begin

text \<open>
  The unary handlers of the MLS API, pkg/mls/api/v1/service.go, and of the identity API,
  pkg/identity/api/v1/identity_service.go. A handler is a function from the request and the
  database to the database and a response or error; a nil request or field is \<open>None\<close>. The
  service's configuration and its remote parts are the record \<open>mls_service\<close>.

  The lemmas show that no write handler touches the database once publishing is disabled, that
  a batch of group messages is stored completely and at most once, and the positional behaviour
  of the lookup handlers.
\<close>

section \<open>Service\<close>

record mls_service =
  disablePublish :: bool
  cutoverChecker :: "u64 option"
  kp_client :: "KeyPackageRequest list \<Rightarrow> KeyPackageResponse list result"
  gm_client :: "bytes list \<Rightarrow> GroupMessageResponse list result"
  sha256_fn :: "bytes \<Rightarrow> bytes"

definition maxBatchInserts :: nat where
  "maxBatchInserts = 10"

definition maxBatchQueries :: nat where
  "maxBatchQueries = 20"

definition isPublishDisabled :: "mls_service \<Rightarrow> u64 \<Rightarrow> bool" where
  "isPublishDisabled s now = (disablePublish s \<or> IsMigrationComplete (cutoverChecker s) now)"

definition isStreamingDisabled :: "mls_service \<Rightarrow> u64 \<Rightarrow> bool" where
  "isStreamingDisabled s now = IsMigrationComplete (cutoverChecker s) now"

definition publish_unavailable :: go_error where
  "publish_unavailable = Status Unavailable
     ''publishing to XMTP V3 is no longer available. Please upgrade your client to XMTP D14N.''"

definition streaming_unavailable :: go_error where
  "streaming_unavailable = Status Unavailable
     ''XMTP V3 streaming is no longer available. Please upgrade your client to XMTP D14N.''"

section \<open>Installations and key packages\<close>

record tx_faults =
  tf_begin :: fault
  tf_commit :: fault
  tf_1 :: fault
  tf_2 :: fault

definition no_tx_faults :: tx_faults where
  "no_tx_faults = \<lparr>tf_begin = None, tf_commit = None, tf_1 = None, tf_2 = None\<rparr>"

definition store_installation :: "tx_faults \<Rightarrow> int \<Rightarrow> bytes \<Rightarrow> bytes \<Rightarrow> mls_db \<Rightarrow> mls_db \<times> unit result" where
  "store_installation T now installationKey keyPackage db =
     CreateOrUpdateInstallation (tf_begin T) (tf_commit T) (tf_1 T) (tf_2 T) now installationKey keyPackage db"

text \<open>A request is \<open>None\<close> when it is nil or carries no key package.\<close>

definition validateRegisterInstallationRequest :: "bytes option \<Rightarrow> go_error option" where
  "validateRegisterInstallationRequest req =
     (case req of None \<Rightarrow> Some (Status InvalidArgument ''no key package'') | Some _ \<Rightarrow> None)"

definition validateUploadKeyPackageRequest :: "bytes option \<Rightarrow> go_error option" where
  "validateUploadKeyPackageRequest req =
     (case req of None \<Rightarrow> Some (Status InvalidArgument ''no key package'') | Some _ \<Rightarrow> None)"

definition RegisterInstallation ::
  "mls_service \<Rightarrow> tx_faults \<Rightarrow> u64 \<Rightarrow> bytes option \<Rightarrow> mls_db \<Rightarrow> mls_db \<times> bytes result" where
  "RegisterInstallation s T now req db =
     (if isPublishDisabled s now then (db, Inl publish_unavailable)
      else case validateRegisterInstallationRequest req of
        Some e \<Rightarrow> (db, Inl e)
      | None \<Rightarrow>
          (case ValidateInboxIdKeyPackages (kp_client s) [the req] of
             Inl e \<Rightarrow> (db, Inl (Status InvalidArgument (''invalid identity: '' @ error_text e)))
           | Inr results \<Rightarrow>
               if length results \<noteq> 1 then (db, Inl (Status Internal ''unexpected number of results''))
               else
                 (case store_installation T (go_int64 now) (vk_InstallationKey (hd results)) (the req) db of
                    (db', Inl e) \<Rightarrow> (db', Inl e)
                  | (db', Inr _) \<Rightarrow> (db', Inr (vk_InstallationKey (hd results))))))"

definition UploadKeyPackage ::
  "mls_service \<Rightarrow> tx_faults \<Rightarrow> u64 \<Rightarrow> bytes option \<Rightarrow> mls_db \<Rightarrow> mls_db \<times> unit result" where
  "UploadKeyPackage s T now req db =
     (if isPublishDisabled s now then (db, Inl publish_unavailable)
      else case validateUploadKeyPackageRequest req of
        Some e \<Rightarrow> (db, Inl e)
      | None \<Rightarrow>
          (case ValidateInboxIdKeyPackages (kp_client s) [the req] of
             Inl e \<Rightarrow> (db, Inl (Status InvalidArgument (''invalid identity: '' @ error_text e)))
           | Inr [] \<Rightarrow> (db, Inl (Panic ''index out of range''))
           | Inr (r # _) \<Rightarrow>
               (case store_installation T (go_int64 now) (vk_InstallationKey r) (the req) db of
                  (db', Inl e) \<Rightarrow> (db', Inl (Status Internal (''failed to insert key packages: '' @ error_text e)))
                | (db', Inr _) \<Rightarrow> (db', Inr ()))))"

definition RevokeInstallation :: "unit result" where
  "RevokeInstallation = Inl (Status Unimplemented ''unimplemented'')"

definition GetIdentityUpdates :: "unit result" where
  "GetIdentityUpdates = Inl (Status Unimplemented ''unimplemented'')"

text \<open>
  \<open>keyPackageMap\<close> maps an id to its last index in the request; a slot no row was written to is a
  nil pointer, \<open>None\<close>.
\<close>

fun last_index :: "'a \<Rightarrow> 'a list \<Rightarrow> nat \<Rightarrow> nat option \<Rightarrow> nat option" where
  "last_index x [] i acc = acc"
| "last_index x (y # ys) i acc = last_index x ys (Suc i) (if x = y then Some i else acc)"

fun fill_packages ::
  "bytes list \<Rightarrow> (bytes \<times> bytes) list \<Rightarrow> bytes option list \<Rightarrow> bytes option list result" where
  "fill_packages ids [] out = Inr out"
| "fill_packages ids ((i, keyPackage) # rows) out =
     (case last_index i ids 0 None of
        None \<Rightarrow> Inl (Status Internal ''could not find key package for installation'')
      | Some idx \<Rightarrow> fill_packages ids rows (out[idx := Some keyPackage]))"

definition FetchKeyPackages :: "fault \<Rightarrow> bytes list \<Rightarrow> mls_db \<Rightarrow> bytes option list result" where
  "FetchKeyPackages flt ids db =
     (case FetchKeyPackages_rs flt ids db of
        Inl e \<Rightarrow> Inl (Status Internal (''failed to fetch key packages: '' @ error_text e))
      | Inr rows \<Rightarrow> fill_packages ids rows (replicate (length ids) None))"

section \<open>Sending group messages\<close>

definition validateSendGroupMessagesRequest :: "GroupMessageInput list option \<Rightarrow> go_error option" where
  "validateSendGroupMessagesRequest req =
     (case req of
        None \<Rightarrow> Some (Status InvalidArgument ''no group messages to send'')
      | Some [] \<Rightarrow> Some (Status InvalidArgument ''no group messages to send'')
      | Some ms \<Rightarrow> if list_ex (\<lambda>m. m = None) ms then Some (Status InvalidArgument ''invalid group message'') else None)"

definition requireReadyToSend :: "string \<Rightarrow> bytes \<Rightarrow> go_error option" where
  "requireReadyToSend groupId message =
     (if groupId = [] then Some (Status InvalidArgument ''group id is empty'')
      else if message = [] then Some (Status InvalidArgument ''message is empty'')
      else None)"

text \<open>\<open>flt i\<close> and \<open>clock i\<close> are the driver error and the clock of the insert of message \<open>i\<close>.\<close>

fun send_group_loop ::
  "(bytes \<Rightarrow> bytes) \<Rightarrow> (nat \<Rightarrow> fault) \<Rightarrow> (nat \<Rightarrow> int) \<Rightarrow> GroupMessageInput list \<Rightarrow> nat \<Rightarrow>
     GroupMessageValidationResult list \<Rightarrow> mls_db \<Rightarrow> mls_db \<times> unit result" where
  "send_group_loop sha flt clock messages i [] db = (db, Inr ())"
| "send_group_loop sha flt clock messages i (result # results) db =
     (if length messages \<le> i then (db, Inl (Panic ''index out of range''))
      else case messages ! i of
        None \<Rightarrow> (db, Inl (Panic ''nil pointer dereference''))
      | Some v1 \<Rightarrow>
          (case requireReadyToSend (vg_GroupId result) (gmi_Data v1) of
             Some e \<Rightarrow> (db, Inl e)
           | None \<Rightarrow>
               (case hex_decode (vg_GroupId result) of
                  Inl e \<Rightarrow> (db, Inl (Status InvalidArgument ''invalid group id''))
                | Inr decodedGroupId \<Rightarrow>
                    (case Store_InsertGroupMessage sha (flt i) (clock i) decodedGroupId (gmi_Data v1)
                            (gmi_SenderHmac v1) (gmi_ShouldPush v1) (vg_IsCommit result) db of
                       (db', Inl e) \<Rightarrow>
                         if IsAlreadyExistsError e
                         then send_group_loop sha flt clock messages (Suc i) results db'
                         else (db', Inl (Status Internal (''failed to insert message: '' @ error_text e)))
                     | (db', Inr _) \<Rightarrow> send_group_loop sha flt clock messages (Suc i) results db'))))"

definition SendGroupMessages ::
  "mls_service \<Rightarrow> (nat \<Rightarrow> fault) \<Rightarrow> (nat \<Rightarrow> int) \<Rightarrow> u64 \<Rightarrow> GroupMessageInput list option \<Rightarrow> mls_db \<Rightarrow>
     mls_db \<times> unit result" where
  "SendGroupMessages s flt clock now req db =
     (if isPublishDisabled s now then (db, Inl publish_unavailable)
      else case validateSendGroupMessagesRequest req of
        Some e \<Rightarrow> (db, Inl e)
      | None \<Rightarrow>
          (case ValidateGroupMessages (gm_client s) (the req) of
             Inl (Panic p) \<Rightarrow> (db, Inl (Panic p))
           | Inl e \<Rightarrow> (db, Inl (Status InvalidArgument (''invalid group message: '' @ error_text e)))
           | Inr results \<Rightarrow> send_group_loop (sha256_fn s) flt clock (the req) 0 results db))"

section \<open>Sending welcome messages\<close>

definition valid_welcome_v1 :: "WelcomeMessageInput_V1 \<Rightarrow> bool" where
  "valid_welcome_v1 v \<longleftrightarrow> wmi_Data v \<noteq> [] \<and> wmi_InstallationKey v \<noteq> [] \<and>
     (wmi_HpkePublicKey v \<noteq> [] \<or> wmi_WrapperAlgorithm v = WWA_SYMMETRIC_KEY)"

fun validate_welcome_input :: "WelcomeMessageInput option \<Rightarrow> go_error option" where
  "validate_welcome_input None = Some (Status InvalidArgument ''invalid welcome message'')"
| "validate_welcome_input (Some (WMI_V1 v)) =
     (if valid_welcome_v1 v then None else Some (Status InvalidArgument ''invalid welcome message''))"
| "validate_welcome_input (Some (WMI_WelcomePointer p)) =
     (if wpi_InstallationKey p = [] \<or> wpi_WelcomePointer p = [] \<or> wpi_HpkePublicKey p = []
      then Some (Status InvalidArgument ''invalid welcome pointer message'')
      else case WelcomePointerWrapperAlgorithmFromProto (wpi_WrapperAlgorithm p) of
        Inl e \<Rightarrow> Some (Status InvalidArgument (''invalid welcome pointer wrapper algorithm: '' @ error_text e))
      | Inr _ \<Rightarrow> None)"
| "validate_welcome_input (Some WMI_Unset) =
     Some (Status InvalidArgument ''invalid welcome message: missing version'')"

fun first_error :: "('a \<Rightarrow> go_error option) \<Rightarrow> 'a list \<Rightarrow> go_error option" where
  "first_error f [] = None"
| "first_error f (x # xs) = (case f x of Some e \<Rightarrow> Some e | None \<Rightarrow> first_error f xs)"

definition validateSendWelcomeMessagesRequest :: "WelcomeMessageInput option list option \<Rightarrow> go_error option" where
  "validateSendWelcomeMessagesRequest req =
     (case req of
        None \<Rightarrow> Some (Status InvalidArgument ''no welcome messages to send'')
      | Some [] \<Rightarrow> Some (Status InvalidArgument ''no welcome messages to send'')
      | Some ms \<Rightarrow> first_error validate_welcome_input ms)"

text \<open>The body of one goroutine of the errgroup: insert the message, treating a duplicate as success.\<close>

definition finish_insert :: "mls_db \<times> 'r result \<Rightarrow> mls_db \<times> unit result" where
  "finish_insert x =
     (case x of
        (db', Inr _) \<Rightarrow> (db', Inr ())
      | (db', Inl e) \<Rightarrow>
          if IsAlreadyExistsError e then (db', Inr ())
          else (db', Inl (Status Internal (''failed to insert message: '' @ error_text e))))"

definition insert_welcome ::
  "(bytes \<Rightarrow> bytes) \<Rightarrow> fault \<Rightarrow> int \<Rightarrow> WelcomeMessageInput option \<Rightarrow> mls_db \<Rightarrow> mls_db \<times> unit result" where
  "insert_welcome sha flt now input db =
     (case input of
        Some (WMI_V1 v) \<Rightarrow>
          finish_insert (Store_InsertWelcomeMessage sha flt now (wmi_InstallationKey v) (wmi_Data v)
            (wmi_HpkePublicKey v) (WrapperAlgorithmFromProto (wmi_WrapperAlgorithm v)) (wmi_WelcomeMetadata v) db)
      | Some (WMI_WelcomePointer p) \<Rightarrow>
          (case WelcomePointerWrapperAlgorithmFromProto (wpi_WrapperAlgorithm p) of
             Inl e \<Rightarrow> (db, Inl (Status InvalidArgument (''invalid welcome pointer message: '' @ error_text e)))
           | Inr alg \<Rightarrow>
               finish_insert (Store_InsertWelcomePointerMessage sha flt now (wpi_InstallationKey p)
                 (wpi_WelcomePointer p) (wpi_HpkePublicKey p) alg db))
      | _ \<Rightarrow> finish_insert (db,
               Inl (Status InvalidArgument ''invalid welcome message input: missing version'') :: unit result))"

text \<open>
  \<open>g.Wait()\<close>: every goroutine runs, in the order \<open>steps\<close> in which their inserts reach the database, each
  with its own driver error (a cancelled context after the first failure is one), and the error of
  the first goroutine that failed is returned.
\<close>

fun errgroup_run ::
  "(bytes \<Rightarrow> bytes) \<Rightarrow> (WelcomeMessageInput option \<times> fault \<times> int) list \<Rightarrow> go_error option \<Rightarrow> mls_db \<Rightarrow>
     mls_db \<times> unit result" where
  "errgroup_run sha [] err db = (db, (case err of None \<Rightarrow> Inr () | Some e \<Rightarrow> Inl e))"
| "errgroup_run sha ((input, flt, now) # steps) err db =
     (case insert_welcome sha flt now input db of
        (db', Inl e) \<Rightarrow> errgroup_run sha steps (case err of None \<Rightarrow> Some e | Some e' \<Rightarrow> Some e') db'
      | (db', Inr _) \<Rightarrow> errgroup_run sha steps err db')"

text \<open>\<open>sched\<close> is the schedule: the order, driver errors and clock of the goroutines' inserts.\<close>

definition SendWelcomeMessages ::
  "mls_service \<Rightarrow> u64 \<Rightarrow> (WelcomeMessageInput option list \<Rightarrow> (WelcomeMessageInput option \<times> fault \<times> int) list) \<Rightarrow>
     WelcomeMessageInput option list option \<Rightarrow> mls_db \<Rightarrow> mls_db \<times> unit result" where
  "SendWelcomeMessages s now sched req db =
     (if isPublishDisabled s now then (db, Inl publish_unavailable)
      else case validateSendWelcomeMessagesRequest req of
        Some e \<Rightarrow> (db, Inl e)
      | None \<Rightarrow> errgroup_run (sha256_fn s) (sched (the req)) None db)"

section \<open>Commit log and newest messages\<close>

record 'sig PublishCommitLogRequest =
  pc_GroupId :: bytes
  pc_SerializedCommitLogEntry :: bytes
  pc_Signature :: "'sig option"

definition validateBatchPublishCommitLogRequest ::
  "'sig PublishCommitLogRequest option list option \<Rightarrow> go_error option" where
  "validateBatchPublishCommitLogRequest req =
     (case req of
        None \<Rightarrow> Some (Status InvalidArgument ''no log entries to publish'')
      | Some ms \<Rightarrow>
          if ms = [] then Some (Status InvalidArgument ''no log entries to publish'')
          else if maxBatchInserts < length ms
          then Some (Status InvalidArgument ''cannot exceed 10 inserts in single batch'')
          else None)"

fun publish_commit_loop ::
  "('sig \<Rightarrow> bytes result) \<Rightarrow> (nat \<Rightarrow> fault) \<Rightarrow> (nat \<Rightarrow> int) \<Rightarrow> nat \<Rightarrow>
     'sig PublishCommitLogRequest option list \<Rightarrow> mls_db \<Rightarrow> mls_db \<times> unit result" where
  "publish_commit_loop marshal flt clock i [] db = (db, Inr ())"
| "publish_commit_loop marshal flt clock i (None # es) db =
     (db, Inl (Status InvalidArgument ''invalid commit log entry''))"
| "publish_commit_loop marshal flt clock i (Some e # es) db =
     (if pc_GroupId e = [] \<or> pc_SerializedCommitLogEntry e = [] \<or> pc_Signature e = None
      then (db, Inl (Status InvalidArgument ''invalid commit log entry''))
      else case marshal (the (pc_Signature e)) of
        Inl err \<Rightarrow> (db, Inl (Status InvalidArgument ''invalid signature''))
      | Inr sig \<Rightarrow>
          (case InsertCommitLog (flt i) (clock i) (pc_GroupId e) (pc_SerializedCommitLogEntry e) sig db of
             (db', Inl err) \<Rightarrow> (db', Inl (Status Internal (''failed to insert commit log: '' @ error_text err)))
           | (db', Inr _) \<Rightarrow> publish_commit_loop marshal flt clock (Suc i) es db'))"

definition BatchPublishCommitLog ::
  "mls_service \<Rightarrow> ('sig \<Rightarrow> bytes result) \<Rightarrow> (nat \<Rightarrow> fault) \<Rightarrow> (nat \<Rightarrow> int) \<Rightarrow> u64 \<Rightarrow>
     'sig PublishCommitLogRequest option list option \<Rightarrow> mls_db \<Rightarrow> mls_db \<times> unit result" where
  "BatchPublishCommitLog s marshal flt clock now req db =
     (if isPublishDisabled s now then (db, Inl publish_unavailable)
      else case validateBatchPublishCommitLogRequest req of
        Some e \<Rightarrow> (db, Inl e)
      | None \<Rightarrow> publish_commit_loop marshal flt clock 0 (the req) db)"

record QueryCommitLogRequest =
  ql_GroupId :: bytes
  ql_PagingInfo :: "PagingInfo option"

definition validateBatchQueryCommitLogRequest :: "QueryCommitLogRequest option list option \<Rightarrow> go_error option" where
  "validateBatchQueryCommitLogRequest req =
     (case req of
        None \<Rightarrow> Some (Status InvalidArgument ''no requests to query'')
      | Some ms \<Rightarrow>
          if ms = [] then Some (Status InvalidArgument ''no requests to query'')
          else if maxBatchQueries < length ms
          then Some (Status InvalidArgument ''cannot exceed 20 queries in single batch'')
          else None)"

fun query_commit_loop ::
  "(bytes \<Rightarrow> 'sig result) \<Rightarrow> (nat \<Rightarrow> fault) \<Rightarrow> nat \<Rightarrow> QueryCommitLogRequest option list \<Rightarrow> mls_db \<Rightarrow>
     'sig QueryCommitLogResponse list result" where
  "query_commit_loop unmarshal flt i [] db = Inr []"
| "query_commit_loop unmarshal flt i (None # qs) db = Inl (Status InvalidArgument ''invalid request'')"
| "query_commit_loop unmarshal flt i (Some q # qs) db =
     (if ql_GroupId q = [] then Inl (Status InvalidArgument ''invalid request'')
      else case QueryCommitLog unmarshal (flt i) (ql_GroupId q) (ql_PagingInfo q) db of
        Inl e \<Rightarrow> Inl (Status Internal (''failed to query commit log: '' @ error_text e))
      | Inr response \<Rightarrow>
          (case query_commit_loop unmarshal flt (Suc i) qs db of
             Inl e \<Rightarrow> Inl e
           | Inr out \<Rightarrow> Inr (response # out)))"

definition BatchQueryCommitLog ::
  "(bytes \<Rightarrow> 'sig result) \<Rightarrow> (nat \<Rightarrow> fault) \<Rightarrow> QueryCommitLogRequest option list option \<Rightarrow> mls_db \<Rightarrow>
     'sig QueryCommitLogResponse list result" where
  "BatchQueryCommitLog unmarshal flt req db =
     (case validateBatchQueryCommitLogRequest req of
        Some e \<Rightarrow> Inl e
      | None \<Rightarrow> query_commit_loop unmarshal flt 0 (the req) db)"

definition convertNewestMessageToProto :: "GroupMessageRow \<Rightarrow> GroupMessage" where
  "convertNewestMessageToProto r =
     Some \<lparr>gm_Id = go_uint64 (gr_ID r), gm_CreatedNs = go_uint64 (gr_CreatedAt r), gm_GroupId = gr_GroupID r,
           gm_Data = gr_Data r, gm_SenderHmac = gr_SenderHmac r, gm_ShouldPush = NullBool (gr_ShouldPush r),
           gm_IsCommit = NullBool (gr_IsCommit r)\<rparr>"

definition convertNewestMessageMetadataToProto :: "NewestMetadataRow \<Rightarrow> GroupMessage" where
  "convertNewestMessageMetadataToProto r =
     Some \<lparr>gm_Id = go_uint64 (nm_ID r), gm_CreatedNs = go_uint64 (nm_CreatedAt r), gm_GroupId = nm_GroupID r,
           gm_Data = [], gm_SenderHmac = [], gm_ShouldPush = False, gm_IsCommit = NullBool (nm_IsCommit r)\<rparr>"

definition validateGetNewestGroupMessageRequest :: "bytes list option \<Rightarrow> go_error option" where
  "validateGetNewestGroupMessageRequest req =
     (case req of
        None \<Rightarrow> Some (Status InvalidArgument ''no group ids provided'')
      | Some ids \<Rightarrow> if ids = [] then Some (Status InvalidArgument ''no group ids provided'') else None)"

text \<open>A response slot is \<open>None\<close> when its \<open>GroupMessage\<close> field is not set.\<close>

definition GetNewestGroupMessage_handler ::
  "fault \<Rightarrow> bytes list option \<Rightarrow> bool \<Rightarrow> mls_db \<Rightarrow> GroupMessage option list result" where
  "GetNewestGroupMessage_handler flt req includeContent db =
     (case validateGetNewestGroupMessageRequest req of
        Some e \<Rightarrow> Inl e
      | None \<Rightarrow>
          if includeContent then
            (case GetNewestGroupMessage_rs flt (the req) db of
               Inl e \<Rightarrow> Inl (Status Internal ''database query failed'')
             | Inr results \<Rightarrow> Inr (map (map_option convertNewestMessageToProto) results))
          else
            (case GetNewestGroupMessageMetadata_rs flt (the req) db of
               Inl e \<Rightarrow> Inl (Status Internal ''database query failed'')
             | Inr results \<Rightarrow> Inr (map (map_option convertNewestMessageMetadataToProto) results)))"

section \<open>Identity API: identity_service.go\<close>

definition identity_PublishIdentityUpdate ::
  "bool \<Rightarrow> u64 option \<Rightarrow> u64 \<Rightarrow> 'u identity_env \<Rightarrow> (nat \<Rightarrow> fault) \<Rightarrow> (nat \<Rightarrow> fault) \<Rightarrow> (nat \<Rightarrow> fault) \<Rightarrow>
     (nat \<Rightarrow> publish_faults) \<Rightarrow> (nat \<Rightarrow> int) \<Rightarrow> 'u option \<Rightarrow> mls_db \<Rightarrow> mls_db \<times> unit result" where
  "identity_PublishIdentityUpdate disable cutover now E ctx bf cf F clock req db =
     (if disable \<or> IsMigrationComplete cutover now then (db, Inl publish_unavailable)
      else PublishIdentityUpdate E ctx bf cf F clock req db)"

definition identity_GetIdentityUpdates ::
  "(bytes \<Rightarrow> 'u result) \<Rightarrow> fault \<Rightarrow> (string \<times> u64) list \<Rightarrow> mls_db \<Rightarrow>
     (string \<times> 'u IdentityUpdateLog list) list result" where
  "identity_GetIdentityUpdates unmarshal flt reqs db = GetInboxLogs unmarshal flt reqs db"

definition identity_GetInboxIds :: "fault \<Rightarrow> string list \<Rightarrow> mls_db \<Rightarrow> (string \<times> string option) list result" where
  "identity_GetInboxIds flt identifiers db = GetInboxIds flt identifiers db"

section \<open>Storing a batch of group messages\<close>

definition group_hashes :: "mls_db \<Rightarrow> bytes set" where
  "group_hashes db = gr_GroupIDDataHash ` set (group_messages db)"

text \<open>A message and its validation result that the loop accepts, and what it means that it is stored.\<close>

definition sendable :: "GroupMessageInput \<Rightarrow> GroupMessageValidationResult \<Rightarrow> bool" where
  "sendable m r \<longleftrightarrow> (\<exists>v g. m = Some v \<and> vg_GroupId r = hex_encode g \<and> g \<noteq> [] \<and> gmi_Data v \<noteq> [])"

definition stored :: "(bytes \<Rightarrow> bytes) \<Rightarrow> mls_db \<Rightarrow> GroupMessageInput \<Rightarrow> GroupMessageValidationResult \<Rightarrow> bool" where
  "stored sha db m r \<longleftrightarrow>
     (\<exists>v g. m = Some v \<and> vg_GroupId r = hex_encode g \<and> sha (g @ gmi_Data v) \<in> group_hashes db)"

text \<open>A row that holds exactly this message.\<close>

definition row_of :: "(bytes \<Rightarrow> bytes) \<Rightarrow> GroupMessageRow \<Rightarrow> GroupMessageInput \<Rightarrow> GroupMessageValidationResult \<Rightarrow> bool" where
  "row_of sha row m r \<longleftrightarrow>
     (\<exists>v. m = Some v \<and> vg_GroupId r = hex_encode (gr_GroupID row) \<and> gr_Data row = gmi_Data v \<and>
        gr_SenderHmac row = gmi_SenderHmac v \<and> gr_ShouldPush row = Some (gmi_ShouldPush v) \<and>
        gr_IsCommit row = Some (vg_IsCommit r) \<and> gr_GroupIDDataHash row = sha (gr_GroupID row @ gr_Data row))"

lemma hex_encode_Nil [simp]: "hex_encode g = [] \<longleftrightarrow> g = []"
  by (cases g) auto

lemma send_group_step:
  assumes "drop i messages = m # ms" and "sendable m r"
  obtains db' where "group_messages db' = group_messages db \<or>
      (\<exists>row. group_messages db' = group_messages db @ [row] \<and> row_of sha row m r)"
    "stored sha db' m r" "stored sha db m r \<Longrightarrow> same_tables db db'" "db_ok db \<Longrightarrow> db_ok db'"
    "send_group_loop sha (\<lambda>_. None) clock messages i (r # rs) db =
       send_group_loop sha (\<lambda>_. None) clock messages (Suc i) rs db'"
proof -
  obtain v g where m: "m = Some v" "vg_GroupId r = hex_encode g" "g \<noteq> []" "gmi_Data v \<noteq> []"
    using assms(2) by (auto simp: sendable_def)
  have i: "i < length messages" "messages ! i = Some v"
    using assms(1) m by (metis drop_all list.simps(3) not_le, metis assms(1) list.sel(1) nth_via_drop m(1))
  let ?ins = "Store_InsertGroupMessage sha None (clock i) g (gmi_Data v) (gmi_SenderHmac v)
    (gmi_ShouldPush v) (vg_IsCommit r) db"
  have step: "send_group_loop sha (\<lambda>_. None) clock messages i (r # rs) db =
       send_group_loop sha (\<lambda>_. None) clock messages (Suc i) rs (fst ?ins)"
    using i m unfolding Store_InsertGroupMessage_cases
    by (simp add: requireReadyToSend_def Let_def Store_InsertGroupMessage_cases)
  have ok: "db_ok db \<Longrightarrow> db_ok (fst ?ins)" by (rule Store_InsertGroupMessage_ok)
  show thesis
  proof (rule that [OF _ _ _ ok step])
    show "group_messages (fst ?ins) = group_messages db \<or>
      (\<exists>row. group_messages (fst ?ins) = group_messages db @ [row] \<and> row_of sha row m r)"
      unfolding Store_InsertGroupMessage_cases using m by (auto simp: row_of_def Let_def)
    show "stored sha (fst ?ins) m r"
      unfolding Store_InsertGroupMessage_cases using m by (auto simp: stored_def group_hashes_def Let_def)
    show "same_tables db (fst ?ins)" if "stored sha db m r"
      using that m unfolding Store_InsertGroupMessage_cases
      by (simp add: stored_def group_hashes_def same_tables_def)
  qed
qed

lemma stored_mono:
  "stored sha db m r \<Longrightarrow> prefix (group_messages db) (group_messages db') \<Longrightarrow> stored sha db' m r"
  by (auto simp: stored_def group_hashes_def prefix_def)

lemma send_group_loop_stores:
  assumes "list_all2 sendable (drop i messages) results"
  shows "\<exists>db' new. send_group_loop sha (\<lambda>_. None) clock messages i results db = (db', Inr ()) \<and>
    group_messages db' = group_messages db @ new \<and>
    (\<forall>row \<in> set new. \<exists>(m, r) \<in> set (zip (drop i messages) results). row_of sha row m r) \<and>
    list_all2 (stored sha db') (drop i messages) results \<and>
    (list_all2 (stored sha db) (drop i messages) results \<longrightarrow> same_tables db db') \<and> (db_ok db \<longrightarrow> db_ok db')"
  using assms
proof (induction results arbitrary: i db rule: list.induct)
  case Nil
  then show ?case by simp
next
  case (Cons r rs)
  then obtain m ms where ms: "drop i messages = m # ms" by (cases "drop i messages") auto
  have rest: "drop (Suc i) messages = ms" using ms by (metis drop_Suc tl_drop list.sel(3))
  have "sendable m r" using Cons.prems ms by simp
  from send_group_step [OF ms this, where sha = sha and db = db and clock = clock and rs = rs] obtain db1
    where db1: "group_messages db1 = group_messages db \<or>
      (\<exists>row. group_messages db1 = group_messages db @ [row] \<and> row_of sha row m r)"
      "stored sha db1 m r" "stored sha db m r \<Longrightarrow> same_tables db db1" "db_ok db \<Longrightarrow> db_ok db1"
      "send_group_loop sha (\<lambda>_. None) clock messages i (r # rs) db =
       send_group_loop sha (\<lambda>_. None) clock messages (Suc i) rs db1" by blast
  from Cons.IH [of "Suc i" db1] Cons.prems ms rest obtain db' new where
    db': "send_group_loop sha (\<lambda>_. None) clock messages (Suc i) rs db1 = (db', Inr ())"
      "group_messages db' = group_messages db1 @ new"
      "\<forall>row \<in> set new. \<exists>(m, r) \<in> set (zip ms rs). row_of sha row m r"
      "list_all2 (stored sha db') ms rs"
      "list_all2 (stored sha db1) ms rs \<longrightarrow> same_tables db1 db'" "db_ok db1 \<longrightarrow> db_ok db'" by auto
  obtain new1 where new1: "group_messages db1 = group_messages db @ new1" "\<forall>row \<in> set new1. row_of sha row m r"
    using db1(1) by force
  have same: "same_tables db db'" if "stored sha db m r" "list_all2 (stored sha db) ms rs"
  proof -
    have s: "same_tables db db1" using db1(3) that(1) .
    then have "stored sha db1 x y" if "stored sha db x y" for x y
      using that by (simp add: stored_def group_hashes_def same_tables_def)
    then have "list_all2 (stored sha db1) ms rs" using that(2) by (rule list_all2_mono [rotated])
    then show ?thesis using db'(5) s same_tables_trans by blast
  qed
  show ?case
  proof (intro exI [of _ db'] exI [of _ "new1 @ new"] conjI)
    show "list_all2 (stored sha db') (drop i messages) (r # rs)"
      using db1(2) db'(2,4) ms stored_mono by (auto simp: prefix_def)
  qed (use db1 db' new1 ms same in auto)
qed

section \<open>Storing a batch of welcome messages\<close>

definition welcome_hashes :: "mls_db \<Rightarrow> bytes set" where
  "welcome_hashes db = wr_InstallationKeyDataHash ` set (welcome_messages db)"

fun welcome_stored :: "(bytes \<Rightarrow> bytes) \<Rightarrow> mls_db \<Rightarrow> WelcomeMessageInput option \<Rightarrow> bool" where
  "welcome_stored sha db (Some (WMI_V1 v)) = (sha (wmi_InstallationKey v @ wmi_Data v) \<in> welcome_hashes db)"
| "welcome_stored sha db (Some (WMI_WelcomePointer p)) =
     (sha (wpi_InstallationKey p @ wpi_WelcomePointer p) \<in> welcome_hashes db)"
| "welcome_stored sha db _ = False"

lemma insert_welcome_row_cases:
  "insert_welcome_row now k d h p a m t db =
     (if h \<in> welcome_hashes db
      then (db\<lparr>welcome_messages_seq := welcome_messages_seq db + 1\<rparr>, Inl unique_violation)
      else let row = welcome_row (welcome_messages_seq db) now k d h p a m t
           in (db\<lparr>welcome_messages_seq := welcome_messages_seq db + 1,
                  welcome_messages := welcome_messages db @ [row]\<rparr>, Inr row))"
  by (simp add: insert_welcome_row_def welcome_hashes_def Let_def)

lemma welcome_row_hash [simp]: "wr_InstallationKeyDataHash (welcome_row i now k d h p a m t) = h"
  by (simp add: welcome_row_def)

lemma insert_welcome_valid:
  assumes "validate_welcome_input input = None"
  obtains db' where "insert_welcome sha None now input db = (db', Inr ())" "welcome_stored sha db' input"
    "prefix (welcome_messages db) (welcome_messages db')" "db_ok db \<Longrightarrow> db_ok db'"
proof (cases input rule: validate_welcome_input.cases)
  case (2 v)
  let ?x = "InsertWelcomeMessage None now (wmi_InstallationKey v) (wmi_Data v)
    (sha (wmi_InstallationKey v @ wmi_Data v)) (wmi_HpkePublicKey v)
    (WrapperAlgorithmFromProto (wmi_WrapperAlgorithm v)) (wmi_WelcomeMetadata v) db"
  show thesis
  proof (rule that [of "fst ?x"])
    show "insert_welcome sha None now input db = (fst ?x, Inr ())"
      unfolding 2 insert_welcome_def Store_InsertWelcomeMessage_def InsertWelcomeMessage_def
      by (simp add: insert_welcome_row_cases finish_insert_def Let_def)
    show "welcome_stored sha (fst ?x) input"
      unfolding 2 by (auto simp: InsertWelcomeMessage_def insert_welcome_row_cases welcome_hashes_def Let_def)
    show "prefix (welcome_messages db) (welcome_messages (fst ?x))"
      by (simp add: InsertWelcomeMessage_def insert_welcome_row_cases Let_def)
  qed (rule InsertWelcomeMessage_ok)
next
  case (3 p)
  then obtain alg where alg: "WelcomePointerWrapperAlgorithmFromProto (wpi_WrapperAlgorithm p) = Inr alg"
    and ne: "wpi_HpkePublicKey p \<noteq> []"
    using assms by (auto split: if_splits sum.splits)
  let ?x = "InsertWelcomePointerMessage None now (wpi_InstallationKey p) (wpi_WelcomePointer p)
    (sha (wpi_InstallationKey p @ wpi_WelcomePointer p)) (wpi_HpkePublicKey p) alg db"
  show thesis
  proof (rule that [of "fst ?x"])
    show "insert_welcome sha None now input db = (fst ?x, Inr ())"
      unfolding 3 insert_welcome_def Store_InsertWelcomePointerMessage_def InsertWelcomePointerMessage_def
      using alg ne by (simp add: insert_welcome_row_cases finish_insert_def Let_def)
    show "welcome_stored sha (fst ?x) input"
      unfolding 3 by (auto simp: InsertWelcomePointerMessage_def insert_welcome_row_cases welcome_hashes_def Let_def)
    show "prefix (welcome_messages db) (welcome_messages (fst ?x))"
      by (simp add: InsertWelcomePointerMessage_def insert_welcome_row_cases Let_def)
  qed (rule InsertWelcomePointerMessage_ok)
qed (use assms in auto)

lemma welcome_stored_mono:
  "welcome_stored sha db input \<Longrightarrow> prefix (welcome_messages db) (welcome_messages db') \<Longrightarrow>
     welcome_stored sha db' input"
  by (cases "(sha, db, input)" rule: welcome_stored.cases) (auto simp: welcome_hashes_def prefix_def)

lemma errgroup_run_valid:
  assumes "\<And>input flt now. (input, flt, now) \<in> set steps \<Longrightarrow> validate_welcome_input input = None \<and> flt = None"
  shows "\<exists>db'. errgroup_run sha steps None db = (db', Inr ()) \<and>
    prefix (welcome_messages db) (welcome_messages db') \<and> (db_ok db \<longrightarrow> db_ok db') \<and>
    (\<forall>x \<in> set steps. welcome_stored sha db' (fst x))"
  using assms
proof (induction steps arbitrary: db rule: list.induct)
  case (Cons x steps)
  obtain input flt now where x: "x = (input, flt, now)" by (cases x)
  with Cons.prems have "validate_welcome_input input = None" and flt: "flt = None" by auto
  from insert_welcome_valid [OF this(1), of sha now db] obtain db1
    where db1: "insert_welcome sha None now input db = (db1, Inr ())" "welcome_stored sha db1 input"
      "prefix (welcome_messages db) (welcome_messages db1)" "db_ok db \<longrightarrow> db_ok db1" by blast
  obtain db' where db': "errgroup_run sha steps None db1 = (db', Inr ())"
      "prefix (welcome_messages db1) (welcome_messages db')" "db_ok db1 \<longrightarrow> db_ok db'"
      "\<forall>x \<in> set steps. welcome_stored sha db' (fst x)" using Cons by (metis list.set_intros(2))
  have "prefix (welcome_messages db) (welcome_messages db')"
    using db1(3) db'(2) by (rule prefix_order.trans)
  then show ?case using x flt db1 db' welcome_stored_mono [OF db1(2) db'(2)] by auto
qed simp

lemma first_error_None: "first_error f xs = None \<longleftrightarrow> (\<forall>x \<in> set xs. f x = None)"
  by (induction xs) (auto split: option.splits)

section \<open>Fetching key packages\<close>

definition is_last :: "'a list \<Rightarrow> nat \<Rightarrow> bool" where
  "is_last xs j \<longleftrightarrow> j < length xs \<and> xs ! j \<notin> set (drop (Suc j) xs)"

lemma last_index_notin: "x \<notin> set vs \<Longrightarrow> last_index x vs i acc = acc"
  by (induction vs arbitrary: i acc) auto

lemma last_index_split: "x \<notin> set vs \<Longrightarrow> last_index x (us @ x # vs) i acc = Some (i + length us)"
  by (induction us arbitrary: i acc) (auto simp: last_index_notin)

lemma last_index_Some:
  assumes "x \<in> set ys"
  obtains k where "last_index x ys 0 None = Some k" "k < length ys" "ys ! k = x"
    "\<And>j. j < length ys \<Longrightarrow> ys ! j = x \<Longrightarrow> is_last ys j \<longleftrightarrow> j = k"
proof -
  obtain us vs where ys: "ys = us @ x # vs" "x \<notin> set vs" using split_list_last [OF assms] by blast
  have last: "is_last ys j \<longleftrightarrow> j = length us" if "j < length ys" "ys ! j = x" for j
    using that ys
    by (auto simp: is_last_def nth_append nth_Cons' split: if_splits dest: nth_mem)
  with assms ys last_index_split [OF ys(2), of us 0 None] show thesis
    by (intro that [of "length us"]) auto
qed

lemma fill_packages_spec:
  assumes "distinct (map fst rows)" and "fst ` set rows \<subseteq> set ids" and "length out = length ids"
  shows "\<exists>out'. fill_packages ids rows out = Inr out' \<and> length out' = length ids \<and>
    (\<forall>j < length ids. out' ! j =
       (if is_last ids j \<and> ids ! j \<in> fst ` set rows then map_of rows (ids ! j) else out ! j))"
  using assms
proof (induction rows arbitrary: out)
  case (Cons row rows)
  obtain i kp where row: "row = (i, kp)" by (cases row)
  then have "i \<in> set ids" using Cons.prems by auto
  from last_index_Some [OF this] obtain k where k: "last_index i ids 0 None = Some k" "k < length ids"
    "ids ! k = i" "\<And>j. j < length ids \<Longrightarrow> ids ! j = i \<Longrightarrow> is_last ids j \<longleftrightarrow> j = k" by blast
  have "fst ` set rows \<subseteq> set ids" "distinct (map fst rows)" "length (out[k := Some kp]) = length ids"
    using Cons.prems by auto
  from Cons.IH [OF this(2,1,3)] obtain out' where
    out': "fill_packages ids rows (out[k := Some kp]) = Inr out'" "length out' = length ids"
      "\<forall>j < length ids. out' ! j = (if is_last ids j \<and> ids ! j \<in> fst ` set rows
         then map_of rows (ids ! j) else out[k := Some kp] ! j)" by blast
  have "i \<notin> fst ` set rows" using Cons.prems row by auto
  with out' k row Cons.prems show ?case
    by (intro exI [of _ out']) (auto simp: nth_list_update)
qed simp

section \<open>Properties\<close>


definition test_service :: mls_service where
  "test_service = \<lparr>disablePublish = False, cutoverChecker = Some 100, kp_client = (\<lambda>_. Inr []),
     gm_client = (\<lambda>ps. Inr (map (\<lambda>p. \<lparr>vr_IsOk = True, vr_ErrorMessage = [], vr_GroupId = ''0a'', vr_IsCommit = False\<rparr>) ps)),
     sha256_fn = id\<rparr>"

definition test_msg :: GroupMessageInput_V1 where
  "test_msg = \<lparr>gmi_Data = [5], gmi_SenderHmac = [], gmi_ShouldPush = True\<rparr>"


text \<open>
  A batch of welcome messages is stored whatever the interleaving of its goroutines: if the request
  passes validation and the database does not fail, then for every order in which the concurrent
  inserts reach the database the handler succeeds, every message of the batch is stored, and the
  welcome log has only grown at its end.
\<close>

theorem SendWelcomeMessages_any_schedule:
  assumes on: "\<not> isPublishDisabled s now" and val: "validateSendWelcomeMessagesRequest (Some ms) = None"
    and sched: "set (map fst (sched ms)) = set ms" and flt: "list_all (\<lambda>(input, flt, now). flt = None) (sched ms)"
    and ok: "db_ok db"
  shows "\<exists>db'. SendWelcomeMessages s now sched (Some ms) db = (db', Inr ()) \<and> db_ok db' \<and>
    prefix (welcome_messages db) (welcome_messages db') \<and> list_all (welcome_stored (sha256_fn s) db') ms"
proof -
  have "first_error validate_welcome_input ms = None"
    using val by (auto simp: validateSendWelcomeMessagesRequest_def split: list.splits)
  then have "\<forall>m \<in> set ms. validate_welcome_input m = None" by (simp add: first_error_None)
  moreover have "input \<in> set ms \<and> f = None" if x: "(input, f, t) \<in> set (sched ms)" for input f t
  proof
    show "input \<in> set ms" using imageI [OF x, of fst] sched by simp
    show "f = None" using flt x unfolding list_all_iff by fast
  qed
  ultimately have "validate_welcome_input input = None \<and> f = None"
    if "(input, f, t) \<in> set (sched ms)" for input f t using that by blast
  then obtain db' where db': "errgroup_run (sha256_fn s) (sched ms) None db = (db', Inr ())"
      "prefix (welcome_messages db) (welcome_messages db')" "db_ok db'"
      "\<forall>x \<in> set (sched ms). welcome_stored (sha256_fn s) db' (fst x)"
    using errgroup_run_valid [of "sched ms" "sha256_fn s" db] ok by blast
  have "welcome_stored (sha256_fn s) db' m" if "m \<in> set ms" for m
  proof -
    have "m \<in> fst ` set (sched ms)" using that sched by simp
    then show ?thesis using db'(4) by blast
  qed
  with db' on val show ?thesis by (auto simp: SendWelcomeMessages_def list_all_iff)
qed

definition test_welcome :: "WelcomeMessageInput option" where
  "test_welcome = Some (WMI_V1 \<lparr>wmi_InstallationKey = [1], wmi_Data = [2], wmi_HpkePublicKey = [3],
     wmi_WrapperAlgorithm = WWA_CURVE25519, wmi_WelcomeMetadata = []\<rparr>)"

theorem SendWelcomeMessages_any_schedule_witness:
  "\<exists>db'. SendWelcomeMessages test_service 7 (\<lambda>ms. map (\<lambda>m. (m, None, 0)) (rev ms)) (Some [test_welcome, test_welcome])
      empty_db = (db', Inr ()) \<and> list_all (welcome_stored id db') [test_welcome, test_welcome]"
proof -
  have on: "\<not> isPublishDisabled test_service 7"
    by (simp add: isPublishDisabled_def IsMigrationComplete_def test_service_def)
  have val: "validateSendWelcomeMessagesRequest (Some [test_welcome, test_welcome]) = None"
    by (simp add: validateSendWelcomeMessagesRequest_def test_welcome_def valid_welcome_v1_def)
  show ?thesis
    using SendWelcomeMessages_any_schedule [OF on val _ _ db_ok_empty,
        where sched = "\<lambda>ms. map (\<lambda>m. (m, None, 0)) (rev ms)"]
    by (auto simp: test_service_def)
qed

text \<open>
  C36. The cutover stops every write for good: once the configured cutover time has come, at that time and
  at every later one each writing handler of the MLS and the identity API answers Unavailable and
  leaves the database exactly as it was, whatever the request.
\<close>

theorem writes_stop_at_cutover:
  assumes "cutoverChecker s = Some c" and "c \<noteq> 0" and "c \<le> now" and "now \<le> later"
  shows "RegisterInstallation s T later req1 db = (db, Inl publish_unavailable) \<and>
    UploadKeyPackage s T later req1 db = (db, Inl publish_unavailable) \<and>
    SendGroupMessages s flt clock later req2 db = (db, Inl publish_unavailable) \<and>
    SendWelcomeMessages s later sched req3 db = (db, Inl publish_unavailable) \<and>
    BatchPublishCommitLog s marshal flt clock later req4 db = (db, Inl publish_unavailable) \<and>
    identity_PublishIdentityUpdate (disablePublish s) (cutoverChecker s) later E ctx bf cf F clock req5 db =
      (db, Inl publish_unavailable)"
proof -
  have "IsMigrationComplete (cutoverChecker s) later"
    using assms by (simp add: IsMigrationComplete_def)
  then show ?thesis
    by (simp add: isPublishDisabled_def RegisterInstallation_def UploadKeyPackage_def SendGroupMessages_def
        SendWelcomeMessages_def BatchPublishCommitLog_def identity_PublishIdentityUpdate_def)
qed

theorem writes_stop_at_cutover_witness:
  "SendGroupMessages test_service (\<lambda>_. None) int 101 None empty_db = (empty_db, Inl publish_unavailable)"
  using writes_stop_at_cutover [of test_service 100 100 101 no_tx_faults None empty_db "\<lambda>_. None" int None "\<lambda>_. []" None
      "\<lambda>_ :: unit. Inr []" None test_env_id "\<lambda>_. None" "\<lambda>_. None" "\<lambda>_. None" "\<lambda>_. no_publish_faults" None]
  by (simp add: test_service_def)

text \<open>
  Fetching key packages answers positionally: the response has one slot per requested id, and the last
  slot of each id holds the current key package of that installation, or nothing when there is none;
  an earlier slot of an id that is requested again stays empty.
\<close>

theorem FetchKeyPackages_positional:
  assumes "db_ok db"
  shows "\<exists>out. FetchKeyPackages None ids db = Inr out \<and> length out = length ids \<and>
    (\<forall>j < length ids. out ! j =
       (if is_last ids j then map_of (map (\<lambda>r. (in_ID r, in_KeyPackage r)) (installations db)) (ids ! j) else None))"
proof -
  let ?rows = "map (\<lambda>r. (in_ID r, in_KeyPackage r)) (filter (\<lambda>r. in_ID r \<in> set ids) (installations db))"
  have d: "distinct (map in_ID (installations db))" using assms by (simp add: db_ok_def installs_ok_def)
  have dist: "distinct (map fst ?rows)" using d by (simp add: comp_def distinct_map_filter)
  have sub: "fst ` set ?rows \<subseteq> set ids" by auto
  have len: "length (replicate (length ids) None) = length ids" by simp
  have lookup: "map_of (map (\<lambda>r. (in_ID r, in_KeyPackage r)) (filter (\<lambda>r. in_ID r \<in> set ids) rs)) k =
      map_of (map (\<lambda>r. (in_ID r, in_KeyPackage r)) rs) k" if "k \<in> set ids" for k rs
    using that by (induction rs) auto
  from fill_packages_spec [OF dist sub len] obtain out where out:
    "fill_packages ids ?rows (replicate (length ids) None) = Inr out" "length out = length ids"
    "\<And>j. j < length ids \<Longrightarrow> out ! j = (if is_last ids j \<and> ids ! j \<in> fst ` set ?rows
        then map_of ?rows (ids ! j) else replicate (length ids) None ! j)" by blast
  have "out ! j = (if is_last ids j
      then map_of (map (\<lambda>r. (in_ID r, in_KeyPackage r)) (installations db)) (ids ! j) else None)"
    if j: "j < length ids" for j
  proof -
    have "map_of ?rows (ids ! j) = None" if "ids ! j \<notin> fst ` set ?rows" using that by (simp add: map_of_eq_None_iff)
    then show ?thesis using out(3) [OF j] lookup [of "ids ! j" "installations db"] j by (auto split: if_splits)
  qed
  with out show ?thesis by (auto simp: FetchKeyPackages_def FetchKeyPackages_rs_def FetchKeyPackages_q_def)
qed

theorem FetchKeyPackages_positional_witness:
  "\<exists>out. FetchKeyPackages None [[1], [2], [1]]
      (empty_db\<lparr>installations := [\<lparr>in_ID = [1], in_CreatedAt = 0, in_UpdatedAt = 0, in_KeyPackage = [9],
        in_IsAppended = None\<rparr>]\<rparr>) = Inr out \<and> out ! 0 = None \<and> out ! 1 = None \<and> out ! 2 = Some [9]"
proof -
  let ?db = "empty_db\<lparr>installations := [\<lparr>in_ID = [1], in_CreatedAt = 0, in_UpdatedAt = 0, in_KeyPackage = [9],
        in_IsAppended = None\<rparr>]\<rparr>"
  have "db_ok ?db" by (simp add: db_ok_def part_defs log_ok_def empty_db_def)
  from FetchKeyPackages_positional [OF this, of "[[1], [2], [1]]"] show ?thesis
    by (auto simp: is_last_def)
qed

end
