(* ===== verification/Frames.thy ===== *)
theory Frames
  imports Mls_Types Sql
begin

text \<open>
  The frames of the Subscribe stream (pkg/mls/api/v1/subscribe.go): the responses the writer sends and
  the packing of messages into frames by \<open>buildGroupFrames\<close> and \<open>buildWelcomeFrames\<close>. The two
  closures are the same code over two message types, so both are instances of \<open>pack\<close>. The
  high-water marks are a function from topics to the last id sent, 0 where the Go map has no entry.

  The lemmas describe a call exactly: the messages that survive deduplication, in order, split into
  non-empty frames of at most the size limit unless a frame is a single message; the marks after it.
\<close>

section \<open>Responses\<close>

datatype frame =
    Started u32
  | Messages "GroupMessage list" "WelcomeMessage list" u64
  | TopicsLive "bytes list"
  | CatchupComplete u64
  | PongFrame u64
  | PingFrame u64

type_synonym marks = "string \<Rightarrow> u64"

section \<open>Packing\<close>

fun pack ::
  "('m \<Rightarrow> string) \<Rightarrow> ('m \<Rightarrow> u64) \<Rightarrow> ('m \<Rightarrow> int) \<Rightarrow> int \<Rightarrow> 'm list \<Rightarrow> marks \<Rightarrow> 'm list list \<Rightarrow> 'm list \<Rightarrow> int \<Rightarrow>
     marks \<times> 'm list list" where
  "pack key ident width maxFrameBytes [] hw frames frame frameBytes =
     (hw, if frame = [] then frames else frames @ [frame])"
| "pack key ident width maxFrameBytes (m # ms) hw frames frame frameBytes =
     (if ident m \<le> hw (key m) then pack key ident width maxFrameBytes ms hw frames frame frameBytes
      else
        let hw' = hw(key m := ident m); sz = width m in
        if maxFrameBytes < frameBytes + sz \<and> frame \<noteq> []
        then pack key ident width maxFrameBytes ms hw' (frames @ [frame]) [m] sz
        else pack key ident width maxFrameBytes ms hw' frames (frame @ [m]) (frameBytes + sz))"

definition groupKey :: "GroupMessage \<Rightarrow> string" where
  "groupKey m = BuildMLSV1GroupTopic (GetGroupId m)"

definition welcomeKey :: "WelcomeMessage \<Rightarrow> string" where
  "welcomeKey m = BuildMLSV1WelcomeTopic (welcomeInstallationKey m)"

definition groupSize :: "GroupMessage \<Rightarrow> int" where
  "groupSize m = int (length (GetData m))"

definition welcomeSize :: "WelcomeMessage \<Rightarrow> int" where
  "welcomeSize m = int (length (welcomeData m))"

definition buildGroupFrames :: "int \<Rightarrow> GroupMessage list \<Rightarrow> u64 \<Rightarrow> marks \<Rightarrow> marks \<times> frame list" where
  "buildGroupFrames maxFrameBytes msgs mutateID hw =
     (let (hw', frames) = pack groupKey GetId groupSize maxFrameBytes msgs hw [] [] 0
      in (hw', map (\<lambda>f. Messages f [] mutateID) frames))"

definition buildWelcomeFrames :: "int \<Rightarrow> WelcomeMessage list \<Rightarrow> u64 \<Rightarrow> marks \<Rightarrow> marks \<times> frame list" where
  "buildWelcomeFrames maxFrameBytes msgs mutateID hw =
     (let (hw', frames) = pack welcomeKey welcomeID welcomeSize maxFrameBytes msgs hw [] [] 0
      in (hw', map (\<lambda>f. Messages [] f mutateID) frames))"

section \<open>What a call does\<close>

text \<open>The survivors of deduplication: a message passes iff its id is above its topic's mark.\<close>

fun fresh :: "('m \<Rightarrow> string) \<Rightarrow> ('m \<Rightarrow> u64) \<Rightarrow> 'm list \<Rightarrow> marks \<Rightarrow> 'm list" where
  "fresh key ident [] hw = []"
| "fresh key ident (m # ms) hw =
     (if ident m \<le> hw (key m) then fresh key ident ms hw
      else m # fresh key ident ms (hw(key m := ident m)))"

fun raise_marks :: "('m \<Rightarrow> string) \<Rightarrow> ('m \<Rightarrow> u64) \<Rightarrow> 'm list \<Rightarrow> marks \<Rightarrow> marks" where
  "raise_marks key ident [] hw = hw"
| "raise_marks key ident (m # ms) hw =
     raise_marks key ident ms (if ident m \<le> hw (key m) then hw else hw(key m := ident m))"

definition frame_ok :: "('m \<Rightarrow> int) \<Rightarrow> int \<Rightarrow> 'm list \<Rightarrow> bool" where
  "frame_ok width maxb f \<longleftrightarrow> f \<noteq> [] \<and> (length f = 1 \<or> sum_list (map width f) \<le> maxb)"

lemma pack_spec:
  assumes "list_all (frame_ok width maxb) frames" and "frame = [] \<or> frame_ok width maxb frame"
    and "frameBytes = sum_list (map width frame)"
  shows "fst (pack key ident width maxb ms hw frames frame frameBytes) = raise_marks key ident ms hw \<and>
    concat (snd (pack key ident width maxb ms hw frames frame frameBytes)) =
      concat frames @ frame @ fresh key ident ms hw \<and>
    list_all (frame_ok width maxb) (snd (pack key ident width maxb ms hw frames frame frameBytes))"
  using assms
proof (induction ms arbitrary: hw frames frame frameBytes)
  case (Cons m ms)
  consider (old) "ident m \<le> hw (key m)"
    | (split) "\<not> ident m \<le> hw (key m)" "maxb < frameBytes + width m" "frame \<noteq> []"
    | (grow) "\<not> ident m \<le> hw (key m)" "\<not> (maxb < frameBytes + width m \<and> frame \<noteq> [])" by blast
  then show ?case
  proof cases
    case old
    then show ?thesis using Cons.IH [OF Cons.prems] by simp
  next
    case split
    have 1: "list_all (frame_ok width maxb) (frames @ [frame])" using Cons.prems split by auto
    have 2: "[m] = [] \<or> frame_ok width maxb [m]" by (simp add: frame_ok_def)
    have 3: "width m = sum_list (map width [m])" by simp
    show ?thesis using split Cons.IH [OF 1 2 3, of "hw(key m := ident m)"] by (simp add: Let_def fun_upd_def)
  next
    case grow
    have 2: "frame @ [m] = [] \<or> frame_ok width maxb (frame @ [m])"
      using grow Cons.prems(3) by (cases "frame = []") (auto simp: frame_ok_def)
    have 3: "frameBytes + width m = sum_list (map width (frame @ [m]))" using Cons.prems(3) by simp
    have "pack key ident width maxb (m # ms) hw frames frame frameBytes =
        pack key ident width maxb ms (hw(key m := ident m)) frames (frame @ [m]) (frameBytes + width m)"
      using grow by (auto simp: Let_def)
    then show ?thesis using grow(1) Cons.IH [OF Cons.prems(1) 2 3, of "hw(key m := ident m)"]
      by (simp add: fun_upd_def)
  qed
qed auto

lemmas pack_start = pack_spec [of _ _ "[]" "[]" 0, simplified]

text \<open>Per topic, the survivors are strictly above the mark, ascend, and the mark ends at the last one.\<close>

lemma fresh_above: "m \<in> set (fresh key ident ms hw) \<Longrightarrow> hw (key m) < ident m"
proof (induction ms arbitrary: hw)
  case (Cons x ms)
  then show ?case
    using Cons.IH [of "hw(key x := ident x)"] Cons.IH [of hw]
    by (force split: if_splits)
qed simp

lemma fresh_ascending:
  "sorted_wrt (<) (map ident (filter (\<lambda>m. key m = t) (fresh key ident ms hw)))"
proof (induction ms arbitrary: hw)
  case (Cons x ms)
  have "ident x < ident m" if "m \<in> set (fresh key ident ms (hw(key x := ident x)))" "key m = key x" for m
    using fresh_above [OF that(1)] that(2) by simp
  then show ?case using Cons by auto
qed simp

lemma raise_marks_eq:
  "raise_marks key ident ms hw t =
     (case filter (\<lambda>m. key m = t) (fresh key ident ms hw) of [] \<Rightarrow> hw t | xs \<Rightarrow> ident (last xs))"
  by (induction ms arbitrary: hw) (auto split: list.splits)

lemma raise_marks_mono: "hw t \<le> raise_marks key ident ms hw t"
proof (induction ms arbitrary: hw)
  case (Cons x ms)
  let ?hw = "if ident x \<le> hw (key x) then hw else hw(key x := ident x)"
  have "hw t \<le> ?hw t" by auto
  also have "\<dots> \<le> raise_marks key ident ms ?hw t" by (rule Cons.IH)
  finally show ?case by simp
qed simp

text \<open>Messages that ascend strictly per topic and lie above the marks all survive.\<close>

lemma fresh_all:
  assumes "\<And>m. m \<in> set ms \<Longrightarrow> hw (key m) < ident m"
    and "\<And>t. sorted_wrt (<) (map ident (filter (\<lambda>m. key m = t) ms))"
  shows "fresh key ident ms hw = ms"
  using assms
proof (induction ms arbitrary: hw)
  case (Cons x ms)
  have "(hw(key x := ident x)) (key m) < ident m" if "m \<in> set ms" for m
    using Cons.prems(1) [of m] Cons.prems(2) [of "key m"] that by (cases "key m = key x") auto
  moreover have "sorted_wrt (<) (map ident (filter (\<lambda>m. key m = t) ms))" for t
    using Cons.prems(2) [of t] by (cases "key x = t") auto
  ultimately have "fresh key ident ms (hw(key x := ident x)) = ms" by (rule Cons.IH)
  then show ?case using Cons.prems(1) [of x] by (simp add: not_le [symmetric])
qed simp

lemma fresh_cong:
  "(\<And>m. m \<in> set ms \<Longrightarrow> key m = t) \<Longrightarrow> hw t = hw' t \<Longrightarrow> fresh key ident ms hw = fresh key ident ms hw'"
proof (induction ms arbitrary: hw hw')
  case (Cons x ms)
  have "key x = t" using Cons.prems(1) by simp
  moreover have "fresh key ident ms hw = fresh key ident ms hw'"
    using Cons.prems by (intro Cons.IH) auto
  moreover have "fresh key ident ms (hw(t := ident x)) = fresh key ident ms (hw'(t := ident x))"
    using Cons.prems by (intro Cons.IH) auto
  ultimately show ?case using Cons.prems(2) by simp
qed simp

lemma fresh_filter_key:
  "filter (\<lambda>m. key m = t) (fresh key ident ms hw) = fresh key ident (filter (\<lambda>m. key m = t) ms) hw"
proof (induction ms arbitrary: hw)
  case (Cons x ms)
  have "fresh key ident (filter (\<lambda>m. key m = t) ms) (hw(key x := ident x)) =
      fresh key ident (filter (\<lambda>m. key m = t) ms) hw" if "key x \<noteq> t"
    using that by (intro fresh_cong [where t = t]) auto
  then show ?case using Cons.IH [of hw] Cons.IH [of "hw(key x := ident x)"]
    by (cases "key x = t") (simp_all add: fun_upd_def)
qed simp

lemma buildGroupFrames_eq:
  obtains frames where "buildGroupFrames maxb msgs mid hw =
      (raise_marks groupKey GetId msgs hw, map (\<lambda>f. Messages f [] mid) frames)"
    "concat frames = fresh groupKey GetId msgs hw" "list_all (frame_ok groupSize maxb) frames"
  using pack_start [of groupKey GetId groupSize maxb msgs hw]
  by (cases "pack groupKey GetId groupSize maxb msgs hw [] [] 0") (auto simp: buildGroupFrames_def)

lemma buildWelcomeFrames_eq:
  obtains frames where "buildWelcomeFrames maxb msgs mid hw =
      (raise_marks welcomeKey welcomeID msgs hw, map (\<lambda>f. Messages [] f mid) frames)"
    "concat frames = fresh welcomeKey welcomeID msgs hw" "list_all (frame_ok welcomeSize maxb) frames"
  using pack_start [of welcomeKey welcomeID welcomeSize maxb msgs hw]
  by (cases "pack welcomeKey welcomeID welcomeSize maxb msgs hw [] [] 0") (auto simp: buildWelcomeFrames_def)

end
