(* ===== verification/Catchup.thy ===== *)
theory Catchup
  imports Read_Store Frames "HOL-Library.Sublist"
begin

text \<open>
  The catch-up fetchers of the Subscribe stream (pkg/mls/api/v1/subscribe.go): \<open>catchUpGroups\<close> and
  \<open>catchUpWelcomes\<close> replay the topics of one wave in rotating batches and hand the fetched messages
  to the writer as \<open>catchUpBatch\<close> values. The two closures are the same code over two lanes, so both
  are \<open>catchUp\<close> over a record of what differs: the cursor records, the queries and the progress.

  The environment of a fetcher is explicit: what the two ceiling snapshots see, whether a scan slot
  was obtained, and per turn whether the stream was cancelled, which database the query reads,
  whether it failed, and whether the byte reservation succeeded. A fetcher that runs out of turns is
  still running. The locale \<open>scan_lane\<close> states what a lane's queries promise; its lemmas show
  that a rotation never skips or repeats a row and that it ends.

  The second part is the byte budget the fetchers share (\<open>reserveCatchUpBytes\<close>,
  \<open>freeCatchUpBytes\<close>), as a step relation over the atomic operations of any number of fetchers.
\<close>

section \<open>Batches\<close>

record catchUpBatch =
  cb_groupMsgs :: "GroupMessage list"
  cb_welcomeMsgs :: "WelcomeMessage list"
  cb_wave :: int
  cb_bytes :: int
  cb_done :: bool
  cb_err :: "go_error option"

definition zero_batch :: catchUpBatch where
  "zero_batch = \<lparr>cb_groupMsgs = [], cb_welcomeMsgs = [], cb_wave = 0, cb_bytes = 0, cb_done = False,
     cb_err = None\<rparr>"

definition done_batch :: "int \<Rightarrow> catchUpBatch" where
  "done_batch wave = zero_batch\<lparr>cb_wave := wave, cb_done := True\<rparr>"

definition err_batch :: "go_error \<Rightarrow> catchUpBatch" where
  "err_batch e = zero_batch\<lparr>cb_err := Some e\<rparr>"

text \<open>\<open>errors.Is(err, context.Canceled)\<close>.\<close>

definition is_canceled :: "go_error \<Rightarrow> bool" where
  "is_canceled e \<longleftrightarrow> e = Err ''context canceled''"

section \<open>The environment and the lanes\<close>

record turn_env =
  te_stop :: bool
  te_fault :: fault
  te_db :: mls_db
  te_reserved :: bool

record scan_env =
  se_ceiling_fault :: fault
  se_ceiling_db :: mls_db
  se_acquired :: bool
  se_refresh_fault :: fault
  se_refresh_db :: mls_db
  se_turns :: "turn_env list"

record scan_config =
  scanTopicPageLimit :: int
  scanBatchTopics :: int

record ('c, 'm) lane =
  lane_topic :: "'c \<Rightarrow> bytes"
  lane_cursor :: "'c \<Rightarrow> u64"
  lane_advance :: "u64 \<Rightarrow> 'c \<Rightarrow> 'c"
  lane_latest :: "fault \<Rightarrow> mls_db \<Rightarrow> int result"
  lane_turn :: "fault \<Rightarrow> 'c list \<Rightarrow> u64 \<Rightarrow> int \<Rightarrow> mls_db \<Rightarrow>
    ('m list \<times> (bytes \<Rightarrow> int) \<times> (bytes \<Rightarrow> u64)) result"
  lane_bytes :: "'m \<Rightarrow> int"
  lane_batch :: "'m list \<Rightarrow> int \<Rightarrow> int \<Rightarrow> catchUpBatch"

text \<open>The positions of the group scan are computed from the messages, those of the welcome scan are the store's raw progress.\<close>

fun scan_positions :: "GroupMessage list \<Rightarrow> (bytes \<Rightarrow> int) \<times> (bytes \<Rightarrow> u64) \<Rightarrow> (bytes \<Rightarrow> int) \<times> (bytes \<Rightarrow> u64)" where
  "scan_positions [] pos = pos"
| "scan_positions (m # ms) (counts, lastIDs) =
     scan_positions ms (counts(GetGroupId m := counts (GetGroupId m) + 1), lastIDs(GetGroupId m := GetId m))"

definition group_turn ::
  "fault \<Rightarrow> GroupCatchup list \<Rightarrow> u64 \<Rightarrow> int \<Rightarrow> mls_db \<Rightarrow>
     (GroupMessage list \<times> (bytes \<Rightarrow> int) \<times> (bytes \<Rightarrow> u64)) result" where
  "group_turn flt batch ceiling n db =
     (case QueryGroupMessagesWaveScan flt batch 0 ceiling n db of
        Inl e \<Rightarrow> Inl e
      | Inr msgs \<Rightarrow> Inr (msgs, scan_positions msgs (\<lambda>_. 0, \<lambda>_. 0)))"

definition welcome_turn ::
  "fault \<Rightarrow> WelcomeCatchup list \<Rightarrow> u64 \<Rightarrow> int \<Rightarrow> mls_db \<Rightarrow>
     (WelcomeMessage list \<times> (bytes \<Rightarrow> int) \<times> (bytes \<Rightarrow> u64)) result" where
  "welcome_turn flt batch ceiling n db =
     (case QueryWelcomeMessagesWaveScan flt batch 0 ceiling n db of
        Inl e \<Rightarrow> Inl e
      | Inr (msgs, progress) \<Rightarrow> Inr (msgs, \<lambda>k. RawCount (progress k), \<lambda>k. LastRawID (progress k)))"

definition group_lane :: "(GroupCatchup, GroupMessage) lane" where
  "group_lane =
     \<lparr>lane_topic = gc_GroupID, lane_cursor = gc_IdCursor, lane_advance = (\<lambda>i. gc_IdCursor_update (\<lambda>_. i)),
      lane_latest = GetLatestGroupMessageID, lane_turn = group_turn, lane_bytes = groupSize,
      lane_batch = (\<lambda>msgs wave n. zero_batch\<lparr>cb_groupMsgs := msgs, cb_wave := wave, cb_bytes := n\<rparr>)\<rparr>"

definition welcome_lane :: "(WelcomeCatchup, WelcomeMessage) lane" where
  "welcome_lane =
     \<lparr>lane_topic = wc_InstallationKey, lane_cursor = wc_IdCursor,
      lane_advance = (\<lambda>i. wc_IdCursor_update (\<lambda>_. i)),
      lane_latest = GetLatestWelcomeMessageID, lane_turn = welcome_turn, lane_bytes = welcomeSize,
      lane_batch = (\<lambda>msgs wave n. zero_batch\<lparr>cb_welcomeMsgs := msgs, cb_wave := wave, cb_bytes := n\<rparr>)\<rparr>"

section \<open>The rotation\<close>

text \<open>
  A topic that filled its limit advances its own cursor and goes to the back of the queue; every
  other topic of the batch retires.
\<close>

definition rotate_batch ::
  "('c, 'm) lane \<Rightarrow> int \<Rightarrow> (bytes \<Rightarrow> int) \<Rightarrow> (bytes \<Rightarrow> u64) \<Rightarrow> 'c list \<Rightarrow> 'c list" where
  "rotate_batch L n counts lastIDs batch =
     map (\<lambda>b. let k = lane_topic L b in
            if lane_cursor L b < lastIDs k then lane_advance L (lastIDs k) b else b)
       (filter (\<lambda>b. \<not> counts (lane_topic L b) < n) batch)"

fun scan_loop ::
  "('c, 'm) lane \<Rightarrow> int \<Rightarrow> int \<Rightarrow> int \<Rightarrow> u64 \<Rightarrow> turn_env list \<Rightarrow> 'c list \<Rightarrow> catchUpBatch list \<Rightarrow> catchUpBatch list" where
  "scan_loop L batchTopics n wave ceiling turns [] out = out @ [done_batch wave]"
| "scan_loop L batchTopics n wave ceiling [] (q # qs) out = out"
| "scan_loop L batchTopics n wave ceiling (e # turns) (q # qs) out =
     (if te_stop e then out
      else
        let queue = q # qs;
            batch = (if batchTopics < int (length queue) then take (nat batchTopics) queue else queue);
            rest = drop (length batch) queue
        in case lane_turn L (te_fault e) batch ceiling n (te_db e) of
             Inl err \<Rightarrow> if is_canceled err then out else out @ [err_batch err]
           | Inr (msgs, counts, lastIDs) \<Rightarrow>
               if msgs \<noteq> [] \<and> \<not> te_reserved e then out
               else scan_loop L batchTopics n wave ceiling turns (rest @ rotate_batch L n counts lastIDs batch)
                 (if msgs = [] then out
                  else out @ [lane_batch L msgs wave (sum_list (map (lane_bytes L) msgs))]))"

definition catchUp ::
  "('c, 'm) lane \<Rightarrow> scan_config \<Rightarrow> scan_env \<Rightarrow> 'c list \<Rightarrow> int \<Rightarrow> catchUpBatch list" where
  "catchUp L s env adds wave =
     (case lane_latest L (se_ceiling_fault env) (se_ceiling_db env) of
        Inl err \<Rightarrow> if is_canceled err then [] else [err_batch err]
      | Inr first \<Rightarrow>
          let queue = filter (\<lambda>a. lane_cursor L a < go_uint64 first) adds in
          if queue \<noteq> [] \<and> \<not> se_acquired env then []
          else
            let ceiling = (if queue = [] then first
                  else case lane_latest L (se_refresh_fault env) (se_refresh_db env) of
                    Inl _ \<Rightarrow> first | Inr c \<Rightarrow> if first < c then c else first);
                batchTopics = (if scanBatchTopics s < 1 then 1 else scanBatchTopics s);
                n = (if scanTopicPageLimit s < 1 then 1 else scanTopicPageLimit s)
            in scan_loop L batchTopics n wave (go_uint64 ceiling) (se_turns env) queue [])"

definition catchUpGroups :: "scan_config \<Rightarrow> scan_env \<Rightarrow> GroupCatchup list \<Rightarrow> int \<Rightarrow> catchUpBatch list" where
  "catchUpGroups = catchUp group_lane"

definition catchUpWelcomes :: "scan_config \<Rightarrow> scan_env \<Rightarrow> WelcomeCatchup list \<Rightarrow> int \<Rightarrow> catchUpBatch list" where
  "catchUpWelcomes = catchUp welcome_lane"

section \<open>What a lane promises\<close>

text \<open>The rows of a topic a wave still owes: above the topic's cursor, at most the ceiling.\<close>

definition owed :: "('r \<Rightarrow> int) \<Rightarrow> ('r \<Rightarrow> bytes) \<Rightarrow> bytes \<Rightarrow> u64 \<Rightarrow> int \<Rightarrow> 'r list \<Rightarrow> 'r list" where
  "owed k topic t cursor u rows = filter (\<lambda>r. (topic r = t \<and> k r \<le> u) \<and> uint cursor < k r) rows"

text \<open>
  Ids become visible in id order: every later snapshot holds the same rows up to the ceiling.
\<close>

definition stable_below :: "('r \<Rightarrow> int) \<Rightarrow> int \<Rightarrow> 'r list \<Rightarrow> 'r list \<Rightarrow> bool" where
  "stable_below k u rows rows' \<longleftrightarrow> filter (\<lambda>r. k r \<le> u) rows' = filter (\<lambda>r. k r \<le> u) rows"

lemma owed_stable:
  assumes "stable_below k u rows rows'"
  shows "owed k topic t c u rows' = owed k topic t c u rows"
proof -
  have "owed k topic t c u xs = filter (\<lambda>r. topic r = t \<and> uint c < k r) (filter (\<lambda>r. k r \<le> u) xs)" for xs
    by (auto simp: owed_def intro!: filter_cong)
  with assms show ?thesis by (simp add: stable_below_def del: filter_filter)
qed

lemma lateral_scan_owed:
  assumes ok: "log_ids_ok k rows nxt" and d: "distinct (map t_of filters)" and f: "f \<in> set filters"
  shows "filter (\<lambda>r. topic r = t_of f) (lateral_scan k topic rows
      (map (\<lambda>f. (t_of f, clampCursor (c_of f))) filters) (clampCursor 0) (clampCursor ceiling) n) =
    take (nat n) (owed k topic (t_of f) (c_of f) (uint ceiling) rows)"
proof -
  let ?fs = "map (\<lambda>f. (t_of f, clampCursor (c_of f))) filters"
  have d': "distinct (map fst ?fs)" using d by (simp add: comp_def)
  have "filter (\<lambda>r. topic r = t_of f) (lateral_scan k topic rows ?fs (clampCursor 0) (clampCursor ceiling) n) =
      take (nat n) (scan_window k topic (t_of f) (clampCursor (c_of f)) (clampCursor 0) (clampCursor ceiling) rows)"
    using f by (intro lateral_scan_topic [OF log_ids_okD(1) [OF ok] d']) auto
  also have "scan_window k topic (t_of f) (clampCursor (c_of f)) (clampCursor 0) (clampCursor ceiling) rows =
      owed k topic (t_of f) (c_of f) (uint ceiling) rows"
    unfolding scan_window_def owed_def
  proof (rule filter_cong [OF refl])
    fix r assume r: "r \<in> set rows"
    have "0 < k r" using log_ids_okD(2) [OF ok r] .
    with scan_window_iff [OF ok r, of topic "t_of f" "c_of f" 0 ceiling]
    show "(topic r = t_of f \<and> max (clampCursor (c_of f)) (clampCursor 0) < k r \<and> k r \<le> clampCursor ceiling) =
        ((topic r = t_of f \<and> k r \<le> uint ceiling) \<and> uint (c_of f) < k r)" by auto
  qed
  finally show ?thesis .
qed

lemma lateral_scan_topics:
  assumes "ascending k rows"
  shows "topic ` set (lateral_scan k topic rows (map (\<lambda>f. (t_of f, c_of f)) filters) fl u n) \<subseteq> t_of ` set filters"
  unfolding set_lateral_scan [OF assms] by (auto simp: scan_window_def dest!: in_set_takeD)

lemma scan_positions_eq:
  "scan_positions (map group_message_proto rows) (counts, lastIDs) =
     (\<lambda>t. counts t + int (length (filter (\<lambda>r. gr_GroupID r = t) rows)),
      \<lambda>t. case filter (\<lambda>r. gr_GroupID r = t) rows of [] \<Rightarrow> lastIDs t | xs \<Rightarrow> go_uint64 (gr_ID (last xs)))"
  by (induction rows arbitrary: counts lastIDs) (auto simp: fun_eq_iff split: list.splits)


locale scan_lane =
  fixes L :: "('c, 'm) lane"
    and rows :: "mls_db \<Rightarrow> 'r list" and key :: "'r \<Rightarrow> int" and topic :: "'r \<Rightarrow> bytes"
    and nxt :: "mls_db \<Rightarrow> int" and proto :: "'r \<Rightarrow> 'm option"
    and mtopic :: "'m \<Rightarrow> bytes" and mid :: "'m \<Rightarrow> u64"
  assumes latest: "lane_latest L None db = Inr (max_id key (rows db))"
    and latest_fault: "lane_latest L (Some e) db = Inl e"
    and advance [simp]: "lane_topic L (lane_advance L i c) = lane_topic L c"
      "lane_cursor L (lane_advance L i c) = i"
    and getters: "proto r = Some m \<Longrightarrow> mtopic m = topic r \<and> mid m = go_uint64 (key r)"
    and turn_fault: "batch \<noteq> [] \<Longrightarrow> ceiling \<noteq> 0 \<Longrightarrow> lane_turn L (Some e) batch ceiling n db = Inl e"
    and turn: "log_ids_ok key (rows db) (nxt db) \<Longrightarrow> distinct (map (lane_topic L) batch) \<Longrightarrow> batch \<noteq> [] \<Longrightarrow>
      ceiling \<noteq> 0 \<Longrightarrow>
      \<exists>out. lane_turn L None batch ceiling n db =
          Inr (List.map_filter proto out, \<lambda>t. int (length (filter (\<lambda>r. topic r = t) out)),
            \<lambda>t. case filter (\<lambda>r. topic r = t) out of [] \<Rightarrow> 0 | xs \<Rightarrow> go_uint64 (key (last xs))) \<and>
        ascending key out \<and> set out \<subseteq> set (rows db) \<and> topic ` set out \<subseteq> lane_topic L ` set batch \<and>
        (\<forall>c \<in> set batch. filter (\<lambda>r. topic r = lane_topic L c) out =
           take (nat n) (owed key topic (lane_topic L c) (lane_cursor L c) (uint ceiling) (rows db)))"
begin

text \<open>What is owed to a queued topic.\<close>

lemma map_filter_topic:
  "filter (\<lambda>m. mtopic m = t) (List.map_filter proto rs) = List.map_filter proto (filter (\<lambda>r. topic r = t) rs)"
  by (induction rs) (auto simp: List.map_filter_simps dest!: getters split: option.splits)

lemma map_filter_ids:
  assumes "ascending key rs" and "\<And>r. r \<in> set rs \<Longrightarrow> 0 < key r \<and> key r < 2 ^ 63"
  shows "sorted_wrt (<) (map mid (List.map_filter proto rs))"
  using assms
proof (induction rs)
  case (Cons r rs)
  have IH: "sorted_wrt (<) (map mid (List.map_filter proto rs))" using Cons by simp
  have "go_uint64 (key r) < mid m" if m: "m \<in> set (List.map_filter proto rs)" for m
  proof -
    from m obtain r' where r': "r' \<in> set rs" "proto r' = Some m"
      by (auto simp: List.map_filter_def)
    then have "key r < key r'" using Cons.prems(1) by simp
    moreover have "uint (go_uint64 (key r)) = key r" "uint (go_uint64 (key r')) = key r'"
      using Cons.prems(2) [of r] Cons.prems(2) [of r'] r'(1) by (simp_all add: uint_go_uint64)
    ultimately show ?thesis using getters [OF r'(2)] by (simp add: word_less_def)
  qed
  with IH show ?case
    by (auto simp: List.map_filter_simps dest!: getters split: option.splits)
qed (simp add: List.map_filter_simps)

lemma page_advance:
  assumes ok: "log_ids_ok key W nx" and page: "page = take n (owed key topic t cursor u W)"
    and full: "n \<le> length page" and pos: "0 < n"
  shows "cursor < go_uint64 (key (last page))"
    and "owed key topic t cursor u W = page @ owed key topic t (go_uint64 (key (last page))) u W"
proof -
  have ne: "page \<noteq> []" using full pos by auto
  then have "last page \<in> set page" by simp
  then have "last page \<in> set (owed key topic t cursor u W)" using page in_set_takeD by metis
  then have last: "last page \<in> set W" "uint cursor < key (last page)" by (auto simp: owed_def)
  have u: "uint (go_uint64 (key (last page))) = key (last page)" using log_ids_ok_uint [OF ok last(1)] .
  show "cursor < go_uint64 (key (last page))" using last(2) u by (simp add: word_less_def)
  show "owed key topic t cursor u W = page @ owed key topic t (go_uint64 (key (last page))) u W"
    using filter_above_last_page [OF log_ids_okD(1) [OF ok] page [unfolded owed_def] ne] u
    by (simp add: owed_def)
qed

lemma page_retire:
  assumes "page = take n (owed key topic t cursor u W)" and "length page < n"
  shows "page = owed key topic t cursor u W"
  using assms filter_above_short_page by (simp add: owed_def)

end

interpretation gscan: scan_lane group_lane group_messages gr_ID gr_GroupID group_messages_seq
  "\<lambda>r. Some (group_message_proto r)" GetGroupId GetId
proof unfold_locales
  fix db :: mls_db and batch :: "GroupCatchup list" and ceiling :: u64 and n :: int
  assume ok: "log_ids_ok gr_ID (group_messages db) (group_messages_seq db)"
    and d: "distinct (map (lane_topic group_lane) batch)" and ne: "batch \<noteq> []" "ceiling \<noteq> 0"
  let ?out = "lateral_scan gr_ID gr_GroupID (group_messages db)
    (map (\<lambda>f. (gc_GroupID f, clampCursor (gc_IdCursor f))) batch) (clampCursor 0) (clampCursor ceiling) n"
  note asc = log_ids_okD(1) [OF ok]
  have d': "distinct (map gc_GroupID batch)" using d by (simp add: group_lane_def)
  have "set ?out \<subseteq> set (group_messages db)"
    unfolding set_lateral_scan [OF asc] by (auto simp: scan_window_def dest!: in_set_takeD)
  moreover have "ascending gr_ID ?out" using asc d' by (intro ascending_lateral_scan) (auto simp: comp_def)
  moreover have "gr_GroupID ` set ?out \<subseteq> gc_GroupID ` set batch" using asc by (rule lateral_scan_topics)
  moreover have "group_turn None batch ceiling n db = Inr (map group_message_proto ?out,
      scan_positions (map group_message_proto ?out) (\<lambda>_. 0, \<lambda>_. 0))"
    using ne by (simp add: group_turn_def QueryGroupMessagesWaveScan_def)
  ultimately show "\<exists>out. lane_turn group_lane None batch ceiling n db =
          Inr (List.map_filter (\<lambda>r. Some (group_message_proto r)) out,
            \<lambda>t. int (length (filter (\<lambda>r. gr_GroupID r = t) out)),
            \<lambda>t. case filter (\<lambda>r. gr_GroupID r = t) out of [] \<Rightarrow> 0 | xs \<Rightarrow> go_uint64 (gr_ID (last xs))) \<and>
        ascending gr_ID out \<and> set out \<subseteq> set (group_messages db) \<and>
        gr_GroupID ` set out \<subseteq> lane_topic group_lane ` set batch \<and>
        (\<forall>c \<in> set batch. filter (\<lambda>r. gr_GroupID r = lane_topic group_lane c) out =
           take (nat n) (owed gr_ID gr_GroupID (lane_topic group_lane c) (lane_cursor group_lane c)
             (uint ceiling) (group_messages db)))"
    using lateral_scan_owed [OF ok d'] unfolding scan_positions_eq
    by (intro exI [of _ ?out]) (simp add: group_lane_def map_filter_Some)
qed (simp_all add: group_lane_def GetLatestGroupMessageID_def group_turn_def QueryGroupMessagesWaveScan_def)

interpretation wscan: scan_lane welcome_lane welcome_messages wr_ID wr_InstallationKey welcome_messages_seq
  welcome_message_proto welcomeInstallationKey welcomeID
proof unfold_locales
  fix db :: mls_db and batch :: "WelcomeCatchup list" and ceiling :: u64 and n :: int
  assume ok: "log_ids_ok wr_ID (welcome_messages db) (welcome_messages_seq db)"
    and d: "distinct (map (lane_topic welcome_lane) batch)" and ne: "batch \<noteq> []" "ceiling \<noteq> 0"
  let ?out = "lateral_scan wr_ID wr_InstallationKey (welcome_messages db)
    (map (\<lambda>f. (wc_InstallationKey f, clampCursor (wc_IdCursor f))) batch) (clampCursor 0) (clampCursor ceiling) n"
  note asc = log_ids_okD(1) [OF ok]
  have d': "distinct (map wc_InstallationKey batch)" using d by (simp add: welcome_lane_def)
  have "set ?out \<subseteq> set (welcome_messages db)"
    unfolding set_lateral_scan [OF asc] by (auto simp: scan_window_def dest!: in_set_takeD)
  moreover have "ascending wr_ID ?out" using asc d' by (intro ascending_lateral_scan) (auto simp: comp_def)
  moreover have "wr_InstallationKey ` set ?out \<subseteq> wc_InstallationKey ` set batch" using asc by (rule lateral_scan_topics)
  moreover have "welcome_turn None batch ceiling n db = Inr (List.map_filter welcome_message_proto ?out,
      \<lambda>t. int (length (filter (\<lambda>r. wr_InstallationKey r = t) ?out)),
      \<lambda>t. case filter (\<lambda>r. wr_InstallationKey r = t) ?out of [] \<Rightarrow> 0 | xs \<Rightarrow> go_uint64 (wr_ID (last xs)))"
    using ne by (auto simp: welcome_turn_def QueryWelcomeMessagesWaveScan_def scan_welcome_rows_spec
        zero_progress_def Let_def fun_eq_iff split: list.splits)
  ultimately show "\<exists>out. lane_turn welcome_lane None batch ceiling n db =
          Inr (List.map_filter welcome_message_proto out,
            \<lambda>t. int (length (filter (\<lambda>r. wr_InstallationKey r = t) out)),
            \<lambda>t. case filter (\<lambda>r. wr_InstallationKey r = t) out of [] \<Rightarrow> 0 | xs \<Rightarrow> go_uint64 (wr_ID (last xs))) \<and>
        ascending wr_ID out \<and> set out \<subseteq> set (welcome_messages db) \<and>
        wr_InstallationKey ` set out \<subseteq> lane_topic welcome_lane ` set batch \<and>
        (\<forall>c \<in> set batch. filter (\<lambda>r. wr_InstallationKey r = lane_topic welcome_lane c) out =
           take (nat n) (owed wr_ID wr_InstallationKey (lane_topic welcome_lane c) (lane_cursor welcome_lane c)
             (uint ceiling) (welcome_messages db)))"
    using lateral_scan_owed [OF ok d'] by (intro exI [of _ ?out]) (simp add: welcome_lane_def)
qed (auto simp: welcome_lane_def GetLatestWelcomeMessageID_def welcome_turn_def
    QueryWelcomeMessagesWaveScan_def dest: welcome_message_proto_getters)


section \<open>A rotation neither skips nor repeats a row, and ends\<close>

text \<open>
  The ceiling a scan ends up with, and what its snapshots see: the tables satisfy the id discipline,
  and ids become visible in order, so later snapshots hold the same rows up to the ceilings.
\<close>

definition first_ceiling :: "('r \<Rightarrow> int) \<Rightarrow> (mls_db \<Rightarrow> 'r list) \<Rightarrow> scan_env \<Rightarrow> int" where
  "first_ceiling k rows env = max_id k (rows (se_ceiling_db env))"

definition final_ceiling :: "('r \<Rightarrow> int) \<Rightarrow> (mls_db \<Rightarrow> 'r list) \<Rightarrow> scan_env \<Rightarrow> int" where
  "final_ceiling k rows env =
     (if se_refresh_fault env = None then max (first_ceiling k rows env) (max_id k (rows (se_refresh_db env)))
      else first_ceiling k rows env)"

definition snapshots_ok :: "('r \<Rightarrow> int) \<Rightarrow> (mls_db \<Rightarrow> 'r list) \<Rightarrow> (mls_db \<Rightarrow> int) \<Rightarrow> scan_env \<Rightarrow> bool" where
  "snapshots_ok k rows nxt env \<longleftrightarrow>
     log_ids_ok k (rows (se_ceiling_db env)) (nxt (se_ceiling_db env)) \<and>
     log_ids_ok k (rows (se_refresh_db env)) (nxt (se_refresh_db env)) \<and>
     stable_below k (first_ceiling k rows env) (rows (se_ceiling_db env)) (rows (se_refresh_db env)) \<and>
     list_all (\<lambda>e. log_ids_ok k (rows (te_db e)) (nxt (te_db e)) \<and>
       stable_below k (final_ceiling k rows env) (rows (se_refresh_db env)) (rows (te_db e))) (se_turns env)"

text \<open>
  What a fetcher owes a topic: nothing when its cursor is at the first ceiling, else its rows above the
  cursor up to the final ceiling.
\<close>

definition due :: "('r \<Rightarrow> int) \<Rightarrow> ('r \<Rightarrow> bytes) \<Rightarrow> (mls_db \<Rightarrow> 'r list) \<Rightarrow> scan_env \<Rightarrow> bytes \<Rightarrow> u64 \<Rightarrow> 'r list" where
  "due k topic rows env t cursor =
     (if uint cursor < first_ceiling k rows env
      then owed k topic t cursor (final_ceiling k rows env) (rows (se_refresh_db env)) else [])"

lemma max_id_range:
  assumes "log_ids_ok k rows nxt"
  shows "0 \<le> max_id k rows" and "max_id k rows < 2 ^ 63"
  using max_id_in [of rows k] log_ids_okD(2,3) [OF assms]
  by (cases "rows = []"; force simp: max_id_def)+

text \<open>A turn in which the query and the reservation succeed.\<close>

definition turn_good :: "turn_env \<Rightarrow> bool" where
  "turn_good e \<longleftrightarrow> \<not> te_stop e \<and> te_fault e = None \<and> te_reserved e"

lemma filter_no_topic: "f ` set xs \<subseteq> S \<Longrightarrow> t \<notin> S \<Longrightarrow> filter (\<lambda>x. f x = t) xs = []"
  by (auto simp: filter_empty_conv)

context scan_lane
begin

lemma turn_step:
  assumes ok: "log_ids_ok key (rows db) (nxt db)" and okW: "log_ids_ok key W nx"
    and st: "stable_below key (uint ceiling) W (rows db)"
    and d: "distinct (map (lane_topic L) batch)" and ne: "batch \<noteq> []" "ceiling \<noteq> 0" and n: "0 < n"
  obtains msgs counts lastIDs where
    "lane_turn L None batch ceiling n db = Inr (msgs, counts, lastIDs)"
    "sorted_wrt (<) (map mid msgs)" "mtopic ` set msgs \<subseteq> lane_topic L ` set batch"
    "\<forall>c \<in> set batch. \<exists>page.
      filter (\<lambda>m. mtopic m = lane_topic L c) msgs = List.map_filter proto page \<and>
      (if counts (lane_topic L c) < n then page = owed key topic (lane_topic L c) (lane_cursor L c) (uint ceiling) W
       else page \<noteq> [] \<and> lane_cursor L c < lastIDs (lane_topic L c) \<and>
         owed key topic (lane_topic L c) (lane_cursor L c) (uint ceiling) W =
           page @ owed key topic (lane_topic L c) (lastIDs (lane_topic L c)) (uint ceiling) W)"
proof -
  from turn [OF ok d ne, of n] obtain out where
    eq: "lane_turn L None batch ceiling n db =
          Inr (List.map_filter proto out, \<lambda>t. int (length (filter (\<lambda>r. topic r = t) out)),
            \<lambda>t. case filter (\<lambda>r. topic r = t) out of [] \<Rightarrow> 0 | xs \<Rightarrow> go_uint64 (key (last xs)))"
    and asc: "ascending key out" and sub: "set out \<subseteq> set (rows db)"
    and tops: "topic ` set out \<subseteq> lane_topic L ` set batch"
    and pages: "\<forall>c \<in> set batch. filter (\<lambda>r. topic r = lane_topic L c) out =
           take (nat n) (owed key topic (lane_topic L c) (lane_cursor L c) (uint ceiling) (rows db))" by auto
  have ids: "sorted_wrt (<) (map mid (List.map_filter proto out))"
  proof (rule map_filter_ids [OF asc])
    show "0 < key r \<and> key r < 2 ^ 63" if "r \<in> set out" for r using log_ids_okD(2,3) [OF ok] sub that by blast
  qed
  have mt: "mtopic ` set (List.map_filter proto out) \<subseteq> lane_topic L ` set batch"
    using tops getters by (fastforce simp: List.map_filter_def)
  show thesis
  proof (rule that [OF eq ids mt], intro ballI)
    fix c assume c: "c \<in> set batch"
    let ?t = "lane_topic L c"
    let ?page = "filter (\<lambda>r. topic r = ?t) out"
    have page: "?page = take (nat n) (owed key topic ?t (lane_cursor L c) (uint ceiling) W)"
      using pages c owed_stable [OF st] by simp
    show "\<exists>page. filter (\<lambda>m. mtopic m = ?t) (List.map_filter proto out) = List.map_filter proto page \<and>
      (if int (length ?page) < n then page = owed key topic ?t (lane_cursor L c) (uint ceiling) W
       else page \<noteq> [] \<and> lane_cursor L c < (case ?page of [] \<Rightarrow> 0 | xs \<Rightarrow> go_uint64 (key (last xs))) \<and>
         owed key topic ?t (lane_cursor L c) (uint ceiling) W = page @ owed key topic ?t
           (case ?page of [] \<Rightarrow> 0 | xs \<Rightarrow> go_uint64 (key (last xs))) (uint ceiling) W)"
    proof (cases "int (length ?page) < n")
      case True
      then have "length ?page < nat n" by simp
      from page_retire [OF page this] True show ?thesis by (intro exI [of _ ?page]) (simp add: map_filter_topic)
    next
      case False
      then have full: "nat n \<le> length ?page" and pos: "0 < nat n" using n by simp_all
      then have "?page \<noteq> []" by auto
      then have "(case ?page of [] \<Rightarrow> 0 | xs \<Rightarrow> go_uint64 (key (last xs))) = go_uint64 (key (last ?page))"
        by (simp split: list.splits)
      then show ?thesis
        using page_advance [OF okW page full pos] False \<open>?page \<noteq> []\<close>
        by (intro exI [of _ ?page]) (simp add: map_filter_topic)
    qed
  qed
qed


text \<open>
  The facts about one turn, for a batch \<open>batch\<close> of which the topics that filled their limit go on
  with the advanced cursor.
\<close>

lemma rotate_batch_mem:
  assumes "\<forall>c \<in> set batch. \<not> counts (lane_topic L c) < n \<longrightarrow> lane_cursor L c < lastIDs (lane_topic L c)"
  shows "rotate_batch L n counts lastIDs batch =
    map (\<lambda>b. lane_advance L (lastIDs (lane_topic L b)) b) (filter (\<lambda>b. \<not> counts (lane_topic L b) < n) batch)"
  using assms by (auto simp: rotate_batch_def Let_def)

lemma rotate_batch_weight:
  assumes "\<forall>c \<in> set batch. \<exists>page.
      (if counts (lane_topic L c) < n then page = w c
       else page \<noteq> [] \<and> w c = page @ w (lane_advance L (lastIDs (lane_topic L c)) c))"
  shows "sum_list (map (\<lambda>c. 1 + length (w c)) (map (\<lambda>b. lane_advance L (lastIDs (lane_topic L b)) b)
      (filter (\<lambda>b. \<not> counts (lane_topic L b) < n) batch))) + length batch \<le>
    sum_list (map (\<lambda>c. 1 + length (w c)) batch)"
  using assms
proof (induction batch)
  case (Cons c batch)
  then have IH: "sum_list (map (\<lambda>c. 1 + length (w c)) (map (\<lambda>b. lane_advance L (lastIDs (lane_topic L b)) b)
      (filter (\<lambda>b. \<not> counts (lane_topic L b) < n) batch))) + length batch \<le>
    sum_list (map (\<lambda>c. 1 + length (w c)) batch)" by simp
  show ?case
  proof (cases "counts (lane_topic L c) < n")
    case True
    then show ?thesis using IH by simp
  next
    case False
    with Cons.prems obtain page where "page \<noteq> []" "w c = page @ w (lane_advance L (lastIDs (lane_topic L c)) c)"
      by auto
    then have "length (w (lane_advance L (lastIDs (lane_topic L c)) c)) + 1 \<le> length (w c)"
      by (cases page) auto
    then show ?thesis using False IH by simp
  qed
qed simp

lemma rotate_step:
  assumes d: "distinct (map (lane_topic L) (batch @ rest))"
    and mt: "mtopic ` set msgs \<subseteq> lane_topic L ` set batch"
    and pages: "\<forall>c \<in> set batch. \<exists>page.
      filter (\<lambda>m. mtopic m = lane_topic L c) msgs = List.map_filter proto page \<and>
      (if full c then owed key topic (lane_topic L c) (lane_cursor L c) u W =
           page @ owed key topic (lane_topic L c) (last_id c) u W
       else page = owed key topic (lane_topic L c) (lane_cursor L c) u W)"
    and new: "new = rest @ map (\<lambda>c. lane_advance L (last_id c) c) (filter full batch)"
    and lt: "mtopic ` set later \<subseteq> lane_topic L ` set new"
    and R: "\<And>x. R x x" "\<And>p x y. R x y \<Longrightarrow> R (p @ x) (p @ y)"
    and IH: "\<forall>c \<in> set new. R (filter (\<lambda>m. mtopic m = lane_topic L c) later)
      (List.map_filter proto (owed key topic (lane_topic L c) (lane_cursor L c) u W))"
  shows "\<forall>c \<in> set (batch @ rest). R (filter (\<lambda>m. mtopic m = lane_topic L c) (msgs @ later))
      (List.map_filter proto (owed key topic (lane_topic L c) (lane_cursor L c) u W))"
proof
  fix c assume "c \<in> set (batch @ rest)"
  then consider (rest) "c \<in> set rest" | (retire) "c \<in> set batch" "\<not> full c" | (full) "c \<in> set batch" "full c" by auto
  then show "R (filter (\<lambda>m. mtopic m = lane_topic L c) (msgs @ later))
      (List.map_filter proto (owed key topic (lane_topic L c) (lane_cursor L c) u W))"
  proof cases
    case rest
    then have "lane_topic L c \<notin> lane_topic L ` set batch" using d by auto
    then have "filter (\<lambda>m. mtopic m = lane_topic L c) msgs = []" by (rule filter_no_topic [OF mt])
    then show ?thesis using IH rest new by auto
  next
    case retire
    have inj: "inj_on (lane_topic L) (set batch)" using d by (simp add: distinct_map)
    have "lane_topic L c \<notin> lane_topic L ` set new"
      using retire d inj unfolding new by (auto dest: inj_onD)
    then have "filter (\<lambda>m. mtopic m = lane_topic L c) later = []" by (rule filter_no_topic [OF lt])
    moreover from pages retire obtain page where
      "filter (\<lambda>m. mtopic m = lane_topic L c) msgs = List.map_filter proto page"
      "page = owed key topic (lane_topic L c) (lane_cursor L c) u W" by auto
    ultimately show ?thesis using R(1) by simp
  next
    case full
    then have "lane_advance L (last_id c) c \<in> set new" unfolding new by auto
    with IH have "R (filter (\<lambda>m. mtopic m = lane_topic L c) later)
        (List.map_filter proto (owed key topic (lane_topic L c) (last_id c) u W))"
      by (metis advance)
    moreover from pages full obtain page where
      "filter (\<lambda>m. mtopic m = lane_topic L c) msgs = List.map_filter proto page"
      "owed key topic (lane_topic L c) (lane_cursor L c) u W = page @ owed key topic (lane_topic L c) (last_id c) u W"
      by auto
    ultimately show ?thesis using R(2) by (simp add: List.map_filter_def)
  qed
qed


text \<open>
  The whole loop, from a queue of distinct topics: the batches it hands over, then a done marker, an
  error or nothing. Whatever happens, each topic has received a prefix of what it is owed; the done
  marker is sent only when each has received all of it; and it is sent if the turns are good and as
  many as there are topics and owed rows.
\<close>

definition loop_result :: "int \<Rightarrow> u64 \<Rightarrow> 'r list \<Rightarrow> turn_env list \<Rightarrow> 'c list \<Rightarrow> 'm list list \<Rightarrow> catchUpBatch list \<Rightarrow> bool" where
  "loop_result wave ceiling W turns queue mss tail \<longleftrightarrow>
     (\<forall>ms \<in> set mss. ms \<noteq> [] \<and> sorted_wrt (<) (map mid ms)) \<and>
     mtopic ` set (concat mss) \<subseteq> lane_topic L ` set queue \<and>
     (\<forall>c \<in> set queue. prefix (filter (\<lambda>m. mtopic m = lane_topic L c) (concat mss))
       (List.map_filter proto (owed key topic (lane_topic L c) (lane_cursor L c) (uint ceiling) W))) \<and>
     (tail = [] \<or> tail = [done_batch wave] \<or> (\<exists>e. tail = [err_batch e])) \<and>
     (tail = [done_batch wave] \<longrightarrow>
       (\<forall>c \<in> set queue. filter (\<lambda>m. mtopic m = lane_topic L c) (concat mss) =
         List.map_filter proto (owed key topic (lane_topic L c) (lane_cursor L c) (uint ceiling) W))) \<and>
     (list_all turn_good turns \<and> sum_list (map (\<lambda>c. 1 + length
         (owed key topic (lane_topic L c) (lane_cursor L c) (uint ceiling) W)) queue) \<le> length turns \<longrightarrow>
       tail = [done_batch wave])"

lemma loop_result_stop:
  assumes "\<not> list_all turn_good turns \<or> queue \<noteq> [] \<and> turns = []" and "tail = [] \<or> (\<exists>e. tail = [err_batch e])"
  shows "loop_result wave ceiling W turns queue [] tail"
  using assms by (cases queue) (auto simp: loop_result_def done_batch_def err_batch_def zero_batch_def)

lemma loop_result_step:
  assumes d: "distinct (map (lane_topic L) (batch @ rest))" and ne: "batch \<noteq> []"
    and ms: "sorted_wrt (<) (map mid msgs)" "mtopic ` set msgs \<subseteq> lane_topic L ` set batch"
    and pages: "\<forall>c \<in> set batch. \<exists>page.
      filter (\<lambda>m. mtopic m = lane_topic L c) msgs = List.map_filter proto page \<and>
      (if counts (lane_topic L c) < n then page = owed key topic (lane_topic L c) (lane_cursor L c) (uint ceiling) W
       else page \<noteq> [] \<and> lane_cursor L c < lastIDs (lane_topic L c) \<and>
         owed key topic (lane_topic L c) (lane_cursor L c) (uint ceiling) W =
           page @ owed key topic (lane_topic L c) (lastIDs (lane_topic L c)) (uint ceiling) W)"
    and new: "new = rest @ rotate_batch L n counts lastIDs batch"
    and IH: "loop_result wave ceiling W turns new mss tail"
  shows "loop_result wave ceiling W (e # turns) (batch @ rest) (if msgs = [] then mss else msgs # mss) tail"
proof -
  let ?full = "\<lambda>c. \<not> counts (lane_topic L c) < n"
  let ?last = "\<lambda>c. lastIDs (lane_topic L c)"
  let ?w = "\<lambda>c. owed key topic (lane_topic L c) (lane_cursor L c) (uint ceiling) W"
  let ?mss = "if msgs = [] then mss else msgs # mss"
  have new': "new = rest @ map (\<lambda>c. lane_advance L (?last c) c) (filter ?full batch)"
    unfolding new using pages by (subst rotate_batch_mem) auto
  have pages': "\<forall>c \<in> set batch. \<exists>page.
      filter (\<lambda>m. mtopic m = lane_topic L c) msgs = List.map_filter proto page \<and>
      (if ?full c then ?w c = page @ owed key topic (lane_topic L c) (?last c) (uint ceiling) W else page = ?w c)"
  proof
    fix c assume "c \<in> set batch"
    with pages show "\<exists>page. filter (\<lambda>m. mtopic m = lane_topic L c) msgs = List.map_filter proto page \<and>
      (if ?full c then ?w c = page @ owed key topic (lane_topic L c) (?last c) (uint ceiling) W else page = ?w c)"
      by (cases "?full c") auto
  qed
  have lt: "mtopic ` set (concat mss) \<subseteq> lane_topic L ` set new"
    and pre: "\<forall>c \<in> set new. prefix (filter (\<lambda>m. mtopic m = lane_topic L c) (concat mss)) (List.map_filter proto (?w c))"
    and eq: "tail = [done_batch wave] \<Longrightarrow>
      \<forall>c \<in> set new. filter (\<lambda>m. mtopic m = lane_topic L c) (concat mss) = List.map_filter proto (?w c)"
    using IH unfolding loop_result_def by blast+
  note step = rotate_step [OF d ms(2) pages' new' lt]
  have flat: "concat ?mss = msgs @ concat mss" by simp
  have "\<forall>c \<in> set (batch @ rest). prefix (filter (\<lambda>m. mtopic m = lane_topic L c) (concat ?mss)) (List.map_filter proto (?w c))"
    unfolding flat by (rule step [of prefix, OF _ _ pre]) auto
  moreover have "\<forall>c \<in> set (batch @ rest). filter (\<lambda>m. mtopic m = lane_topic L c) (concat ?mss) = List.map_filter proto (?w c)"
    if "tail = [done_batch wave]"
    unfolding flat by (rule step [of "(=)", OF _ _ eq [OF that]]) auto
  moreover have "mtopic ` set (concat ?mss) \<subseteq> lane_topic L ` set (batch @ rest)"
  proof -
    have "lane_topic L ` set new \<subseteq> lane_topic L ` set (batch @ rest)" unfolding new' by auto
    then have "mtopic ` set (concat mss) \<subseteq> lane_topic L ` set (batch @ rest)" using lt by (rule order_trans [rotated])
    moreover have "mtopic ` set msgs \<subseteq> lane_topic L ` set (batch @ rest)" using ms(2) by auto
    ultimately show ?thesis unfolding flat set_append image_Un by blast
  qed
  moreover have "tail = [done_batch wave]"
    if "list_all turn_good (e # turns)" "sum_list (map (\<lambda>c. 1 + length (?w c)) (batch @ rest)) \<le> length (e # turns)"
  proof -
    have "\<forall>c \<in> set batch. \<exists>page. (if counts (lane_topic L c) < n then page = ?w c
       else page \<noteq> [] \<and> ?w c = page @ ?w (lane_advance L (?last c) c))"
      using pages by (auto split: if_splits)
    from rotate_batch_weight [OF this] ne
    have "sum_list (map (\<lambda>c. 1 + length (?w c)) new) < sum_list (map (\<lambda>c. 1 + length (?w c)) (batch @ rest))"
      unfolding new' by (cases batch) (simp_all add: comp_def)
    with that have "sum_list (map (\<lambda>c. 1 + length (?w c)) new) \<le> length turns" "list_all turn_good turns" by simp_all
    then show ?thesis using IH unfolding loop_result_def by blast
  qed
  moreover have "\<forall>ms \<in> set ?mss. ms \<noteq> [] \<and> sorted_wrt (<) (map mid ms)"
    using IH ms(1) unfolding loop_result_def by simp
  moreover have "tail = [] \<or> tail = [done_batch wave] \<or> (\<exists>e. tail = [err_batch e])"
    using IH unfolding loop_result_def by blast
  ultimately show ?thesis unfolding loop_result_def by blast
qed

lemma distinct_rotation:
  assumes "distinct (map (lane_topic L) (batch @ rest))"
  shows "distinct (map (lane_topic L) (rest @ rotate_batch L n counts lastIDs batch))"
proof -
  have "map (lane_topic L) (rotate_batch L n counts lastIDs batch) =
      map (lane_topic L) (filter (\<lambda>b. \<not> counts (lane_topic L b) < n) batch)"
    by (simp add: rotate_batch_def Let_def)
  moreover from this have "lane_topic L ` set (rotate_batch L n counts lastIDs batch) \<subseteq> lane_topic L ` set batch"
    by (metis filter_is_subset image_mono list.set_map)
  ultimately show ?thesis using assms by (auto simp: distinct_map_filter)
qed

lemma scan_loop_result:
  assumes okW: "log_ids_ok key W nx" and c: "ceiling \<noteq> 0" and pos: "0 < n" "0 < batchTopics"
    and env: "list_all (\<lambda>e. log_ids_ok key (rows (te_db e)) (nxt (te_db e)) \<and>
      stable_below key (uint ceiling) W (rows (te_db e))) turns"
    and d: "distinct (map (lane_topic L) queue)"
  shows "\<exists>mss tail. scan_loop L batchTopics n wave ceiling turns queue out =
      out @ map (\<lambda>ms. lane_batch L ms wave (sum_list (map (lane_bytes L) ms))) mss @ tail \<and>
    loop_result wave ceiling W turns queue mss tail"
  using env d
proof (induction turns arbitrary: queue out)
  case Nil
  show ?case
  proof (cases queue)
    case Nil
    then show ?thesis by (intro exI [of _ "[]"] exI [of _ "[done_batch wave]"]) (simp add: loop_result_def)
  next
    case (Cons q qs)
    then show ?thesis by (intro exI [of _ "[]"] exI [of _ "[]"]) (simp add: loop_result_stop)
  qed
next
  case (Cons e turns)
  let ?mk = "\<lambda>ms. lane_batch L ms wave (sum_list (map (lane_bytes L) ms))"
  show ?case
  proof (cases queue)
    case Nil
    then show ?thesis by (intro exI [of _ "[]"] exI [of _ "[done_batch wave]"]) (simp add: loop_result_def)
  next
    case q: (Cons q qs)
    define batch where "batch = (if batchTopics < int (length queue) then take (nat batchTopics) queue else queue)"
    define rest where "rest = drop (length batch) queue"
    have split: "queue = batch @ rest" by (auto simp: rest_def batch_def)
    have ne: "batch \<noteq> []" using pos(2) q by (auto simp: batch_def)
    have d: "distinct (map (lane_topic L) (batch @ rest))" using Cons.prems(2) split by simp
    have db: "log_ids_ok key (rows (te_db e)) (nxt (te_db e))" "stable_below key (uint ceiling) W (rows (te_db e))"
      using Cons.prems(1) by simp_all
    have unfold: "scan_loop L batchTopics n wave ceiling (e # turns) queue out =
      (if te_stop e then out else case lane_turn L (te_fault e) batch ceiling n (te_db e) of
             Inl err \<Rightarrow> if is_canceled err then out else out @ [err_batch err]
           | Inr (msgs, counts, lastIDs) \<Rightarrow>
               if msgs \<noteq> [] \<and> \<not> te_reserved e then out
               else scan_loop L batchTopics n wave ceiling turns (rest @ rotate_batch L n counts lastIDs batch)
                 (if msgs = [] then out else out @ [?mk msgs]))"
      unfolding rest_def batch_def q scan_loop.simps Let_def by (rule refl)
    have halt: ?thesis if "scan_loop L batchTopics n wave ceiling (e # turns) queue out = out @ tail"
      "\<not> turn_good e" "tail = [] \<or> (\<exists>e. tail = [err_batch e])" for tail
      using that by (intro exI [of _ "[]"] exI [of _ tail]) (simp add: loop_result_stop)
    consider (stop) "te_stop e" | (err) err where "\<not> te_stop e" "te_fault e = Some err"
      | (ok) "\<not> te_stop e" "te_fault e = None" by (cases "te_fault e") auto
    then show ?thesis
    proof cases
      case stop
      then show ?thesis using halt [of "[]"] unfold by (simp add: turn_good_def)
    next
      case err
      then have "lane_turn L (te_fault e) batch ceiling n (te_db e) = Inl err" using turn_fault [OF ne c] by simp
      then have "scan_loop L batchTopics n wave ceiling (e # turns) queue out =
          out @ (if is_canceled err then [] else [err_batch err])" using unfold err by simp
      then show ?thesis by (rule halt) (use err in \<open>auto simp: turn_good_def\<close>)
    next
      case ok
      have db': "distinct (map (lane_topic L) batch)" using d by simp
      from turn_step [OF db(1) okW db(2) db' ne c pos(1)] obtain msgs counts lastIDs where
        t: "lane_turn L None batch ceiling n (te_db e) = Inr (msgs, counts, lastIDs)"
        "sorted_wrt (<) (map mid msgs)" "mtopic ` set msgs \<subseteq> lane_topic L ` set batch"
        and pages: "\<forall>c \<in> set batch. \<exists>page.
          filter (\<lambda>m. mtopic m = lane_topic L c) msgs = List.map_filter proto page \<and>
          (if counts (lane_topic L c) < n then page = owed key topic (lane_topic L c) (lane_cursor L c) (uint ceiling) W
           else page \<noteq> [] \<and> lane_cursor L c < lastIDs (lane_topic L c) \<and>
             owed key topic (lane_topic L c) (lane_cursor L c) (uint ceiling) W =
               page @ owed key topic (lane_topic L c) (lastIDs (lane_topic L c)) (uint ceiling) W)" .
      let ?new = "rest @ rotate_batch L n counts lastIDs batch"
      show ?thesis
      proof (cases "msgs \<noteq> [] \<and> \<not> te_reserved e")
        case True
        then show ?thesis using halt [of "[]"] unfold t(1) ok by (simp add: turn_good_def)
      next
        case False
        let ?out = "if msgs = [] then out else out @ [?mk msgs]"
        have "list_all (\<lambda>e. log_ids_ok key (rows (te_db e)) (nxt (te_db e)) \<and>
          stable_below key (uint ceiling) W (rows (te_db e))) turns" using Cons.prems(1) by simp
        from Cons.IH [OF this distinct_rotation [OF d], of n counts lastIDs ?out] obtain mss tail where
          run: "scan_loop L batchTopics n wave ceiling turns ?new ?out = ?out @ map ?mk mss @ tail"
          and res: "loop_result wave ceiling W turns ?new mss tail" by blast
        from loop_result_step [OF d ne t(2,3) pages refl res]
        have "loop_result wave ceiling W (e # turns) queue (if msgs = [] then mss else msgs # mss) tail"
          unfolding split .
        moreover have "scan_loop L batchTopics n wave ceiling (e # turns) queue out =
            out @ map ?mk (if msgs = [] then mss else msgs # mss) @ tail"
          using unfold t(1) ok False run by auto
        ultimately show ?thesis by blast
      qed
    qed
  qed
qed


lemma catchUp_result:
  assumes ok: "snapshots_ok key rows nxt env" and d: "distinct (map (lane_topic L) adds)"
  shows "\<exists>mss tail. catchUp L s env adds wave =
      map (\<lambda>ms. lane_batch L ms wave (sum_list (map (lane_bytes L) ms))) mss @ tail \<and>
    (\<forall>ms \<in> set mss. ms \<noteq> [] \<and> sorted_wrt (<) (map mid ms)) \<and>
    mtopic ` set (concat mss) \<subseteq> lane_topic L ` set adds \<and>
    (tail = [] \<or> tail = [done_batch wave] \<or> (\<exists>e. tail = [err_batch e])) \<and>
    (\<forall>a \<in> set adds. prefix (filter (\<lambda>m. mtopic m = lane_topic L a) (concat mss))
        (List.map_filter proto (due key topic rows env (lane_topic L a) (lane_cursor L a))) \<and>
      (tail = [done_batch wave] \<longrightarrow> filter (\<lambda>m. mtopic m = lane_topic L a) (concat mss) =
        List.map_filter proto (due key topic rows env (lane_topic L a) (lane_cursor L a)))) \<and>
    (se_ceiling_fault env = None \<and> se_acquired env \<and> list_all turn_good (se_turns env) \<and>
      sum_list (map (\<lambda>a. 1 + length (owed key topic (lane_topic L a) (lane_cursor L a)
        (final_ceiling key rows env) (rows (se_refresh_db env)))) adds) \<le> length (se_turns env) \<longrightarrow>
      tail = [done_batch wave])"
    (is "\<exists>mss tail. ?run = map ?mk mss @ tail \<and> ?asc mss \<and> ?tops mss \<and> ?tail tail \<and> ?got mss tail \<and> ?live tail")
proof -
  let ?W = "rows (se_refresh_db env)"
  let ?first = "first_ceiling key rows env" and ?final = "final_ceiling key rows env"
  let ?w = "\<lambda>a. owed key topic (lane_topic L a) (lane_cursor L a) ?final ?W"
  define queue where "queue = filter (\<lambda>a. lane_cursor L a < go_uint64 ?first) adds"
  have okC: "log_ids_ok key (rows (se_ceiling_db env)) (nxt (se_ceiling_db env))"
    and okW: "log_ids_ok key ?W (nxt (se_refresh_db env))"
    and turns: "list_all (\<lambda>e. log_ids_ok key (rows (te_db e)) (nxt (te_db e)) \<and>
       stable_below key ?final ?W (rows (te_db e))) (se_turns env)"
    using ok by (simp_all add: snapshots_ok_def)
  have first: "0 \<le> ?first" "?first < 2 ^ 63" "?first \<le> ?final" "?final < 2 ^ 63"
    using max_id_range [OF okC] max_id_range [OF okW] by (auto simp: first_ceiling_def final_ceiling_def)
  have uint: "uint (go_uint64 ?first) = ?first" "uint (go_uint64 ?final) = ?final"
    using first by (simp_all add: uint_go_uint64)
  have mem: "a \<in> set queue \<longleftrightarrow> a \<in> set adds \<and> uint (lane_cursor L a) < ?first" for a
    by (simp add: queue_def word_less_def uint)
  have stop: ?thesis if "?run = tail" "tail = [] \<or> (\<exists>e. tail = [err_batch e])"
    "se_ceiling_fault env \<noteq> None \<or> \<not> se_acquired env" for tail
    using that by (intro exI [of _ "[]"] exI [of _ tail])
      (auto simp: done_batch_def err_batch_def zero_batch_def)
  show ?thesis
  proof (cases "se_ceiling_fault env")
    case (Some e)
    then have "?run = (if is_canceled e then [] else [err_batch e])" by (simp add: catchUp_def latest_fault)
    then show ?thesis by (rule stop) (use Some in auto)
  next
    case None
    have run: "?run = (if queue \<noteq> [] \<and> \<not> se_acquired env then []
        else scan_loop L (if scanBatchTopics s < 1 then 1 else scanBatchTopics s)
          (if scanTopicPageLimit s < 1 then 1 else scanTopicPageLimit s) wave
          (go_uint64 (if queue = [] then ?first else ?final)) (se_turns env) queue [])"
      using None latest latest_fault
      by (cases "se_refresh_fault env") (auto simp: catchUp_def Let_def queue_def first_ceiling_def final_ceiling_def max_def)
    consider (none) "queue = []" | (parked) "queue \<noteq> []" "\<not> se_acquired env" | (scan) "queue \<noteq> []" "se_acquired env"
      by blast
    then show ?thesis
    proof cases
      case none
      then have "\<not> uint (lane_cursor L a) < ?first" if "a \<in> set adds" for a using mem that by auto
      then show ?thesis using run none
        by (intro exI [of _ "[]"] exI [of _ "[done_batch wave]"]) (auto simp: due_def List.map_filter_simps)
    next
      case parked
      then show ?thesis using stop [of "[]"] run by simp
    next
      case scan
      then obtain q where "q \<in> set queue" by (cases queue) auto
      then have "0 < ?first" using mem [of q] uint_ge_0 [of "lane_cursor L q"] by (auto intro: le_less_trans)
      then have c: "go_uint64 ?final \<noteq> 0" using first(3) uint(2) by (metis not_less uint_0_eq order_less_le_trans)
      have dq: "distinct (map (lane_topic L) queue)" using d by (simp add: queue_def distinct_map_filter)
      let ?bt = "if scanBatchTopics s < 1 then 1 else scanBatchTopics s"
      let ?n = "if scanTopicPageLimit s < 1 then 1 else scanTopicPageLimit s"
      have pos: "0 < ?n" "0 < ?bt" by simp_all
      from scan_loop_result [OF okW c pos _ dq, of "se_turns env" wave "[]"] turns uint(2) obtain mss tail where
        loop: "scan_loop L ?bt ?n wave (go_uint64 ?final) (se_turns env) queue [] = map ?mk mss @ tail"
        and res: "loop_result wave (go_uint64 ?final) ?W (se_turns env) queue mss tail" by auto
      have r: "?asc mss" "mtopic ` set (concat mss) \<subseteq> lane_topic L ` set queue" "?tail tail"
        "\<forall>c \<in> set queue. prefix (filter (\<lambda>m. mtopic m = lane_topic L c) (concat mss)) (List.map_filter proto (?w c))"
        "tail = [done_batch wave] \<longrightarrow> (\<forall>c \<in> set queue. filter (\<lambda>m. mtopic m = lane_topic L c) (concat mss) =
          List.map_filter proto (?w c))"
        "list_all turn_good (se_turns env) \<and> sum_list (map (\<lambda>c. 1 + length (?w c)) queue) \<le> length (se_turns env) \<longrightarrow>
          tail = [done_batch wave]"
        using res unfolding loop_result_def uint(2) by blast+
      have "?got mss tail"
      proof
        fix a assume a: "a \<in> set adds"
        show "prefix (filter (\<lambda>m. mtopic m = lane_topic L a) (concat mss))
            (List.map_filter proto (due key topic rows env (lane_topic L a) (lane_cursor L a))) \<and>
          (tail = [done_batch wave] \<longrightarrow> filter (\<lambda>m. mtopic m = lane_topic L a) (concat mss) =
            List.map_filter proto (due key topic rows env (lane_topic L a) (lane_cursor L a)))"
        proof (cases "a \<in> set queue")
          case True
          then show ?thesis using r(4,5) mem [of a] by (simp add: due_def)
        next
          case False
          have "lane_topic L a \<notin> lane_topic L ` set queue"
            using False d a by (auto simp: queue_def distinct_map dest: inj_onD)
          then have "filter (\<lambda>m. mtopic m = lane_topic L a) (concat mss) = []" by (rule filter_no_topic [OF r(2)])
          moreover have "\<not> uint (lane_cursor L a) < ?first" using False a mem [of a] by simp
          ultimately show ?thesis by (simp add: due_def List.map_filter_simps)
        qed
      qed
      moreover have "lane_topic L ` set queue \<subseteq> lane_topic L ` set adds" by (auto simp: queue_def)
      with r(2) have "?tops mss" by (rule order_trans)
      moreover have "sum_list (map (\<lambda>c. 1 + length (?w c)) queue) \<le> sum_list (map (\<lambda>c. 1 + length (?w c)) adds)"
        unfolding queue_def by (rule sum_list_filter_le_nat)
      then have "?live tail" using r(6) by auto
      moreover have "?run = map ?mk mss @ tail" using run loop scan by simp
      ultimately show ?thesis using r(1,3) by blast
    qed
  qed
qed

end


section \<open>Properties of the fetchers\<close>

definition scan_run_ok :: "scan_env \<Rightarrow> bool" where
  "scan_run_ok env \<longleftrightarrow> se_ceiling_fault env = None \<and> se_acquired env \<and> list_all turn_good (se_turns env)"

lemma group_batch_fields [simp]:
  "cb_groupMsgs (lane_batch group_lane ms wave n) = ms" "cb_welcomeMsgs (lane_batch group_lane ms wave n) = []"
  "cb_wave (lane_batch group_lane ms wave n) = wave" "cb_bytes (lane_batch group_lane ms wave n) = n"
  "cb_done (lane_batch group_lane ms wave n) = False" "cb_err (lane_batch group_lane ms wave n) = None"
  by (simp_all add: group_lane_def zero_batch_def)

lemma welcome_batch_fields [simp]:
  "cb_welcomeMsgs (lane_batch welcome_lane ms wave n) = ms" "cb_groupMsgs (lane_batch welcome_lane ms wave n) = []"
  "cb_wave (lane_batch welcome_lane ms wave n) = wave" "cb_bytes (lane_batch welcome_lane ms wave n) = n"
  "cb_done (lane_batch welcome_lane ms wave n) = False" "cb_err (lane_batch welcome_lane ms wave n) = None"
  by (simp_all add: welcome_lane_def zero_batch_def)

lemma lane_fields [simp]:
  "lane_topic group_lane = gc_GroupID" "lane_cursor group_lane = gc_IdCursor" "lane_bytes group_lane = groupSize"
  "lane_topic welcome_lane = wc_InstallationKey" "lane_cursor welcome_lane = wc_IdCursor" "lane_bytes welcome_lane = welcomeSize"
  by (simp_all add: group_lane_def welcome_lane_def)


definition test_turn :: turn_env where
  "test_turn = \<lparr>te_stop = False, te_fault = None, te_db = test_db, te_reserved = True\<rparr>"

definition test_scan :: scan_env where
  "test_scan = \<lparr>se_ceiling_fault = None, se_ceiling_db = test_db, se_acquired = True, se_refresh_fault = None,
     se_refresh_db = test_db, se_turns = replicate 6 test_turn\<rparr>"

lemma test_scan_simps [simp]:
  "se_ceiling_fault test_scan = None" "se_ceiling_db test_scan = test_db" "se_acquired test_scan"
  "se_refresh_fault test_scan = None" "se_refresh_db test_scan = test_db" "se_turns test_scan = replicate 6 test_turn"
  "te_db test_turn = test_db"
  by (simp_all add: test_scan_def test_turn_def)

lemma test_scan_ok:
  "snapshots_ok gr_ID group_messages group_messages_seq test_scan"
  "snapshots_ok wr_ID welcome_messages welcome_messages_seq test_scan"
  using test_db_ok by (simp_all add: snapshots_ok_def stable_below_def list_all_iff)

lemma test_scan_run: "scan_run_ok test_scan"
  by (simp add: scan_run_ok_def turn_good_def test_turn_def list_all_iff)

lemma test_ceilings:
  "first_ceiling gr_ID group_messages test_scan = 4" "final_ceiling gr_ID group_messages test_scan = 4"
  "first_ceiling wr_ID welcome_messages test_scan = 3" "final_ceiling wr_ID welcome_messages test_scan = 3"
  by (simp_all add: first_ceiling_def final_ceiling_def max_id_def test_db_defs welcome_row_def)


text \<open>
  C10. A group fetcher finishes: when its queries and reservations succeed, a number of turns equal to
  the number of topics plus the number of rows owed is enough for it to send its done marker, whatever
  the page limit and batch size are configured to (values below 1 count as 1).
\<close>

theorem catchUpGroups_finishes:
  assumes "snapshots_ok gr_ID group_messages group_messages_seq env" and "distinct (map gc_GroupID adds)"
    and "scan_run_ok env"
    and "sum_list (map (\<lambda>a. 1 + length (owed gr_ID gr_GroupID (gc_GroupID a) (gc_IdCursor a)
        (final_ceiling gr_ID group_messages env) (group_messages (se_refresh_db env)))) adds) \<le> length (se_turns env)"
  shows "\<exists>batches. catchUpGroups s env adds wave = batches @ [done_batch wave]"
proof -
  have d: "distinct (map (lane_topic group_lane) adds)" using assms(2) by simp
  from gscan.catchUp_result [OF assms(1) d, of s wave] obtain mss tail where
    run: "catchUp group_lane s env adds wave =
      map (\<lambda>ms. lane_batch group_lane ms wave (sum_list (map groupSize ms))) mss @ tail"
    and live: "se_ceiling_fault env = None \<and> se_acquired env \<and> list_all turn_good (se_turns env) \<and>
      sum_list (map (\<lambda>a. 1 + length (owed gr_ID gr_GroupID (gc_GroupID a) (gc_IdCursor a)
        (final_ceiling gr_ID group_messages env) (group_messages (se_refresh_db env)))) adds) \<le> length (se_turns env) \<longrightarrow>
      tail = [done_batch wave]"
    unfolding lane_fields by (elim exE conjE) (rule that)
  have "tail = [done_batch wave]" using live assms(3,4) unfolding scan_run_ok_def by blast
  with run show ?thesis unfolding catchUpGroups_def by blast
qed

theorem catchUpGroups_finishes_witness:
  "\<exists>batches. catchUpGroups \<lparr>scanTopicPageLimit = 0, scanBatchTopics = 1\<rparr> test_scan
      [\<lparr>gc_GroupID = [7], gc_IdCursor = 0\<rparr>, \<lparr>gc_GroupID = [8], gc_IdCursor = 0\<rparr>] 3 = batches @ [done_batch 3]"
  by (rule catchUpGroups_finishes [OF test_scan_ok(1) _ test_scan_run])
    (simp_all only: test_ceilings, simp_all add: owed_def test_db_defs)

text \<open>
  C32. The welcome fetcher, which skips rows of unknown type, still replays every convertible row: with
  successful turns, as many as topics and owed rows, it hands over for each installation exactly the
  convertible rows it is due, in order, and then the done marker.
\<close>

theorem catchUpWelcomes_complete:
  assumes "snapshots_ok wr_ID welcome_messages welcome_messages_seq env" and "distinct (map wc_InstallationKey adds)"
    and "scan_run_ok env"
    and "sum_list (map (\<lambda>a. 1 + length (owed wr_ID wr_InstallationKey (wc_InstallationKey a) (wc_IdCursor a)
        (final_ceiling wr_ID welcome_messages env) (welcome_messages (se_refresh_db env)))) adds) \<le> length (se_turns env)"
  shows "\<exists>batches. catchUpWelcomes s env adds wave = batches @ [done_batch wave] \<and>
    (\<forall>a \<in> set adds. filter (\<lambda>m. welcomeInstallationKey m = wc_InstallationKey a) (concat (map cb_welcomeMsgs batches)) =
      List.map_filter welcome_message_proto
        (due wr_ID wr_InstallationKey welcome_messages env (wc_InstallationKey a) (wc_IdCursor a)))"
proof -
  have d: "distinct (map (lane_topic welcome_lane) adds)" using assms(2) by simp
  from wscan.catchUp_result [OF assms(1) d, of s wave] obtain mss tail where
    run: "catchUp welcome_lane s env adds wave =
      map (\<lambda>ms. lane_batch welcome_lane ms wave (sum_list (map welcomeSize ms))) mss @ tail"
    and got: "\<forall>a \<in> set adds. prefix (filter (\<lambda>m. welcomeInstallationKey m = wc_InstallationKey a) (concat mss))
        (List.map_filter welcome_message_proto (due wr_ID wr_InstallationKey welcome_messages env (wc_InstallationKey a) (wc_IdCursor a))) \<and>
      (tail = [done_batch wave] \<longrightarrow> filter (\<lambda>m. welcomeInstallationKey m = wc_InstallationKey a) (concat mss) =
        List.map_filter welcome_message_proto (due wr_ID wr_InstallationKey welcome_messages env (wc_InstallationKey a) (wc_IdCursor a)))"
    and live: "se_ceiling_fault env = None \<and> se_acquired env \<and> list_all turn_good (se_turns env) \<and>
      sum_list (map (\<lambda>a. 1 + length (owed wr_ID wr_InstallationKey (wc_InstallationKey a) (wc_IdCursor a)
        (final_ceiling wr_ID welcome_messages env) (welcome_messages (se_refresh_db env)))) adds) \<le> length (se_turns env) \<longrightarrow>
      tail = [done_batch wave]"
    unfolding lane_fields by (elim exE conjE) (rule that)
  have tail: "tail = [done_batch wave]" using live assms(3,4) unfolding scan_run_ok_def by blast
  let ?bs = "map (\<lambda>ms. lane_batch welcome_lane ms wave (sum_list (map welcomeSize ms))) mss"
  have "concat (map cb_welcomeMsgs ?bs) = concat mss" by (simp add: comp_def)
  with run got tail show ?thesis
    by (intro exI [of _ ?bs]) (simp add: catchUpWelcomes_def)
qed

theorem catchUpWelcomes_complete_witness:
  "\<exists>batches. catchUpWelcomes \<lparr>scanTopicPageLimit = 1, scanBatchTopics = 1\<rparr> test_scan
      [\<lparr>wc_InstallationKey = [9], wc_IdCursor = 0\<rparr>] 3 = batches @ [done_batch 3]"
proof -
  let ?adds = "[\<lparr>wc_InstallationKey = [9], wc_IdCursor = 0\<rparr>] :: WelcomeCatchup list"
  have "sum_list (map (\<lambda>a. 1 + length (owed wr_ID wr_InstallationKey (wc_InstallationKey a) (wc_IdCursor a)
      (final_ceiling wr_ID welcome_messages test_scan) (welcome_messages (se_refresh_db test_scan)))) ?adds)
      \<le> length (se_turns test_scan)"
    unfolding test_ceilings by (simp add: owed_def test_db_defs welcome_row_def)
  from catchUpWelcomes_complete [OF test_scan_ok(2) _ test_scan_run this, of "\<lparr>scanTopicPageLimit = 1, scanBatchTopics = 1\<rparr>" 3]
  show ?thesis by auto
qed

end
