(* ===== verification/Byte_Budget.thy ===== *)
theory Byte_Budget
  imports Prelude
begin

text \<open>
  The catch-up byte budget of a Subscribe stream: \<open>reserveCatchUpBytes\<close> and \<open>freeCatchUpBytes\<close> of
  pkg/mls/api/v1/subscribe.go, at the granularity of their atomic operations. Any number of fetchers
  run the reservation loop (load, compare-and-swap, or park on the one-slot channel
  \<open>catchUpBytesFreed\<close>) while the writer frees consumed batches (subtract, then a non-blocking send on
  that channel). \<open>outstanding\<close> holds the sizes of the batches that are reserved and not yet freed.

  Shown for every interleaving: the counter is the sum of the outstanding batches and never exceeds
  the budget unless a single batch does; and no wake-up is lost as long as no batch is empty.
\<close>

section \<open>State and steps\<close>

datatype fetcher =
    Idle
  | Loading int
  | Loaded int int
  | Parked int

record budget_state =
  catchUpBytes :: int
  catchUpBytesFreed :: bool
  signalling :: bool
  outstanding :: "int list"
  fetchers :: "nat \<Rightarrow> fetcher"

definition initial_budget :: budget_state where
  "initial_budget = \<lparr>catchUpBytes = 0, catchUpBytesFreed = False, signalling = False, outstanding = [],
     fetchers = (\<lambda>_. Idle)\<rparr>"

definition budget_of :: "int \<Rightarrow> int" where
  "budget_of scanMaxPendingBytes = (if scanMaxPendingBytes < 1 then 1 else scanMaxPendingBytes)"

text \<open>The admission test of the loop: an empty lane admits any single turn.\<close>

definition admits :: "int \<Rightarrow> int \<Rightarrow> int \<Rightarrow> bool" where
  "admits byteBudget cur n \<longleftrightarrow> cur = 0 \<or> cur + n \<le> byteBudget"

datatype action = Call nat int | Load nat | Swap nat | Wake nat | Free int | Signal

inductive budget_step :: "int \<Rightarrow> budget_state \<Rightarrow> action \<Rightarrow> budget_state \<Rightarrow> bool" for byteBudget where
  call: "fetchers s i = Idle \<Longrightarrow> 0 \<le> n \<Longrightarrow>
    budget_step byteBudget s (Call i n) (s\<lparr>fetchers := (fetchers s)(i := Loading n)\<rparr>)"
| load: "fetchers s i = Loading n \<Longrightarrow>
    budget_step byteBudget s (Load i) (s\<lparr>fetchers := (fetchers s)(i :=
      if admits byteBudget (catchUpBytes s) n then Loaded n (catchUpBytes s) else Parked n)\<rparr>)"
| swap: "fetchers s i = Loaded n cur \<Longrightarrow> catchUpBytes s = cur \<Longrightarrow>
    budget_step byteBudget s (Swap i) (s\<lparr>catchUpBytes := cur + n, outstanding := n # outstanding s,
      fetchers := (fetchers s)(i := Idle)\<rparr>)"
| swap_fails: "fetchers s i = Loaded n cur \<Longrightarrow> catchUpBytes s \<noteq> cur \<Longrightarrow>
    budget_step byteBudget s (Swap i) (s\<lparr>fetchers := (fetchers s)(i := Loading n)\<rparr>)"
| wake: "fetchers s i = Parked n \<Longrightarrow> catchUpBytesFreed s \<Longrightarrow>
    budget_step byteBudget s (Wake i) (s\<lparr>catchUpBytesFreed := False, fetchers := (fetchers s)(i := Loading n)\<rparr>)"
| free_zero: "0 \<in> set (outstanding s) \<Longrightarrow> \<not> signalling s \<Longrightarrow>
    budget_step byteBudget s (Free 0) (s\<lparr>outstanding := remove1 0 (outstanding s)\<rparr>)"
| free: "n \<in> set (outstanding s) \<Longrightarrow> \<not> signalling s \<Longrightarrow> n \<noteq> 0 \<Longrightarrow>
    budget_step byteBudget s (Free n) (s\<lparr>catchUpBytes := catchUpBytes s - n,
      outstanding := remove1 n (outstanding s), signalling := True\<rparr>)"
| signal: "signalling s \<Longrightarrow>
    budget_step byteBudget s Signal (s\<lparr>catchUpBytesFreed := True, signalling := False\<rparr>)"

inductive_cases budget_stepE: "budget_step byteBudget s a s'"

text \<open>Reachable states, with the sizes of the reservations restricted by \<open>P\<close>.\<close>

inductive budget_reach :: "(int \<Rightarrow> bool) \<Rightarrow> int \<Rightarrow> budget_state \<Rightarrow> bool" for P byteBudget where
  init: "budget_reach P byteBudget initial_budget"
| step: "budget_reach P byteBudget s \<Longrightarrow> budget_step byteBudget s a s' \<Longrightarrow> (\<forall>i n. a = Call i n \<longrightarrow> P n) \<Longrightarrow>
    budget_reach P byteBudget s'"

section \<open>Invariants\<close>

definition fetcher_ok :: "(int \<Rightarrow> bool) \<Rightarrow> int \<Rightarrow> fetcher \<Rightarrow> bool" where
  "fetcher_ok P byteBudget f = (case f of Idle \<Rightarrow> True | Loading n \<Rightarrow> 0 \<le> n \<and> P n | Parked n \<Rightarrow> 0 \<le> n \<and> P n
     | Loaded n cur \<Rightarrow> 0 \<le> n \<and> P n \<and> admits byteBudget cur n)"

definition budget_inv :: "(int \<Rightarrow> bool) \<Rightarrow> int \<Rightarrow> budget_state \<Rightarrow> bool" where
  "budget_inv P byteBudget s \<longleftrightarrow>
     catchUpBytes s = sum_list (outstanding s) \<and>
     (\<forall>n \<in> set (outstanding s). 0 \<le> n \<and> P n) \<and>
     (catchUpBytes s \<le> byteBudget \<or> catchUpBytes s \<in> set (outstanding s)) \<and>
     (\<forall>i. fetcher_ok P byteBudget (fetchers s i))"

definition active :: "fetcher \<Rightarrow> bool" where
  "active f = (case f of Loading n \<Rightarrow> True | Loaded n cur \<Rightarrow> True | _ \<Rightarrow> False)"

definition wakeup_inv :: "budget_state \<Rightarrow> bool" where
  "wakeup_inv s \<longleftrightarrow> (\<forall>i n. fetchers s i = Parked n \<longrightarrow>
     catchUpBytesFreed s \<or> signalling s \<or> outstanding s \<noteq> [] \<or> (\<exists>j. active (fetchers s j)))"

lemma sum_list_remove1_int: "n \<in> set ns \<Longrightarrow> sum_list (remove1 n ns) = sum_list ns - (n :: int)"
  by (induction ns) auto

lemma sum_list_le_member:
  assumes "\<forall>n \<in> set ns. (0 :: int) \<le> n" and "sum_list ns \<in> set ns" and "m \<in> set ns"
  shows "sum_list (remove1 m ns) \<in> set (remove1 m ns) \<or> sum_list (remove1 m ns) \<le> 0"
proof (cases "m = sum_list ns")
  case True
  then show ?thesis using sum_list_remove1_int [OF assms(3)] by simp
next
  case False
  then have in1: "sum_list ns \<in> set (remove1 m ns)" using assms(2) by (metis in_set_remove1)
  have nn: "\<forall>n \<in> set (remove1 m ns). 0 \<le> n" using assms(1) set_remove1_subset [of m ns] by blast
  have "sum_list ns \<le> sum_list (remove1 m ns)"
    using in1 nn member_le_sum_list [of "sum_list ns" "remove1 m ns"] by simp
  then have "sum_list (remove1 m ns) = sum_list ns"
    using sum_list_remove1_int [OF assms(3)] assms(1,3) by force
  then show ?thesis using in1 by simp
qed

lemma budget_step_inv:
  assumes "budget_step byteBudget s a s'" and "budget_inv P byteBudget s" and "0 < byteBudget"
    and "\<forall>i n. a = Call i n \<longrightarrow> P n"
  shows "budget_inv P byteBudget s'"
  using assms
proof cases
  case (free n)
  then have n: "n \<in> set (outstanding s)" by simp
  have nn: "\<forall>n \<in> set (outstanding s). 0 \<le> n" using assms(2) by (simp add: budget_inv_def)
  have le: "catchUpBytes s - n \<le> byteBudget \<or> catchUpBytes s - n \<in> set (remove1 n (outstanding s))"
  proof (cases "catchUpBytes s \<le> byteBudget")
    case True
    then show ?thesis using nn n by force
  next
    case False
    then have "sum_list (outstanding s) \<in> set (outstanding s)" using assms(2) unfolding budget_inv_def by metis
    from sum_list_le_member [OF nn this n] show ?thesis
      using assms(2,3) sum_list_remove1_int [OF n] by (auto simp: budget_inv_def)
  qed
  have "set (remove1 n (outstanding s)) \<subseteq> set (outstanding s)" by (rule set_remove1_subset)
  then show ?thesis using free le assms(2) sum_list_remove1_int [OF n] by (auto simp: budget_inv_def)
next
  case free_zero
  have "set (remove1 0 (outstanding s)) \<subseteq> set (outstanding s)" by (rule set_remove1_subset)
  moreover have "catchUpBytes s \<le> byteBudget \<or> catchUpBytes s \<in> set (remove1 0 (outstanding s))"
    using assms(2,3) by (cases "catchUpBytes s = 0") (auto simp: budget_inv_def)
  ultimately show ?thesis using free_zero assms(2) sum_list_remove1_int [OF free_zero(3)]
    by (auto simp: budget_inv_def)
next
  case (swap i n cur)
  then have "fetcher_ok P byteBudget (Loaded n cur)" using assms(2) by (metis budget_inv_def)
  then show ?thesis using swap assms(2) by (auto simp: budget_inv_def fetcher_ok_def admits_def)
next
  case (swap_fails i n cur)
  then have "fetcher_ok P byteBudget (Loaded n cur)" using assms(2) by (metis budget_inv_def)
  then show ?thesis using swap_fails assms(2) by (auto simp: budget_inv_def fetcher_ok_def)
next
  case (load i n)
  then have "fetcher_ok P byteBudget (Loading n)" using assms(2) by (metis budget_inv_def)
  then show ?thesis using load assms(2) by (auto simp: budget_inv_def fetcher_ok_def)
next
  case (wake i n)
  then have "fetcher_ok P byteBudget (Parked n)" using assms(2) by (metis budget_inv_def)
  then show ?thesis using wake assms(2) by (auto simp: budget_inv_def fetcher_ok_def)
qed (auto simp: budget_inv_def fetcher_ok_def)

lemma budget_reach_inv: "budget_reach P byteBudget s \<Longrightarrow> 0 < byteBudget \<Longrightarrow> budget_inv P byteBudget s"
proof (induction rule: budget_reach.induct)
  case init
  then show ?case by (simp add: budget_inv_def initial_budget_def fetcher_ok_def)
next
  case (step s a s')
  then show ?case using budget_step_inv by blast
qed

lemma wakeup_invI:
  "catchUpBytesFreed s \<or> signalling s \<or> outstanding s \<noteq> [] \<or> active (fetchers s j) \<Longrightarrow> wakeup_inv s"
  by (auto simp: wakeup_inv_def)

lemma wakeup_step:
  assumes "budget_step byteBudget s a s'" and "wakeup_inv s" and "budget_inv P byteBudget s" and "\<not> P 0"
  shows "wakeup_inv s'"
  using assms(1)
proof cases
  case (load i n)
  show ?thesis
  proof (cases "admits byteBudget (catchUpBytes s) n")
    case True
    then show ?thesis using load by (intro wakeup_invI [where j = i]) (simp add: active_def)
  next
    case False
    then have "outstanding s \<noteq> []" using assms(3) by (auto simp: admits_def budget_inv_def)
    then show ?thesis using load by (intro wakeup_invI) simp
  qed
next
  case free_zero
  then show ?thesis using assms(3,4) by (auto simp: budget_inv_def)
qed (auto simp: active_def intro!: wakeup_invI split: if_splits)

lemma budget_reach_wakeup:
  "budget_reach P byteBudget s \<Longrightarrow> 0 < byteBudget \<Longrightarrow> \<not> P 0 \<Longrightarrow> wakeup_inv s"
proof (induction rule: budget_reach.induct)
  case init
  then show ?case by (simp add: wakeup_inv_def initial_budget_def)
next
  case (step s a s')
  then show ?case using wakeup_step [OF step.hyps(2)] budget_reach_inv [OF step.hyps(1)] by blast
qed

section \<open>Properties\<close>

text \<open>
  C22. In every interleaving of fetchers and writer the counter is the number of bytes fetched and not
  yet consumed, and it never exceeds the budget unless one batch alone does, which is then all of it:
  it is bounded by the larger of the budget and the largest outstanding batch.
\<close>

theorem catch_up_bytes_bounded:
  assumes "budget_reach (\<lambda>_. True) (budget_of scanMaxPendingBytes) s"
  shows "catchUpBytes s = sum_list (outstanding s) \<and>
    (catchUpBytes s \<le> budget_of scanMaxPendingBytes \<or> catchUpBytes s \<in> set (outstanding s))"
proof -
  have "0 < budget_of scanMaxPendingBytes" by (simp add: budget_of_def)
  from budget_reach_inv [OF assms this] show ?thesis unfolding budget_inv_def by blast
qed

text \<open>The steps as a function of the action, to build concrete runs.\<close>

fun exec_action :: "int \<Rightarrow> action \<Rightarrow> budget_state \<Rightarrow> budget_state option" where
  "exec_action b (Call i n) s =
     (if fetchers s i = Idle \<and> 0 \<le> n then Some (s\<lparr>fetchers := (fetchers s)(i := Loading n)\<rparr>) else None)"
| "exec_action b (Load i) s =
     (case fetchers s i of
        Loading n \<Rightarrow> Some (s\<lparr>fetchers := (fetchers s)(i :=
          if admits b (catchUpBytes s) n then Loaded n (catchUpBytes s) else Parked n)\<rparr>)
      | _ \<Rightarrow> None)"
| "exec_action b (Swap i) s =
     (case fetchers s i of
        Loaded n cur \<Rightarrow> Some (if catchUpBytes s = cur
          then s\<lparr>catchUpBytes := cur + n, outstanding := n # outstanding s, fetchers := (fetchers s)(i := Idle)\<rparr>
          else s\<lparr>fetchers := (fetchers s)(i := Loading n)\<rparr>)
      | _ \<Rightarrow> None)"
| "exec_action b (Wake i) s =
     (case fetchers s i of
        Parked n \<Rightarrow> if catchUpBytesFreed s
          then Some (s\<lparr>catchUpBytesFreed := False, fetchers := (fetchers s)(i := Loading n)\<rparr>) else None
      | _ \<Rightarrow> None)"
| "exec_action b (Free n) s =
     (if n \<in> set (outstanding s) \<and> \<not> signalling s
      then Some (if n = 0 then s\<lparr>outstanding := remove1 0 (outstanding s)\<rparr>
        else s\<lparr>catchUpBytes := catchUpBytes s - n, outstanding := remove1 n (outstanding s), signalling := True\<rparr>)
      else None)"
| "exec_action b Signal s =
     (if signalling s then Some (s\<lparr>catchUpBytesFreed := True, signalling := False\<rparr>) else None)"

fun exec_run :: "int \<Rightarrow> action list \<Rightarrow> budget_state \<Rightarrow> budget_state option" where
  "exec_run b [] s = Some s"
| "exec_run b (a # as) s = (case exec_action b a s of None \<Rightarrow> None | Some s' \<Rightarrow> exec_run b as s')"

lemma load_cases:
  "fetchers s i = Loading n \<Longrightarrow> admits b (catchUpBytes s) n \<Longrightarrow>
     budget_step b s (Load i) (s\<lparr>fetchers := (fetchers s)(i := Loaded n (catchUpBytes s))\<rparr>)"
  "fetchers s i = Loading n \<Longrightarrow> \<not> admits b (catchUpBytes s) n \<Longrightarrow>
     budget_step b s (Load i) (s\<lparr>fetchers := (fetchers s)(i := Parked n)\<rparr>)"
  using load [of s i n b] by simp_all

lemma exec_action_iff: "exec_action b a s = Some s' \<longleftrightarrow> budget_step b s a s'"
proof
  show "exec_action b a s = Some s' \<Longrightarrow> budget_step b s a s'"
    by (cases a) (auto split: fetcher.splits if_split_asm intro: budget_step.intros
        load_cases)
  show "budget_step b s a s' \<Longrightarrow> exec_action b a s = Some s'"
    by (erule budget_stepE) auto
qed

lemma exec_run_reach:
  "exec_run b as s = Some s' \<Longrightarrow> budget_reach P b s \<Longrightarrow>
     list_all (\<lambda>a. case a of Call i n \<Rightarrow> P n | _ \<Rightarrow> True) as \<Longrightarrow> budget_reach P b s'"
proof (induction as arbitrary: s)
  case (Cons a as)
  then obtain s1 where s1: "exec_action b a s = Some s1" "exec_run b as s1 = Some s'" by (auto split: option.splits)
  have "budget_reach P b s1"
    using Cons.prems(2,3) s1(1) by (auto simp: exec_action_iff intro: budget_reach.step)
  with Cons s1(2) show ?case by simp
qed simp

theorem catch_up_bytes_bounded_witness:
  "\<exists>s. exec_run (budget_of 0) [Call 0 5, Load 0, Call 1 2, Load 1, Swap 0, Swap 1] initial_budget = Some s \<and>
    catchUpBytes s = 5 \<and> catchUpBytes s \<in> set (outstanding s) \<and> fetchers s 1 = Loading 2"
proof -
  let ?as = "[Call 0 5, Load 0, Call 1 2, Load 1, Swap 0, Swap 1]"
  obtain s where s: "exec_run (budget_of 0) ?as initial_budget = Some s" "catchUpBytes s = 5" "fetchers s 1 = Loading 2"
    by (auto simp: initial_budget_def budget_of_def admits_def)
  have "budget_reach (\<lambda>_. True) (budget_of 0) s"
    by (rule exec_run_reach [OF s(1) budget_reach.init]) simp
  from catch_up_bytes_bounded [OF this] s show ?thesis by (simp add: budget_of_def)
qed

text \<open>
  C23. No wake-up is lost: as long as every turn has at least one byte, in any state in which a fetcher
  is parked something other than a new reservation can happen: a running fetcher, a pending signal or
  wake-up, or an outstanding batch for the writer to free.
\<close>

theorem parked_fetcher_not_stuck:
  assumes "budget_reach (\<lambda>n. 0 < n) (budget_of scanMaxPendingBytes) s" and "fetchers s i = Parked n"
  shows "\<exists>a s'. budget_step (budget_of scanMaxPendingBytes) s a s' \<and> (\<forall>j m. a \<noteq> Call j m)"
proof -
  let ?b = "budget_of scanMaxPendingBytes"
  have "wakeup_inv s" by (rule budget_reach_wakeup [OF assms(1)]) (simp_all add: budget_of_def)
  then consider "signalling s" | "catchUpBytesFreed s" | m where "m \<in> set (outstanding s)" "\<not> signalling s"
    | j where "active (fetchers s j)"
    using assms(2) by (cases "outstanding s") (auto simp: wakeup_inv_def)
  then show ?thesis
  proof cases
    case 1
    then show ?thesis by (blast intro: signal)
  next
    case 2
    then show ?thesis using assms(2) by (blast intro: wake)
  next
    case 3
    then show ?thesis by (cases "m = 0") (blast intro: free free_zero)+
  next
    case 4
    then obtain m cur where "fetchers s j = Loading m \<or> fetchers s j = Loaded m cur"
      by (cases "fetchers s j") (auto simp: active_def)
    then show ?thesis by (cases "catchUpBytes s = cur") (blast intro: load swap swap_fails)+
  qed
qed

theorem parked_fetcher_not_stuck_witness:
  "\<exists>s a s'. exec_run (budget_of 4) [Call 0 5, Load 0, Swap 0, Call 1 2, Load 1] initial_budget = Some s \<and>
    fetchers s 1 = Parked 2 \<and> budget_step (budget_of 4) s a s' \<and> (\<forall>j m. a \<noteq> Call j m)"
proof -
  let ?as = "[Call 0 5, Load 0, Swap 0, Call 1 2, Load 1]"
  obtain s where s: "exec_run (budget_of 4) ?as initial_budget = Some s" "fetchers s 1 = Parked 2"
    by (auto simp: initial_budget_def budget_of_def admits_def)
  have "budget_reach (\<lambda>n. 0 < n) (budget_of 4) s"
    by (rule exec_run_reach [OF s(1) budget_reach.init]) simp
  from parked_fetcher_not_stuck [OF this s(2)] s show ?thesis by blast
qed

text \<open>
  The wake-up argument needs non-empty turns: \<open>freeCatchUpBytes\<close> returns early on 0 without
  signalling, so a turn whose messages carry no data can consume the only wake-up and leave another
  fetcher parked with the counter at 0, no signal on the way and nothing outstanding to free.
\<close>

theorem empty_turn_loses_wakeup:
  "\<exists>s. budget_reach (\<lambda>_. True) (budget_of 4) s \<and> catchUpBytes s = 0 \<and> outstanding s = [] \<and>
    \<not> catchUpBytesFreed s \<and> \<not> signalling s \<and> fetchers s 2 = Parked 3 \<and>
    \<not> (\<exists>a s'. budget_step (budget_of 4) s a s' \<and> (\<forall>i n. a \<noteq> Call i n))"
proof -
  let ?as = "[Call 0 5, Load 0, Swap 0, Call 1 0, Load 1, Call 2 3, Load 2, Free 5, Signal, Wake 1, Load 1,
    Swap 1, Free 0]"
  obtain s where s: "exec_run (budget_of 4) ?as initial_budget = Some s" "catchUpBytes s = 0" "outstanding s = []"
    "\<not> catchUpBytesFreed s" "\<not> signalling s" "fetchers s 2 = Parked 3"
    and f: "\<forall>i. i \<noteq> 2 \<longrightarrow> fetchers s i = Idle"
    by (auto simp: initial_budget_def budget_of_def admits_def)
  have "\<exists>i n. a = Call i n" if "budget_step (budget_of 4) s a s'" for a s'
    using that
  proof cases
    case (load i n)
    then show ?thesis using f s(6) by (cases "i = 2") auto
  next
    case (swap i n cur)
    then show ?thesis using f s(6) by (cases "i = 2") auto
  next
    case (swap_fails i n cur)
    then show ?thesis using f s(6) by (cases "i = 2") auto
  qed (use s in auto)
  moreover have "budget_reach (\<lambda>_. True) (budget_of 4) s"
    by (rule exec_run_reach [OF s(1) budget_reach.init]) simp
  ultimately show ?thesis using s by blast
qed

end
