(* ===== verification/Subscribe_Writer.thy ===== *)
theory Subscribe_Writer
  imports Catchup Dispatcher "HOL-Library.Multiset"
begin

text \<open>
  The writer of the Subscribe stream (pkg/mls/api/v1/subscribe.go): the single goroutine that owns
  all mutable state of a stream and decides what is sent. Its local variables are the record
  \<open>writer\<close>, its closures (\<open>send\<close>, \<open>dropTopic\<close>, \<open>completeWave\<close>) and the arms of its select loop are
  functions on that record, and \<open>handle\<close> is one iteration of the loop for the event the select picked.

  What the writer does not control is a parameter: the outcome of each hand-over to the sender
  goroutine (\<open>send_outcome\<close>), of the final flush, and the protobuf decoder. \<open>sent\<close> collects the
  frames the sender accepted, in order; \<open>spawned\<close> the fetchers started; \<open>answered\<close> (a ghost) the
  mutate ids of the Mutates that were processed; \<open>dropped\<close> (a ghost) says that a send was abandoned
  because the stream's context was cancelled, after which no client is reading.

  Go maps are sets or functions with the zero value where there is no entry; \<open>waves\<close>, which is
  iterated and tested for emptiness, is an association list.
\<close>

section \<open>State\<close>

record waveState =
  ws_mutateID :: u64
  ws_scansLeft :: int
  ws_owned :: int
  ws_topics :: "string list"
  ws_wire :: "bytes list"

datatype scan_job = GroupScan "GroupCatchup list" int | WelcomeScan "WelcomeCatchup list" int

record writer =
  highWaterMarks :: marks
  catchingUp :: "string set"
  pending :: "string \<Rightarrow> envelope list"
  subscribed :: "string set"
  pendingBytes :: int
  lastActivity :: int
  awaitingPong :: bool
  pingNonce :: u64
  pingSentAt :: int
  subscribedTopics :: int
  nextWave :: int
  waves :: "(int \<times> waveState) list"
  topicWave :: "string \<Rightarrow> int option"
  halfClosed :: bool
  sub_topics :: "string set"
  sends :: nat
  sent :: "frame list"
  spawned :: "scan_job list"
  answered :: "u64 list"
  dropped :: bool

datatype send_outcome = Accepted int | SendFailed go_error | StreamDone | ServiceDone | Stalled

record sub_cfg =
  pingInterval :: int
  pongDeadline :: int
  maxPendingBytes :: int
  maxFrameBytes :: int
  maxMutateAdds :: int
  unmarshalGroup :: "bytes \<Rightarrow> GroupMessage result"
  unmarshalWelcome :: "bytes \<Rightarrow> WelcomeMessage result"
  sendOutcome :: "nat \<Rightarrow> send_outcome"
  flushOutcome :: "go_error option"

definition initial_writer :: writer where
  "initial_writer = \<lparr>highWaterMarks = (\<lambda>_. 0), catchingUp = {}, pending = (\<lambda>_. []), subscribed = {},
     pendingBytes = 0, lastActivity = 0, awaitingPong = False, pingNonce = 0, pingSentAt = 0,
     subscribedTopics = 0, nextWave = 0, waves = [], topicWave = (\<lambda>_. None), halfClosed = False,
     sub_topics = {}, sends = 0, sent = [], spawned = [], answered = [], dropped = False\<rparr>"

section \<open>Sending\<close>

type_synonym outcome = "writer \<times> go_error option"

text \<open>\<open>if err := f(); err != nil { return err }\<close>.\<close>

definition and_then :: "outcome \<Rightarrow> (writer \<Rightarrow> outcome) \<Rightarrow> outcome" where
  "and_then r f = (case snd r of None \<Rightarrow> f (fst r) | Some e \<Rightarrow> r)"

definition send :: "sub_cfg \<Rightarrow> frame list \<Rightarrow> writer \<Rightarrow> outcome" where
  "send s flat w =
     (if flat = [] then (w, None)
      else
        let w' = w\<lparr>sends := Suc (sends w)\<rparr> in
        case sendOutcome s (sends w) of
          Accepted now \<Rightarrow> (w'\<lparr>lastActivity := now, sent := sent w @ flat\<rparr>, None)
        | SendFailed e \<Rightarrow> (w', Some e)
        | StreamDone \<Rightarrow> (w'\<lparr>dropped := True\<rparr>, None)
        | ServiceDone \<Rightarrow> (w', Some (Status Unavailable ''service is shutting down''))
        | Stalled \<Rightarrow> (w', Some (Status Unavailable ''send stalled; client not reading'')))"

definition group_frames :: "sub_cfg \<Rightarrow> GroupMessage list \<Rightarrow> u64 \<Rightarrow> writer \<Rightarrow> writer \<times> frame list" where
  "group_frames s msgs mutateID w =
     (let (hw, frames) = buildGroupFrames (maxFrameBytes s) msgs mutateID (highWaterMarks w)
      in (w\<lparr>highWaterMarks := hw\<rparr>, frames))"

definition welcome_frames :: "sub_cfg \<Rightarrow> WelcomeMessage list \<Rightarrow> u64 \<Rightarrow> writer \<Rightarrow> writer \<times> frame list" where
  "welcome_frames s msgs mutateID w =
     (let (hw, frames) = buildWelcomeFrames (maxFrameBytes s) msgs mutateID (highWaterMarks w)
      in (w\<lparr>highWaterMarks := hw\<rparr>, frames))"

definition startedFrame :: "sub_cfg \<Rightarrow> frame list" where
  "startedFrame s = [Started (go_uint32 (pingInterval s div 1000000))]"

definition catchupCompleteFrame :: "u64 \<Rightarrow> frame list" where
  "catchupCompleteFrame mutateID = [CatchupComplete mutateID]"

section \<open>Waves\<close>

definition set_wave :: "int \<Rightarrow> waveState \<Rightarrow> (int \<times> waveState) list \<Rightarrow> (int \<times> waveState) list" where
  "set_wave wave ws = map (\<lambda>(i, x). if i = wave then (i, ws) else (i, x))"

definition delete_wave :: "int \<Rightarrow> (int \<times> waveState) list \<Rightarrow> (int \<times> waveState) list" where
  "delete_wave wave = filter (\<lambda>(i, x). i \<noteq> wave)"

definition buffered :: "envelope list \<Rightarrow> int" where
  "buffered envs = sum_list (map (\<lambda>env. int (length (message_bytes env))) envs)"

definition dropTopic :: "sub_cfg \<Rightarrow> string \<Rightarrow> writer \<Rightarrow> outcome" where
  "dropTopic s t w =
     (let w1 = w\<lparr>sub_topics := sub_topics w - {t}, highWaterMarks := (highWaterMarks w)(t := 0)\<rparr>;
          w2 = (if t \<in> subscribed w1
                then w1\<lparr>subscribed := subscribed w1 - {t}, subscribedTopics := subscribedTopics w1 - 1\<rparr> else w1);
          w3 = (if t \<in> catchingUp w2
                then w2\<lparr>pendingBytes := pendingBytes w2 - buffered (pending w2 t),
                       pending := (pending w2)(t := []), catchingUp := catchingUp w2 - {t}\<rparr> else w2)
      in case topicWave w3 t of
           None \<Rightarrow> (w3, None)
         | Some wave \<Rightarrow>
             let w4 = w3\<lparr>topicWave := (topicWave w3)(t := None)\<rparr> in
             case map_of (waves w4) wave of
               None \<Rightarrow> (w4, None)
             | Some ws \<Rightarrow>
                 let ws' = ws\<lparr>ws_owned := ws_owned ws - 1\<rparr> in
                 if 0 < ws_owned ws' then (w4\<lparr>waves := set_wave wave ws' (waves w4)\<rparr>, None)
                 else send s (catchupCompleteFrame (ws_mutateID ws)) (w4\<lparr>waves := delete_wave wave (waves w4)\<rparr>))"

definition parse_groups :: "sub_cfg \<Rightarrow> envelope list \<Rightarrow> GroupMessage list" where
  "parse_groups s = List.map_filter (\<lambda>env. case unmarshalGroup s (message_bytes env) of Inl _ \<Rightarrow> None | Inr m \<Rightarrow> Some m)"

definition parse_welcomes :: "sub_cfg \<Rightarrow> envelope list \<Rightarrow> WelcomeMessage list" where
  "parse_welcomes s = List.map_filter (\<lambda>env. case unmarshalWelcome s (message_bytes env) of Inl _ \<Rightarrow> None | Inr m \<Rightarrow> Some m)"

fun settle_topics ::
  "sub_cfg \<Rightarrow> int \<Rightarrow> (string \<times> bytes) list \<Rightarrow> writer \<Rightarrow> GroupMessage list \<Rightarrow> WelcomeMessage list \<Rightarrow> bytes list \<Rightarrow>
     writer \<times> GroupMessage list \<times> WelcomeMessage list \<times> bytes list" where
  "settle_topics s wave [] w groups welcomes marker = (w, groups, welcomes, marker)"
| "settle_topics s wave ((t, wire) # ts) w groups welcomes marker =
     (if topicWave w t \<noteq> Some wave then settle_topics s wave ts w groups welcomes marker
      else
        let w1 = w\<lparr>topicWave := (topicWave w)(t := None)\<rparr>; marker' = marker @ [wire] in
        if t \<notin> catchingUp w1
        then settle_topics s wave ts (w1\<lparr>highWaterMarks := (highWaterMarks w1)(t := 0)\<rparr>) groups welcomes marker'
        else
          let envs = pending w1 t;
              w2 = w1\<lparr>catchingUp := catchingUp w1 - {t}, pendingBytes := pendingBytes w1 - buffered envs,
                     pending := (pending w1)(t := [])\<rparr>
          in if IsMLSV1Welcome t
             then settle_topics s wave ts w2 groups (welcomes @ parse_welcomes s envs) marker'
             else settle_topics s wave ts w2 (groups @ parse_groups s envs) welcomes marker')"

definition completeWave :: "sub_cfg \<Rightarrow> int \<Rightarrow> waveState \<Rightarrow> writer \<Rightarrow> outcome" where
  "completeWave s wave ws w =
     (let (w1, groups, welcomes, marker) = settle_topics s wave (zip (ws_topics ws) (ws_wire ws)) w [] [] [];
          liveMarker = (if marker \<noteq> [] then [TopicsLive marker] else []);
          w2 = w1\<lparr>waves := delete_wave wave (waves w1)\<rparr>;
          (w3, gf) = group_frames s (sort_key GetId groups) (ws_mutateID ws) w2;
          (w4, wf) = welcome_frames s (sort_key welcomeID welcomes) (ws_mutateID ws) w3
      in send s (gf @ wf @ liveMarker @ catchupCompleteFrame (ws_mutateID ws)) w4)"

section \<open>Requests\<close>

record mutate_add =
  ma_Topic :: bytes
  ma_IdCursor :: u64

record Mutate =
  mt_MutateId :: u64
  mt_Adds :: "mutate_add list"
  mt_Removes :: "bytes list"
  mt_HistoryOnly :: bool

text \<open>The arms of a request: an unset version, the three request kinds, and a version with none of them.\<close>

datatype client_frame = ReqNoVersion | ReqMutate Mutate | ReqPing u64 | ReqPong u64 | ReqOther

record addReq =
  ar_wire :: bytes
  ar_kind :: byte
  ar_id :: bytes
  ar_cursor :: u64

text \<open>\<open>addOrder\<close> and \<open>addByTopic\<close> as one list in first-seen order.\<close>

definition merge_add :: "string \<Rightarrow> addReq \<Rightarrow> (string \<times> addReq) list \<Rightarrow> (string \<times> addReq) list" where
  "merge_add t a acc =
     (if t \<in> fst ` set acc
      then map (\<lambda>(u, x). if u = t \<and> ar_cursor a < ar_cursor x
             then (u, x\<lparr>ar_cursor := ar_cursor a, ar_wire := ar_wire a\<rparr>) else (u, x)) acc
      else acc @ [(t, a)])"

fun collect_adds :: "mutate_add list \<Rightarrow> (string \<times> addReq) list \<Rightarrow> (string \<times> addReq) list result" where
  "collect_adds [] acc = Inr acc"
| "collect_adds (add # adds) acc =
     (case splitTopic (ma_Topic add) of
        Inl e \<Rightarrow> Inl (Status InvalidArgument ''add'')
      | Inr (kind, i) \<Rightarrow> collect_adds adds (merge_add (buildMLSTopic kind i)
          \<lparr>ar_wire = ma_Topic add, ar_kind = kind, ar_id = i, ar_cursor = ma_IdCursor add\<rparr> acc))"

fun apply_removes :: "sub_cfg \<Rightarrow> bytes list \<Rightarrow> writer \<Rightarrow> outcome" where
  "apply_removes s [] w = (w, None)"
| "apply_removes s (wire # wires) w =
     (case splitTopic wire of
        Inl e \<Rightarrow> (w, Some (Status InvalidArgument ''remove''))
      | Inr (kind, i) \<Rightarrow> and_then (dropTopic s (buildMLSTopic kind i) w) (apply_removes s wires))"

record add_acc =
  groupAdds :: "GroupCatchup list"
  groupTopics :: "string list"
  groupWire :: "bytes list"
  welcomeAdds :: "WelcomeCatchup list"
  welcomeTopics :: "string list"
  welcomeWire :: "bytes list"
  newlyLive :: int

definition no_adds :: add_acc where
  "no_adds = \<lparr>groupAdds = [], groupTopics = [], groupWire = [], welcomeAdds = [], welcomeTopics = [],
     welcomeWire = [], newlyLive = 0\<rparr>"

text \<open>The registration of one accepted add: floor, gate, dispatcher, and the wave's lists.\<close>

definition register_add :: "bool \<Rightarrow> string \<Rightarrow> addReq \<Rightarrow> writer \<Rightarrow> add_acc \<Rightarrow> writer \<times> add_acc" where
  "register_add historyOnly t a w acc =
     (let w1 = w\<lparr>highWaterMarks := (highWaterMarks w)(t := ar_cursor a)\<rparr>;
          w2 = (if historyOnly then w1
                else w1\<lparr>catchingUp := insert t (catchingUp w1), sub_topics := insert t (sub_topics w1),
                       subscribed := insert t (subscribed w1)\<rparr>);
          acc1 = (if historyOnly then acc else acc\<lparr>newlyLive := newlyLive acc + 1\<rparr>)
      in (w2,
          if ar_kind a = topicKindGroupMessagesV1
          then acc1\<lparr>groupAdds := groupAdds acc1 @ [\<lparr>gc_GroupID = ar_id a, gc_IdCursor = ar_cursor a\<rparr>],
                    groupTopics := groupTopics acc1 @ [t], groupWire := groupWire acc1 @ [ar_wire a]\<rparr>
          else acc1\<lparr>welcomeAdds := welcomeAdds acc1 @ [\<lparr>wc_InstallationKey = ar_id a, wc_IdCursor = ar_cursor a\<rparr>],
                    welcomeTopics := welcomeTopics acc1 @ [t], welcomeWire := welcomeWire acc1 @ [ar_wire a]\<rparr>))"

fun apply_adds :: "sub_cfg \<Rightarrow> bool \<Rightarrow> (string \<times> addReq) list \<Rightarrow> writer \<Rightarrow> add_acc \<Rightarrow> writer \<times> add_acc \<times> go_error option" where
  "apply_adds s historyOnly [] w acc = (w, acc, None)"
| "apply_adds s historyOnly ((t, a) # adds) w acc =
     (if topicWave w t \<noteq> None \<and> t \<notin> subscribed w \<and> t \<notin> catchingUp w
      then (w, acc, Some (Status InvalidArgument ''add targets a topic with an in-flight history_only catch-up''))
      else if t \<in> subscribed w \<or> t \<in> catchingUp w then
        if historyOnly
        then (w, acc, Some (Status InvalidArgument ''history_only add targets a topic already subscribed on this stream''))
        else if highWaterMarks w t \<le> ar_cursor a then apply_adds s historyOnly adds w acc
        else (case dropTopic s t w of
            (w', Some e) \<Rightarrow> (w', acc, Some e)
          | (w', None) \<Rightarrow>
              (case register_add historyOnly t a w' acc of (w'', acc') \<Rightarrow> apply_adds s historyOnly adds w'' acc'))
      else (case register_add historyOnly t a w acc of (w'', acc') \<Rightarrow> apply_adds s historyOnly adds w'' acc'))"

definition start_wave :: "u64 \<Rightarrow> add_acc \<Rightarrow> writer \<Rightarrow> writer" where
  "start_wave mutateID acc w =
     (let wave = nextWave w;
          ws = \<lparr>ws_mutateID = mutateID,
            ws_scansLeft = (if groupAdds acc \<noteq> [] then 1 else 0) + (if welcomeAdds acc \<noteq> [] then 1 else 0),
            ws_owned = int (length (groupAdds acc) + length (welcomeAdds acc)),
            ws_topics = groupTopics acc @ welcomeTopics acc,
            ws_wire = groupWire acc @ welcomeWire acc\<rparr>;
          jobs = (if groupAdds acc \<noteq> [] then [GroupScan (groupAdds acc) wave] else []) @
                 (if welcomeAdds acc \<noteq> [] then [WelcomeScan (welcomeAdds acc) wave] else [])
      in w\<lparr>nextWave := wave + 1, waves := waves w @ [(wave, ws)],
          topicWave := (\<lambda>t. if t \<in> set (ws_topics ws) then Some wave else topicWave w t),
          spawned := spawned w @ jobs\<rparr>)"

definition handle_mutate :: "sub_cfg \<Rightarrow> Mutate \<Rightarrow> writer \<Rightarrow> outcome" where
  "handle_mutate s m w =
     (if mt_Adds m \<noteq> [] \<and> mt_MutateId m = 0
      then (w, Some (Status InvalidArgument ''a Mutate with adds requires a nonzero mutate_id''))
      else if maxMutateAdds s < int (length (mt_Adds m))
      then (w, Some (Status ResourceExhausted ''adds-per-Mutate limit exceeded''))
      else if mt_MutateId m \<noteq> 0 \<and> mt_MutateId m \<in> ws_mutateID ` snd ` set (waves w)
      then (w, Some (Status InvalidArgument ''mutate_id is already in flight on this stream''))
      else case collect_adds (mt_Adds m) [] of
             Inl e \<Rightarrow> (w, Some e)
           | Inr adds \<Rightarrow>
               and_then (apply_removes s (mt_Removes m) w) (\<lambda>w1.
                 case apply_adds s (mt_HistoryOnly m) adds w1 no_adds of
                   (w2, acc, Some e) \<Rightarrow> (w2, Some e)
                 | (w2, acc, None) \<Rightarrow>
                     let w3 = w2\<lparr>subscribedTopics := subscribedTopics w2 + newlyLive acc,
                                answered := answered w2 @ [mt_MutateId m]\<rparr> in
                     if groupAdds acc \<noteq> [] \<or> welcomeAdds acc \<noteq> [] then (start_wave (mt_MutateId m) acc w3, None)
                     else send s (catchupCompleteFrame (mt_MutateId m)) w3))"

section \<open>The select loop\<close>

datatype event =
    EvStreamDone
  | EvServiceDone
  | EvSendErr go_error
  | EvRequest client_frame
  | EvRequestClosed "go_error option"
  | EvBatch catchUpBatch
  | EvEnvelope envelope
  | EvSubscriptionClosed
  | EvTick int int

datatype verdict = Continue | Return "go_error option"

definition or_return :: "outcome \<Rightarrow> writer \<times> verdict" where
  "or_return r = (case snd r of None \<Rightarrow> (fst r, Continue) | Some e \<Rightarrow> (fst r, Return (Some e)))"

definition handle_request :: "sub_cfg \<Rightarrow> client_frame \<Rightarrow> writer \<Rightarrow> outcome" where
  "handle_request s req w =
     (case req of
        ReqNoVersion \<Rightarrow> (w, Some (Status InvalidArgument ''unrecognized SubscribeRequest version''))
      | ReqMutate m \<Rightarrow> handle_mutate s m w
      | ReqPing nonce \<Rightarrow> send s [PongFrame nonce] w
      | ReqPong nonce \<Rightarrow> (if nonce = pingNonce w then w\<lparr>awaitingPong := False\<rparr> else w, None)
      | ReqOther \<Rightarrow> (w, None))"

definition batch_frames :: "sub_cfg \<Rightarrow> catchUpBatch \<Rightarrow> u64 \<Rightarrow> writer \<Rightarrow> writer \<times> frame list" where
  "batch_frames s b mutateID w =
     (let wanted = (\<lambda>t. topicWave w t = Some (cb_wave b)) in
      if cb_groupMsgs b \<noteq> []
      then group_frames s (filter (\<lambda>m. wanted (groupKey m)) (cb_groupMsgs b)) mutateID w
      else if cb_welcomeMsgs b \<noteq> []
      then welcome_frames s (filter (\<lambda>m. wanted (welcomeKey m)) (cb_welcomeMsgs b)) mutateID w
      else (w, []))"

text \<open>The \<open>if b.done\<close> block: the end of one of the wave's scans.\<close>

definition scan_done :: "sub_cfg \<Rightarrow> int \<Rightarrow> waveState \<Rightarrow> writer \<Rightarrow> writer \<times> verdict" where
  "scan_done s wave ws w =
     (let ws' = ws\<lparr>ws_scansLeft := ws_scansLeft ws - 1\<rparr> in
      if 0 < ws_scansLeft ws' then (w\<lparr>waves := set_wave wave ws' (waves w)\<rparr>, Continue)
      else
        let r = completeWave s wave ws' w in
        if snd r \<noteq> None then or_return r
        else if halfClosed (fst r) \<and> waves (fst r) = [] then (fst r, Return (flushOutcome s))
        else (fst r, Continue))"

definition handle_batch :: "sub_cfg \<Rightarrow> catchUpBatch \<Rightarrow> writer \<Rightarrow> writer \<times> verdict" where
  "handle_batch s b w =
     (if cb_err b \<noteq> None then (w, Return (Some (Status Unavailable ''catch-up failed'')))
      else case map_of (waves w) (cb_wave b) of
             None \<Rightarrow> (w, Continue)
           | Some ws \<Rightarrow>
               let (w1, history) = batch_frames s b (ws_mutateID ws) w;
                   r = send s history w1
               in if snd r \<noteq> None then or_return r
                  else if cb_done b then scan_done s (cb_wave b) ws (fst r) else (fst r, Continue))"

definition handle_envelope :: "sub_cfg \<Rightarrow> envelope \<Rightarrow> writer \<Rightarrow> writer \<times> verdict" where
  "handle_envelope s env w =
     (let t = ContentTopic env in
      if t \<in> catchingUp w then
        let w1 = w\<lparr>pending := (pending w)(t := pending w t @ [env]),
                  pendingBytes := pendingBytes w + int (length (message_bytes env))\<rparr>
        in if maxPendingBytes s < pendingBytes w1
           then (w1, Return (Some (Status ResourceExhausted ''catch-up buffer exceeded; reconnect from cursor'')))
           else (w1, Continue)
      else
        let (w1, frames) = (if IsMLSV1Welcome t then welcome_frames s (parse_welcomes s [env]) 0 w
                            else group_frames s (parse_groups s [env]) 0 w)
        in or_return (send s frames w1))"

definition handle_tick :: "sub_cfg \<Rightarrow> int \<Rightarrow> int \<Rightarrow> writer \<Rightarrow> writer \<times> verdict" where
  "handle_tick s now sentAt w =
     (if halfClosed w then (w, Continue)
      else if awaitingPong w then
        if pongDeadline s \<le> now - pingSentAt w
        then (w, Return (Some (Status DeadlineExceeded ''no Pong within deadline''))) else (w, Continue)
      else if pingInterval s \<le> now - lastActivity w then
        let w1 = w\<lparr>pingNonce := pingNonce w + 1\<rparr>; r = send s [PingFrame (pingNonce w1)] w1 in
        if snd r \<noteq> None then or_return r
        else ((fst r)\<lparr>awaitingPong := True, pingSentAt := sentAt\<rparr>, Continue)
      else (w, Continue))"

text \<open>After a half-close the request channel is nil and its case never fires.\<close>

definition handle :: "sub_cfg \<Rightarrow> event \<Rightarrow> writer \<Rightarrow> writer \<times> verdict" where
  "handle s ev w =
     (case ev of
        EvStreamDone \<Rightarrow> (w, Return None)
      | EvServiceDone \<Rightarrow> (w, Return (Some (Status Unavailable ''service is shutting down'')))
      | EvSendErr e \<Rightarrow> (w, Return (Some e))
      | EvRequest req \<Rightarrow> if halfClosed w then (w, Continue) else or_return (handle_request s req w)
      | EvRequestClosed recvErr \<Rightarrow>
          if halfClosed w then (w, Continue)
          else if recvErr \<noteq> None then (w, Return (Some (Status Unavailable ''stream recv failed'')))
          else if waves w = [] then (w, Return (flushOutcome s))
          else (w\<lparr>halfClosed := True, awaitingPong := False\<rparr>, Continue)
      | EvBatch b \<Rightarrow> handle_batch s b w
      | EvEnvelope env \<Rightarrow> handle_envelope s env w
      | EvSubscriptionClosed \<Rightarrow> (w, Return (Some (Status Aborted ''subscription closed: consumer too slow'')))
      | EvTick now sentAt \<Rightarrow> handle_tick s now sentAt w)"

fun run :: "sub_cfg \<Rightarrow> event list \<Rightarrow> writer \<Rightarrow> writer \<times> verdict" where
  "run s [] w = (w, Continue)"
| "run s (ev # evs) w =
     (case handle s ev w of (w', Continue) \<Rightarrow> run s evs w' | (w', Return e) \<Rightarrow> (w', Return e))"

text \<open>The stream: the Started frame first, then the loop.\<close>

definition stream :: "sub_cfg \<Rightarrow> event list \<Rightarrow> int \<Rightarrow> writer \<times> verdict" where
  "stream s evs now =
     (case or_return (send s (startedFrame s) (initial_writer\<lparr>lastActivity := now\<rparr>)) of
        (w, Continue) \<Rightarrow> run s evs w
      | (w, Return e) \<Rightarrow> (w, Return e))"

end
