(* ===== verification/Subscribe_Invariants.thy ===== *)
theory Subscribe_Invariants
  imports Subscribe_Writer
begin

text \<open>
  The bookkeeping of the Subscribe writer. \<open>writer_inv\<close> relates the maps the writer keeps beside each
  other: the gauge counts the live topics, the dispatcher is registered for exactly those, the byte
  counter is the size of the buffers, and the waves own exactly the topics that are mapped to them.
  While a Mutate is being applied the adds already registered belong to no wave yet, so the invariant
  is stated relative to a list of such topics. \<open>answers\<close> relates the CatchupComplete frames sent
  to the Mutates processed.
\<close>

section \<open>The invariant\<close>

definition owners :: "writer \<Rightarrow> int \<Rightarrow> string set" where
  "owners w i = {t. topicWave w t = Some i}"

definition wave_ok :: "writer \<Rightarrow> int \<times> waveState \<Rightarrow> bool" where
  "wave_ok w x \<longleftrightarrow>
     fst x < nextWave w \<and> distinct (ws_topics (snd x)) \<and> length (ws_wire (snd x)) = length (ws_topics (snd x)) \<and>
     0 < ws_scansLeft (snd x) \<and> owners w (fst x) \<subseteq> set (ws_topics (snd x)) \<and> owners w (fst x) \<noteq> {} \<and>
     ws_owned (snd x) = int (card (owners w (fst x))) \<and> ws_mutateID (snd x) \<noteq> 0"

definition buffers_ok :: "writer \<Rightarrow> bool" where
  "buffers_ok w \<longleftrightarrow>
     (\<forall>t. t \<notin> catchingUp w \<longrightarrow> pending w t = []) \<and>
     pendingBytes w = (\<Sum>t \<in> catchingUp w. buffered (pending w t))"

definition topics_ok :: "string set \<Rightarrow> int \<Rightarrow> writer \<Rightarrow> bool" where
  "topics_ok A live w \<longleftrightarrow>
     finite (subscribed w) \<and> subscribedTopics w + live = int (card (subscribed w)) \<and>
     sub_topics w = subscribed w \<and> catchingUp w \<subseteq> subscribed w \<and>
     (\<forall>t \<in> A. topicWave w t = None \<and> (t \<in> subscribed w \<longrightarrow> t \<in> catchingUp w)) \<and>
     (\<forall>t \<in> subscribed w - A. topicWave w t \<noteq> None \<longleftrightarrow> t \<in> catchingUp w)"

definition waves_ok :: "writer \<Rightarrow> bool" where
  "waves_ok w \<longleftrightarrow>
     distinct (map fst (waves w)) \<and> distinct (map (ws_mutateID \<circ> snd) (waves w)) \<and>
     (\<forall>x \<in> set (waves w). wave_ok w x) \<and>
     (\<forall>t i. topicWave w t = Some i \<longrightarrow> i \<in> fst ` set (waves w))"

definition winv :: "string set \<Rightarrow> int \<Rightarrow> writer \<Rightarrow> bool" where
  "winv A live w \<longleftrightarrow> topics_ok A live w \<and> buffers_ok w \<and> waves_ok w"

definition writer_inv :: "writer \<Rightarrow> bool" where
  "writer_inv w \<longleftrightarrow> winv {} 0 w"

lemmas winv_defs = winv_def topics_ok_def buffers_ok_def waves_ok_def wave_ok_def owners_def

section \<open>Sending changes no bookkeeping\<close>

lemma send_fields [simp]:
  "highWaterMarks (fst (send s fl w)) = highWaterMarks w" "catchingUp (fst (send s fl w)) = catchingUp w"
  "pending (fst (send s fl w)) = pending w" "subscribed (fst (send s fl w)) = subscribed w"
  "pendingBytes (fst (send s fl w)) = pendingBytes w" "subscribedTopics (fst (send s fl w)) = subscribedTopics w"
  "nextWave (fst (send s fl w)) = nextWave w" "waves (fst (send s fl w)) = waves w"
  "topicWave (fst (send s fl w)) = topicWave w" "halfClosed (fst (send s fl w)) = halfClosed w"
  "sub_topics (fst (send s fl w)) = sub_topics w" "answered (fst (send s fl w)) = answered w"
  "awaitingPong (fst (send s fl w)) = awaitingPong w" "pingNonce (fst (send s fl w)) = pingNonce w"
  "pingSentAt (fst (send s fl w)) = pingSentAt w" "spawned (fst (send s fl w)) = spawned w"
  by (simp_all add: send_def Let_def split: send_outcome.splits)

lemma winv_send [simp]: "winv A live (fst (send s fl w)) = winv A live w"
  by (simp add: winv_defs)

lemma winv_sends [simp]: "winv A live (w\<lparr>highWaterMarks := hw\<rparr>) = winv A live w"
  by (simp add: winv_defs)

lemma frames_fields [simp]:
  "waves (fst (group_frames s ms i w)) = waves w" "waves (fst (welcome_frames s wms i w)) = waves w"
  "topicWave (fst (group_frames s ms i w)) = topicWave w" "topicWave (fst (welcome_frames s wms i w)) = topicWave w"
  "catchingUp (fst (group_frames s ms i w)) = catchingUp w" "catchingUp (fst (welcome_frames s wms i w)) = catchingUp w"
  "pending (fst (group_frames s ms i w)) = pending w" "pending (fst (welcome_frames s wms i w)) = pending w"
  "subscribed (fst (group_frames s ms i w)) = subscribed w" "subscribed (fst (welcome_frames s wms i w)) = subscribed w"
  "sent (fst (group_frames s ms i w)) = sent w" "sent (fst (welcome_frames s wms i w)) = sent w"
  "answered (fst (group_frames s ms i w)) = answered w" "answered (fst (welcome_frames s wms i w)) = answered w"
  "dropped (fst (group_frames s ms i w)) = dropped w" "dropped (fst (welcome_frames s wms i w)) = dropped w"
  "pendingBytes (fst (group_frames s ms i w)) = pendingBytes w" "pendingBytes (fst (welcome_frames s wms i w)) = pendingBytes w"
  "halfClosed (fst (group_frames s ms i w)) = halfClosed w" "halfClosed (fst (welcome_frames s wms i w)) = halfClosed w"
  by (simp_all add: group_frames_def welcome_frames_def split: prod.splits)

lemma winv_frames [simp]:
  "winv A live (fst (group_frames s ms i w)) = winv A live w"
  "winv A live (fst (welcome_frames s wms i w)) = winv A live w"
  by (simp_all add: group_frames_def welcome_frames_def split: prod.splits)

section \<open>Association lists of waves\<close>

lemma map_fst_set_wave [simp]: "map fst (set_wave i x ws) = map fst ws"
  by (induction ws) (auto simp: set_wave_def)

lemma image_fst_set_wave [simp]: "fst ` set (set_wave i x ws) = fst ` set ws"
  using map_fst_set_wave [of i x ws] by (metis list.set_map)

lemma set_wave_set:
  "(j, y) \<in> set (set_wave i x ws) \<longleftrightarrow> (if j = i then y = x \<and> i \<in> fst ` set ws else (j, y) \<in> set ws)"
  by (induction ws) (auto simp: set_wave_def split: if_splits)

lemma set_delete_wave [simp]: "x \<in> set (delete_wave i ws) \<longleftrightarrow> x \<in> set ws \<and> fst x \<noteq> i"
  by (auto simp: delete_wave_def)

lemma image_fst_delete_wave [simp]: "fst ` set (delete_wave i ws) = fst ` set ws - {i}"
  by (force simp: delete_wave_def)

lemma distinct_delete_wave: "distinct (map f ws) \<Longrightarrow> distinct (map f (delete_wave i ws))"
  by (simp add: delete_wave_def distinct_map_filter)

lemma map_mutateID_set_wave [simp]:
  assumes "map_of ws i = Some x" and "distinct (map fst ws)" and "ws_mutateID y = ws_mutateID x"
  shows "map (ws_mutateID \<circ> snd) (set_wave i y ws) = map (ws_mutateID \<circ> snd) ws"
  using assms by (induction ws) (auto simp: set_wave_def split: if_splits, force)

lemma mset_delete_wave:
  assumes "map_of ws i = Some x" and "distinct (map fst ws)"
  shows "mset (map f ws) = add_mset (f (i, x)) (mset (map f (delete_wave i ws)))"
  using assms
proof (induction ws)
  case (Cons a ws)
  have "delete_wave i ws = ws" if "fst a = i"
  proof -
    have "i \<notin> fst ` set ws" using Cons.prems(2) that by simp
    then show ?thesis unfolding delete_wave_def by (intro filter_True) force
  qed
  with Cons show ?case by (cases a) (auto simp: delete_wave_def split: if_splits)
qed simp

lemma map_of_in: "map_of ws i = Some x \<Longrightarrow> i \<in> fst ` set ws"
  by (metis domI dom_map_of_conv_image_fst)

section \<open>dropTopic\<close>

text \<open>The state changes of \<open>dropTopic\<close> before the wave is looked at.\<close>

definition forget :: "string \<Rightarrow> writer \<Rightarrow> writer" where
  "forget t w = w\<lparr>sub_topics := sub_topics w - {t}, highWaterMarks := (highWaterMarks w)(t := 0),
     subscribed := subscribed w - {t},
     subscribedTopics := subscribedTopics w - (if t \<in> subscribed w then 1 else 0),
     pendingBytes := pendingBytes w - (if t \<in> catchingUp w then buffered (pending w t) else 0),
     pending := (if t \<in> catchingUp w then (pending w)(t := []) else pending w),
     catchingUp := catchingUp w - {t}, topicWave := (topicWave w)(t := None)\<rparr>"

lemma dropTopic_eq:
  "dropTopic s t w =
     (case topicWave w t of
        None \<Rightarrow> (forget t w, None)
      | Some wave \<Rightarrow>
          (case map_of (waves w) wave of
             None \<Rightarrow> (forget t w, None)
           | Some ws \<Rightarrow>
               if 0 < ws_owned ws - 1
               then ((forget t w)\<lparr>waves := set_wave wave (ws\<lparr>ws_owned := ws_owned ws - 1\<rparr>) (waves w)\<rparr>, None)
               else send s (catchupCompleteFrame (ws_mutateID ws))
                 ((forget t w)\<lparr>waves := delete_wave wave (waves w)\<rparr>)))"
proof -
  have "subscribed w - {t} = subscribed w" if "t \<notin> subscribed w" using that by auto
  moreover have "catchingUp w - {t} = catchingUp w" if "t \<notin> catchingUp w" using that by auto
  moreover have "(topicWave w)(t := None) = topicWave w" if "topicWave w t = None" using that by auto
  ultimately show ?thesis
    by (auto simp: dropTopic_def forget_def Let_def split: option.splits)
qed

lemma forget_sel [simp]:
  "subscribed (forget t w) = subscribed w - {t}" "catchingUp (forget t w) = catchingUp w - {t}"
  "topicWave (forget t w) = (topicWave w)(t := None)" "waves (forget t w) = waves w" "nextWave (forget t w) = nextWave w"
  "sub_topics (forget t w) = sub_topics w - {t}" "sent (forget t w) = sent w" "answered (forget t w) = answered w"
  "dropped (forget t w) = dropped w" "halfClosed (forget t w) = halfClosed w"
  "highWaterMarks (forget t w) = (highWaterMarks w)(t := 0)"
  by (simp_all add: forget_def)

lemma forget_pending [simp]: "t \<notin> catchingUp w \<longrightarrow> pending w t = [] \<Longrightarrow> pending (forget t w) = (pending w)(t := [])"
  by (auto simp: forget_def)

lemma topics_ok_forget: "topics_ok A live w \<Longrightarrow> t \<notin> A \<Longrightarrow> topics_ok A live (forget t w)"
proof -
  assume ok: "topics_ok A live w" and t: "t \<notin> A"
  then have "subscribedTopics (forget t w) + live = int (card (subscribed w - {t}))"
    using card_Diff_singleton [of t "subscribed w"] card_gt_0_iff [of "subscribed w"]
    by (auto simp: topics_ok_def forget_def of_nat_diff Suc_le_eq)
  with ok t show ?thesis by (auto simp: topics_ok_def)
qed

lemma buffers_ok_forget: "buffers_ok w \<Longrightarrow> finite (catchingUp w) \<Longrightarrow> buffers_ok (forget t w)"
proof -
  assume ok: "buffers_ok w" and fin: "finite (catchingUp w)"
  have "pendingBytes (forget t w) = (\<Sum>u \<in> catchingUp w - {t}. buffered (pending w u))"
    using ok fin by (auto simp: buffers_ok_def forget_def sum.remove)
  also have "\<dots> = (\<Sum>u \<in> catchingUp w - {t}. buffered (pending (forget t w) u))"
    by (intro sum.cong) (auto simp: forget_def)
  finally show ?thesis using ok by (auto simp: buffers_ok_def forget_def)
qed

lemma owners_forget [simp]:
  "owners (forget t w) i = owners w i - {t}" "owners (w\<lparr>waves := ws\<rparr>) i = owners w i"
  by (auto simp: owners_def)

lemma waves_okD:
  assumes "waves_ok w" and "topicWave w t = Some i"
  obtains ws where "map_of (waves w) i = Some ws" "(i, ws) \<in> set (waves w)" "wave_ok w (i, ws)" "t \<in> owners w i"
proof -
  from assms obtain ws where "(i, ws) \<in> set (waves w)" by (force simp: waves_ok_def)
  moreover from this assms have "map_of (waves w) i = Some ws" "wave_ok w (i, ws)" by (auto simp: waves_ok_def)
  ultimately show thesis using assms(2) by (intro that) (auto simp: owners_def)
qed

lemma wave_ok_upd [simp]: "wave_ok (w\<lparr>waves := ws\<rparr>) x = wave_ok w x"
  by (simp add: wave_ok_def)

lemma wave_ok_forget: "wave_ok w x \<Longrightarrow> topicWave w t \<noteq> Some (fst x) \<Longrightarrow> wave_ok (forget t w) x"
proof -
  assume "wave_ok w x" "topicWave w t \<noteq> Some (fst x)"
  moreover from this have "owners w (fst x) - {t} = owners w (fst x)" by (auto simp: owners_def)
  ultimately show ?thesis unfolding wave_ok_def by simp
qed

lemma waves_ok_dropTopic: "waves_ok w \<Longrightarrow> waves_ok (fst (dropTopic s t w))"
proof -
  assume ok: "waves_ok w"
  show ?thesis
  proof (cases "topicWave w t")
    case None
    then show ?thesis using ok wave_ok_forget [of w _ t] by (auto simp: dropTopic_eq waves_ok_def)
  next
    case (Some i)
    from waves_okD [OF ok Some] obtain ws where
      ws: "map_of (waves w) i = Some ws" "(i, ws) \<in> set (waves w)" "wave_ok w (i, ws)" "t \<in> owners w i" .
    have uniq: "x = ws" if "(i, x) \<in> set (waves w)" for x
      using that ok ws(1) by (auto simp: waves_ok_def)
    have other: "wave_ok (forget t w) x" if "x \<in> set (waves w)" "fst x \<noteq> i" for x
      using that ok Some by (intro wave_ok_forget) (auto simp: waves_ok_def)
    have fin: "finite (owners w i)" using ws(3) finite_subset by (auto simp: wave_ok_def)
    show ?thesis
    proof (cases "0 < ws_owned ws - 1")
      case True
      let ?ws = "ws\<lparr>ws_owned := ws_owned ws - 1\<rparr>"
      have card: "int (card (owners w i - {t})) = ws_owned ws - 1"
        using ws(3,4) fin card_Diff_singleton [OF ws(4)] card_gt_0_iff [of "owners w i"]
        by (auto simp: wave_ok_def of_nat_diff Suc_le_eq)
      then have "card (owners w i - {t}) \<noteq> 0" using True by linarith
      then have "owners w i - {t} \<noteq> {}" by (metis card.empty)
      then have "wave_ok (forget t w) (i, ?ws)" using ws(3) card by (auto simp: wave_ok_def)
      moreover have "map (ws_mutateID \<circ> snd) (set_wave i ?ws (waves w)) = map (ws_mutateID \<circ> snd) (waves w)"
        using ws(1) ok by (intro map_mutateID_set_wave) (auto simp: waves_ok_def)
      ultimately show ?thesis
        using True Some ws other ok by (auto simp: dropTopic_eq waves_ok_def set_wave_set split: if_splits)
    next
      case False
      have "card (owners w i) = 1"
        using False ws(3,4) fin card_gt_0_iff [of "owners w i"] by (auto simp: wave_ok_def)
      then have "owners w i = {t}" using ws(4) by (metis card_1_singletonE singletonD)
      then have "topicWave w u \<noteq> Some i" if "u \<noteq> t" for u using that by (auto simp: owners_def)
      then have "j \<in> fst ` set (delete_wave i (waves w))" if "u \<noteq> t" "topicWave w u = Some j" for u j
        using that ok unfolding waves_ok_def image_fst_delete_wave by (metis Diff_iff singletonD)
      moreover have "\<forall>x \<in> set (delete_wave i (waves w)). wave_ok (forget t w) x" using other by simp
      moreover have "distinct (map fst (delete_wave i (waves w)))"
        "distinct (map (ws_mutateID \<circ> snd) (delete_wave i (waves w)))"
        using ok unfolding waves_ok_def by (blast intro: distinct_delete_wave)+
      ultimately have "waves_ok ((forget t w)\<lparr>waves := delete_wave i (waves w)\<rparr>)"
        unfolding waves_ok_def by simp
      then show ?thesis using False Some ws(1) by (simp add: dropTopic_eq waves_ok_def wave_ok_def owners_def)
    qed
  qed
qed

lemma topics_ok_cong:
  "subscribed w' = subscribed w \<Longrightarrow> subscribedTopics w' = subscribedTopics w \<Longrightarrow> sub_topics w' = sub_topics w \<Longrightarrow>
   catchingUp w' = catchingUp w \<Longrightarrow> topicWave w' = topicWave w \<Longrightarrow> topics_ok A live w' = topics_ok A live w"
  by (simp add: topics_ok_def)

lemma buffers_ok_cong:
  "catchingUp w' = catchingUp w \<Longrightarrow> pending w' = pending w \<Longrightarrow> pendingBytes w' = pendingBytes w \<Longrightarrow>
   buffers_ok w' = buffers_ok w"
  by (simp add: buffers_ok_def)

lemma dropTopic_fields:
  "subscribed (fst (dropTopic s t w)) = subscribed w - {t}"
  "subscribedTopics (fst (dropTopic s t w)) = subscribedTopics (forget t w)"
  "sub_topics (fst (dropTopic s t w)) = sub_topics w - {t}"
  "catchingUp (fst (dropTopic s t w)) = catchingUp w - {t}"
  "topicWave (fst (dropTopic s t w)) = (topicWave w)(t := None)"
  "pending (fst (dropTopic s t w)) = pending (forget t w)"
  "pendingBytes (fst (dropTopic s t w)) = pendingBytes (forget t w)"
  "highWaterMarks (fst (dropTopic s t w)) = (highWaterMarks w)(t := 0)"
  "answered (fst (dropTopic s t w)) = answered w" "nextWave (fst (dropTopic s t w)) = nextWave w"
  "halfClosed (fst (dropTopic s t w)) = halfClosed w"
  by (auto simp: dropTopic_eq split: option.splits)

lemma winv_dropTopic: "winv A live w \<Longrightarrow> t \<notin> A \<Longrightarrow> winv A live (fst (dropTopic s t w))"
proof -
  assume inv: "winv A live w" and t: "t \<notin> A"
  have fin: "finite (catchingUp w)" using inv finite_subset by (auto simp: winv_def topics_ok_def)
  have "topics_ok A live (fst (dropTopic s t w)) = topics_ok A live (forget t w)"
    by (rule topics_ok_cong) (simp_all add: dropTopic_fields)
  moreover have "buffers_ok (fst (dropTopic s t w)) = buffers_ok (forget t w)"
    by (rule buffers_ok_cong) (simp_all add: dropTopic_fields)
  ultimately show ?thesis
    using inv t topics_ok_forget buffers_ok_forget [OF _ fin] waves_ok_dropTopic by (auto simp: winv_def)
qed

section \<open>Completing a wave\<close>

text \<open>The state after \<open>settle_topics\<close> has processed the topics \<open>S\<close> the wave still owns.\<close>

definition settled :: "string set \<Rightarrow> writer \<Rightarrow> writer" where
  "settled S w = w\<lparr>topicWave := (\<lambda>t. if t \<in> S then None else topicWave w t),
     catchingUp := catchingUp w - S,
     pending := (\<lambda>t. if t \<in> S \<inter> catchingUp w then [] else pending w t),
     pendingBytes := pendingBytes w - (\<Sum>t \<in> S \<inter> catchingUp w. buffered (pending w t)),
     highWaterMarks := (\<lambda>t. if t \<in> S - catchingUp w then 0 else highWaterMarks w t)\<rparr>"

definition gated :: "(string \<Rightarrow> bool) \<Rightarrow> writer \<Rightarrow> int \<Rightarrow> string list \<Rightarrow> envelope list" where
  "gated P w wave ts = concat (map (pending w) (filter (\<lambda>t. topicWave w t = Some wave \<and> t \<in> catchingUp w \<and> P t) ts))"

lemma settled_empty [simp]: "settled {} w = w"
  by (simp add: settled_def)

lemma settled_insert:
  assumes "finite S" and "t \<notin> S"
  shows "settled S (settled {t} w) = settled (insert t S) w"
proof -
  have "(insert t S) \<inter> catchingUp w = (if t \<in> catchingUp w then insert t (S \<inter> catchingUp w) else S \<inter> catchingUp w)"
    by auto
  moreover have "(\<Sum>u \<in> S \<inter> (catchingUp w - {t}). buffered (pending (settled {t} w) u)) =
      (\<Sum>u \<in> S \<inter> catchingUp w. buffered (pending w u))"
    using assms(2) by (intro sum.cong) (auto simp: settled_def)
  ultimately show ?thesis using assms
    by (auto simp: settled_def fun_eq_iff intro!: writer.equality)
qed

lemma settled_sel [simp]:
  "topicWave (settled S w) = (\<lambda>t. if t \<in> S then None else topicWave w t)" "catchingUp (settled S w) = catchingUp w - S"
  "waves (settled S w) = waves w" "subscribed (settled S w) = subscribed w" "sub_topics (settled S w) = sub_topics w"
  "subscribedTopics (settled S w) = subscribedTopics w" "nextWave (settled S w) = nextWave w"
  "sent (settled S w) = sent w" "answered (settled S w) = answered w" "dropped (settled S w) = dropped w"
  "halfClosed (settled S w) = halfClosed w"
  "highWaterMarks (settled S w) = (\<lambda>t. if t \<in> S - catchingUp w then 0 else highWaterMarks w t)"
  by (simp_all add: settled_def)

lemma parse_append [simp]:
  "parse_groups s (xs @ ys) = parse_groups s xs @ parse_groups s ys"
  "parse_welcomes s (xs @ ys) = parse_welcomes s xs @ parse_welcomes s ys"
  "parse_groups s [] = []" "parse_welcomes s [] = []"
  by (simp_all add: parse_groups_def parse_welcomes_def List.map_filter_def)

lemma gated_settled:
  assumes "t \<notin> set ts"
  shows "gated P (settled {t} w) wave ts = gated P w wave ts"
proof -
  have "filter (\<lambda>u. topicWave (settled {t} w) u = Some wave \<and> u \<in> catchingUp (settled {t} w) \<and> P u) ts =
      filter (\<lambda>u. topicWave w u = Some wave \<and> u \<in> catchingUp w \<and> P u) ts"
    using assms by (intro filter_cong) auto
  moreover have "map (pending (settled {t} w)) (filter Q ts) = map (pending w) (filter Q ts)" for Q
    using assms by (intro map_cong) (auto simp: settled_def)
  ultimately show ?thesis unfolding gated_def by (simp only:)
qed

lemma gated_Cons:
  "gated P w wave (t # ts) =
     (if topicWave w t = Some wave \<and> t \<in> catchingUp w \<and> P t then pending w t else []) @ gated P w wave ts"
  by (simp add: gated_def)

lemma settle_topics_eq:
  assumes "length wire = length ts" and "distinct ts"
  shows "settle_topics s wave (zip ts wire) w groups welcomes marker =
    (settled {t \<in> set ts. topicWave w t = Some wave} w,
     groups @ parse_groups s (gated (\<lambda>t. \<not> IsMLSV1Welcome t) w wave ts),
     welcomes @ parse_welcomes s (gated IsMLSV1Welcome w wave ts),
     marker @ map snd (filter (\<lambda>(t, x). topicWave w t = Some wave) (zip ts wire)))"
  using assms
proof (induction ts wire arbitrary: w groups welcomes marker rule: list_induct2')
  case (4 t ts x wire)
  let ?S = "{u \<in> set ts. topicWave w u = Some wave}"
  show ?case
  proof (cases "topicWave w t = Some wave")
    case False
    then have "{u \<in> set (t # ts). topicWave w u = Some wave} = ?S" by auto
    with False 4 show ?thesis by (simp add: gated_def)
  next
    case True
    have t: "t \<notin> ?S" "t \<notin> set ts" using 4(3) by auto
    have S: "{u \<in> set (t # ts). topicWave w u = Some wave} = insert t ?S" using True by auto
    have S': "{u \<in> set ts. topicWave (settled {t} w) u = Some wave} = ?S" using t by auto
    have mk: "filter (\<lambda>(u, x). topicWave (settled {t} w) u = Some wave) (zip ts wire) =
        filter (\<lambda>(u, x). topicWave w u = Some wave) (zip ts wire)"
      using t(2) by (intro filter_cong) (auto dest: set_zip_leftD split: if_splits)
    note ins = settled_insert [of ?S t w, OF _ t(1)]
    have step: "settle_topics s wave (zip (t # ts) (x # wire)) w groups welcomes marker =
        settle_topics s wave (zip ts wire) (settled {t} w)
          (groups @ (if t \<in> catchingUp w \<and> \<not> IsMLSV1Welcome t then parse_groups s (pending w t) else []))
          (welcomes @ (if t \<in> catchingUp w \<and> IsMLSV1Welcome t then parse_welcomes s (pending w t) else []))
          (marker @ [x])"
    proof -
      have "settled {t} w = (if t \<in> catchingUp w
          then w\<lparr>topicWave := (topicWave w)(t := None), catchingUp := catchingUp w - {t},
            pendingBytes := pendingBytes w - buffered (pending w t), pending := (pending w)(t := [])\<rparr>
          else w\<lparr>topicWave := (topicWave w)(t := None), highWaterMarks := (highWaterMarks w)(t := 0)\<rparr>)"
        by (auto simp: settled_def fun_eq_iff intro!: writer.equality)
      then show ?thesis using True by (simp add: Let_def)
    qed
    have "settle_topics s wave (zip ts wire) (settled {t} w) g wl m =
        (settled (insert t ?S) w, g @ parse_groups s (gated (\<lambda>t. \<not> IsMLSV1Welcome t) w wave ts),
         wl @ parse_welcomes s (gated IsMLSV1Welcome w wave ts),
         m @ map snd (filter (\<lambda>(u, x). topicWave w u = Some wave) (zip ts wire)))" for g wl m
      using 4(1) [of "settled {t} w" g wl m] 4(2,3) ins
      unfolding S' mk gated_settled [OF t(2)] by simp
    then show ?thesis unfolding step S gated_Cons using True by simp
  qed
qed (simp_all add: gated_def)

lemma completeWave_eq:
  assumes "length (ws_wire ws) = length (ws_topics ws)" and "distinct (ws_topics ws)"
    and "owners w wave \<subseteq> set (ws_topics ws)"
  shows "completeWave s wave ws w =
    (let w2 = (settled (owners w wave) w)\<lparr>waves := delete_wave wave (waves w)\<rparr>;
         (w3, gf) = group_frames s (sort_key GetId (parse_groups s (gated (\<lambda>t. \<not> IsMLSV1Welcome t) w wave (ws_topics ws))))
           (ws_mutateID ws) w2;
         (w4, wf) = welcome_frames s (sort_key welcomeID (parse_welcomes s (gated IsMLSV1Welcome w wave (ws_topics ws))))
           (ws_mutateID ws) w3;
         marker = map snd (filter (\<lambda>(t, x). topicWave w t = Some wave) (zip (ws_topics ws) (ws_wire ws)))
     in send s (gf @ wf @ (if marker \<noteq> [] then [TopicsLive marker] else []) @ catchupCompleteFrame (ws_mutateID ws)) w4)"
proof -
  have "{t \<in> set (ws_topics ws). topicWave w t = Some wave} = owners w wave"
    using assms(3) by (auto simp: owners_def)
  then show ?thesis
    unfolding completeWave_def settle_topics_eq [OF assms(1,2)] by (simp add: Let_def)
qed

lemma completeWave_fields:
  assumes "length (ws_wire ws) = length (ws_topics ws)" and "distinct (ws_topics ws)"
    and "owners w wave \<subseteq> set (ws_topics ws)"
  defines "w2 \<equiv> (settled (owners w wave) w)\<lparr>waves := delete_wave wave (waves w)\<rparr>"
  shows "winv A live (fst (completeWave s wave ws w)) = winv A live w2"
    and "waves (fst (completeWave s wave ws w)) = delete_wave wave (waves w)"
    and "halfClosed (fst (completeWave s wave ws w)) = halfClosed w"
    and "answered (fst (completeWave s wave ws w)) = answered w"
    and "pendingBytes (fst (completeWave s wave ws w)) = pendingBytes w2"
    and "subscribed (fst (completeWave s wave ws w)) = subscribed w"
  unfolding completeWave_eq [OF assms(1-3)] w2_def by (simp_all add: Let_def split_def)

lemma owners_finite: "wave_ok w x \<Longrightarrow> finite (owners w (fst x))"
  using finite_subset by (auto simp: wave_ok_def)

lemma winv_settled:
  assumes inv: "winv {} live w"
  shows "winv {} live ((settled (owners w i) w)\<lparr>waves := delete_wave i (waves w)\<rparr>)"
proof -
  let ?w = "(settled (owners w i) w)\<lparr>waves := delete_wave i (waves w)\<rparr>"
  have top: "topics_ok {} live w" and buf: "buffers_ok w" and wv: "waves_ok w" using inv by (simp_all add: winv_def)
  have fin: "finite (catchingUp w)" using top finite_subset by (auto simp: topics_ok_def)
  have "topics_ok {} live ?w" using top by (auto simp: topics_ok_def owners_def)
  moreover have "buffers_ok ?w"
  proof -
    have "(\<Sum>t \<in> catchingUp w. buffered (pending w t)) =
        (\<Sum>t \<in> catchingUp w - owners w i. buffered (pending w t)) + (\<Sum>t \<in> owners w i \<inter> catchingUp w. buffered (pending w t))"
      using sum.Int_Diff [OF fin, of "\<lambda>t. buffered (pending w t)" "owners w i"] by (simp add: Int_commute)
    moreover have "(\<Sum>t \<in> catchingUp w - owners w i. buffered (pending (settled (owners w i) w) t)) =
        (\<Sum>t \<in> catchingUp w - owners w i. buffered (pending w t))"
      by (intro sum.cong) (auto simp: settled_def)
    ultimately show ?thesis using buf by (auto simp: buffers_ok_def settled_def)
  qed
  moreover have "waves_ok ?w"
  proof -
    have "owners (settled (owners w i) w) j = owners w j" if "j \<noteq> i" for j
      using that by (auto simp: owners_def)
    then have "\<forall>x \<in> set (delete_wave i (waves w)). wave_ok (settled (owners w i) w) x"
      using wv by (auto simp: waves_ok_def wave_ok_def)
    moreover have "\<forall>t j. topicWave (settled (owners w i) w) t = Some j \<longrightarrow> j \<in> fst ` set (waves w) - {i}"
      using wv by (auto simp: waves_ok_def owners_def)
    moreover have "distinct (map fst (delete_wave i (waves w)))"
      "distinct (map (ws_mutateID \<circ> snd) (delete_wave i (waves w)))"
      using wv unfolding waves_ok_def by (blast intro: distinct_delete_wave)+
    ultimately show ?thesis unfolding waves_ok_def by simp
  qed
  ultimately show ?thesis by (simp add: winv_def)
qed

section \<open>Applying a Mutate\<close>

definition in_flight :: "writer \<Rightarrow> u64 set" where
  "in_flight w = ws_mutateID ` snd ` set (waves w)"

definition acc_topics :: "add_acc \<Rightarrow> string list" where
  "acc_topics acc = groupTopics acc @ welcomeTopics acc"

definition acc_ok :: "add_acc \<Rightarrow> bool" where
  "acc_ok acc \<longleftrightarrow> distinct (acc_topics acc) \<and> length (groupAdds acc) = length (groupTopics acc) \<and>
     length (groupWire acc) = length (groupTopics acc) \<and> length (welcomeAdds acc) = length (welcomeTopics acc) \<and>
     length (welcomeWire acc) = length (welcomeTopics acc)"

lemma buffered_Nil [simp]: "buffered [] = 0"
  by (simp add: buffered_def)

lemma winv_register_add:
  assumes inv: "winv (set (acc_topics acc)) (newlyLive acc) w" and acc: "acc_ok acc"
    and t: "t \<notin> set (acc_topics acc)" "t \<notin> subscribed w" "topicWave w t = None"
    and r: "register_add h t a w acc = (w', acc')"
  shows "winv (set (acc_topics acc')) (newlyLive acc') w'" and "acc_ok acc'"
    and "set (acc_topics acc') = insert t (set (acc_topics acc))"
    and "waves w' = waves w" and "sent w' = sent w" and "answered w' = answered w" and "dropped w' = dropped w"
    and "pendingBytes w' = pendingBytes w" and "halfClosed w' = halfClosed w" and "topicWave w' = topicWave w"
proof -
  have top: "topics_ok (set (acc_topics acc)) (newlyLive acc) w" and buf: "buffers_ok w" and wv: "waves_ok w"
    using inv by (simp_all add: winv_def)
  have nc: "t \<notin> catchingUp w" using top t(2) by (auto simp: topics_ok_def)
  have fin: "finite (catchingUp w)" "finite (subscribed w)" using top finite_subset by (auto simp: topics_ok_def)
  show ts: "set (acc_topics acc') = insert t (set (acc_topics acc))"
    using r by (auto simp: register_add_def Let_def acc_topics_def split: if_splits)
  show "acc_ok acc'" using r acc t(1) by (auto simp: register_add_def Let_def acc_ok_def acc_topics_def split: if_splits)
  have live: "newlyLive acc' = newlyLive acc + (if h then 0 else 1)"
    using r by (auto simp: register_add_def Let_def split: if_splits)
  have w': "w' = w\<lparr>highWaterMarks := (highWaterMarks w)(t := ar_cursor a),
      catchingUp := (if h then catchingUp w else insert t (catchingUp w)),
      sub_topics := (if h then sub_topics w else insert t (sub_topics w)),
      subscribed := (if h then subscribed w else insert t (subscribed w))\<rparr>"
    using r by (auto simp: register_add_def Let_def split: if_splits)
  have "topics_ok (insert t (set (acc_topics acc))) (newlyLive acc') w'"
    using top t fin nc unfolding w' live by (cases h) (auto simp: topics_ok_def)
  moreover have "buffers_ok w'" using buf nc fin unfolding w' by (cases h) (auto simp: buffers_ok_def)
  moreover have "waves_ok w'" using wv unfolding w' by (simp add: waves_ok_def wave_ok_def owners_def)
  ultimately show "winv (set (acc_topics acc')) (newlyLive acc') w'" unfolding ts by (simp add: winv_def)
  show "waves w' = waves w" and "sent w' = sent w" and "answered w' = answered w" and "dropped w' = dropped w"
    and "pendingBytes w' = pendingBytes w" and "halfClosed w' = halfClosed w" and "topicWave w' = topicWave w"
    by (simp_all add: w')
qed

lemma fst_dropTopic_waves: "in_flight (fst (dropTopic s t w)) \<subseteq> in_flight w"
  by (force simp: in_flight_def dropTopic_eq set_wave_def delete_wave_def dest!: map_of_SomeD split: option.splits if_splits)

lemma winv_apply_removes:
  "winv {} live w \<Longrightarrow> winv {} live (fst (apply_removes s wires w)) \<and>
     in_flight (fst (apply_removes s wires w)) \<subseteq> in_flight w"
proof (induction wires arbitrary: w)
  case (Cons wire wires)
  show ?case
  proof (cases "splitTopic wire")
    case (Inr p)
    obtain kind i where p: "p = (kind, i)" by (cases p)
    let ?d = "dropTopic s (buildMLSTopic kind i) w"
    have d: "winv {} live (fst ?d)" using Cons.prems by (intro winv_dropTopic) auto
    show ?thesis
      using Inr p d Cons.IH [OF d] fst_dropTopic_waves [of s "buildMLSTopic kind i" w]
      by (cases "snd ?d") (auto simp: and_then_def)
  qed (use Cons.prems in auto)
qed simp

lemma winv_apply_adds:
  assumes "winv (set (acc_topics acc)) (newlyLive acc) w" and "acc_ok acc" and "distinct (map fst adds)"
    and "fst ` set adds \<inter> set (acc_topics acc) = {}" and "apply_adds s h adds w acc = (w', acc', e)"
  shows "winv (set (acc_topics acc')) (newlyLive acc') w' \<and> acc_ok acc' \<and>
    in_flight w' \<subseteq> in_flight w"
  using assms
proof (induction adds arbitrary: w acc)
  case (Cons x adds)
  obtain t a where x: "x = (t, a)" by (cases x)
  have t: "t \<notin> set (acc_topics acc)" "t \<notin> fst ` set adds" using Cons.prems(3,4) x by auto
  have reg: ?case if w1: "winv (set (acc_topics acc)) (newlyLive acc) w1" "t \<notin> subscribed w1" "topicWave w1 t = None"
    and mid: "in_flight w1 \<subseteq> in_flight w"
    and run: "register_add h t a w1 acc = (w2, acc2)" "apply_adds s h adds w2 acc2 = (w', acc', e)" for w1 w2 acc2
  proof -
    note r = winv_register_add [OF w1(1) Cons.prems(2) t(1) w1(2,3) run(1)]
    have "distinct (map fst adds)" "fst ` set adds \<inter> set (acc_topics acc2) = {}"
      using Cons.prems(3,4) x t r(3) by auto
    moreover have "in_flight w2 = in_flight w1" using r(4) by (simp add: in_flight_def)
    ultimately show ?thesis using Cons.IH [OF r(1,2) _ _ run(2)] mid by auto
  qed
  show ?case
  proof (cases "t \<in> subscribed w \<or> t \<in> catchingUp w")
    case True
    show ?thesis
    proof (cases "h \<or> highWaterMarks w t \<le> ar_cursor a")
      case True
      then show ?thesis
        using \<open>t \<in> subscribed w \<or> t \<in> catchingUp w\<close> Cons x by (auto split: if_splits)
    next
      case False
      let ?d = "dropTopic s t w"
      have d: "winv (set (acc_topics acc)) (newlyLive acc) (fst ?d)" using Cons.prems(1) t(1) by (rule winv_dropTopic)
      note mid = fst_dropTopic_waves [of s t w]
      show ?thesis
      proof (cases "snd ?d")
        case None
        obtain w2 acc2 where "register_add h t a (fst ?d) acc = (w2, acc2)" by (cases "register_add h t a (fst ?d) acc")
        with None False True Cons.prems(5) x show ?thesis
          by (intro reg [OF d _ _ mid]) (auto simp: dropTopic_fields split: prod.splits)
      next
        case (Some err)
        then show ?thesis using False True Cons.prems x d mid by (auto split: prod.splits)
      qed
    qed
  next
    case False
    show ?thesis
    proof (cases "topicWave w t")
      case None
      obtain w2 acc2 where "register_add h t a w acc = (w2, acc2)" by (cases "register_add h t a w acc")
      with None False Cons.prems(5) x show ?thesis by (intro reg [OF Cons.prems(1) _ None]) auto
    next
      case (Some i)
      then show ?thesis using False Cons.prems x by auto
    qed
  qed
qed auto

lemma map_fst_merge_add:
  "map fst (merge_add t a acc) = (if t \<in> fst ` set acc then map fst acc else map fst acc @ [t])"
  by (auto simp: merge_add_def)

lemma collect_adds_distinct:
  "collect_adds adds acc = Inr r \<Longrightarrow> distinct (map fst acc) \<Longrightarrow> distinct (map fst r)"
proof (induction adds arbitrary: acc)
  case (Cons add adds)
  then obtain kind i where "collect_adds adds (merge_add (buildMLSTopic kind i)
      \<lparr>ar_wire = ma_Topic add, ar_kind = kind, ar_id = i, ar_cursor = ma_IdCursor add\<rparr> acc) = Inr r"
    by (auto split: sum.splits prod.splits)
  from Cons.IH [OF this] show ?case using Cons.prems(2) by (auto simp: map_fst_merge_add)
qed simp

lemma winv_start_wave:
  assumes inv: "winv (set (acc_topics acc)) live w" and acc: "acc_ok acc" and ne: "acc_topics acc \<noteq> []"
    and fresh: "i \<notin> in_flight w" "i \<noteq> 0"
  shows "winv {} live (start_wave i acc w)"
proof -
  let ?w = "start_wave i acc w" and ?T = "set (acc_topics acc)"
  have top: "topics_ok ?T live w" and buf: "buffers_ok w" and wv: "waves_ok w" using inv by (simp_all add: winv_def)
  have new: "j \<noteq> nextWave w" if "j \<in> fst ` set (waves w)" for j using that wv by (auto simp: waves_ok_def wave_ok_def)
  have tw: "topicWave ?w = (\<lambda>t. if t \<in> ?T then Some (nextWave w) else topicWave w t)"
    by (simp add: start_wave_def Let_def acc_topics_def)
  have own: "owners ?w (nextWave w) = ?T" using wv new unfolding owners_def tw waves_ok_def by force
  have other: "owners ?w j = owners w j" if "j \<noteq> nextWave w" for j
    using that top unfolding owners_def tw topics_ok_def by auto
  have "topics_ok {} live ?w" using top unfolding topics_ok_def tw by (auto simp: start_wave_def Let_def)
  moreover have "buffers_ok ?w" using buf by (simp add: buffers_ok_def start_wave_def Let_def)
  moreover have "waves_ok ?w"
  proof -
    obtain ws where ws: "waves ?w = waves w @ [(nextWave w, ws)]" "ws_mutateID ws = i" "ws_topics ws = acc_topics acc"
      "ws_owned ws = int (card ?T)" "0 < ws_scansLeft ws" "length (ws_wire ws) = length (acc_topics acc)"
    proof -
      have "length (groupAdds acc) + length (welcomeAdds acc) = card ?T"
        using acc distinct_card [of "acc_topics acc"] by (simp add: acc_ok_def acc_topics_def)
      moreover have "groupAdds acc \<noteq> [] \<or> welcomeAdds acc \<noteq> []" using acc ne by (auto simp: acc_ok_def acc_topics_def)
      ultimately show thesis using acc that by (force simp: start_wave_def Let_def acc_topics_def acc_ok_def)
    qed
    have nw: "nextWave ?w = nextWave w + 1" by (simp add: start_wave_def Let_def)
    have "wave_ok ?w (nextWave w, ws)"
      using acc ne fresh(2) ws by (simp add: wave_ok_def acc_ok_def own nw)
    moreover have "wave_ok ?w x" if x: "x \<in> set (waves w)" for x
    proof -
      have "owners ?w (fst x) = owners w (fst x)" using other new x by blast
      moreover have "wave_ok w x" using wv x by (simp add: waves_ok_def)
      ultimately show ?thesis by (simp add: wave_ok_def nw)
    qed
    moreover have "\<forall>t j. topicWave ?w t = Some j \<longrightarrow> j \<in> fst ` set (waves ?w)"
      using wv unfolding tw ws(1) waves_ok_def by auto
    moreover have "i \<notin> (ws_mutateID \<circ> snd) ` set (waves w)" using fresh(1) by (auto simp: in_flight_def)
    then have "distinct (map (ws_mutateID \<circ> snd) (waves ?w))" using wv ws(1,2) by (auto simp: waves_ok_def)
    moreover have "distinct (map fst (waves ?w))" using wv new ws(1) by (auto simp: waves_ok_def)
    ultimately show ?thesis unfolding waves_ok_def ws(1) by auto
  qed
  ultimately show ?thesis by (simp add: winv_def)
qed

lemma winv_live:
  "winv A live w \<Longrightarrow> winv A 0 (w\<lparr>subscribedTopics := subscribedTopics w + live, answered := x\<rparr>)"
  by (simp add: winv_defs)

lemma handle_mutate_ok:
  assumes "handle_mutate s m w = (w', None)"
  obtains adds w1 w2 acc where "mt_Adds m = [] \<or> mt_MutateId m \<noteq> 0" "mt_MutateId m = 0 \<or> mt_MutateId m \<notin> in_flight w"
    "collect_adds (mt_Adds m) [] = Inr adds" "apply_removes s (mt_Removes m) w = (w1, None)"
    "apply_adds s (mt_HistoryOnly m) adds w1 no_adds = (w2, acc, None)"
    "(if groupAdds acc \<noteq> [] \<or> welcomeAdds acc \<noteq> [] then (start_wave (mt_MutateId m) acc
        (w2\<lparr>subscribedTopics := subscribedTopics w2 + newlyLive acc, answered := answered w2 @ [mt_MutateId m]\<rparr>), None)
      else send s (catchupCompleteFrame (mt_MutateId m))
        (w2\<lparr>subscribedTopics := subscribedTopics w2 + newlyLive acc, answered := answered w2 @ [mt_MutateId m]\<rparr>)) = (w', None)"
proof -
  from assms obtain adds where g: "mt_Adds m = [] \<or> mt_MutateId m \<noteq> 0" "mt_MutateId m = 0 \<or> mt_MutateId m \<notin> in_flight w"
    and adds: "collect_adds (mt_Adds m) [] = Inr adds"
    and r: "and_then (apply_removes s (mt_Removes m) w) (\<lambda>w1.
       case apply_adds s (mt_HistoryOnly m) adds w1 no_adds of
         (w2, acc, Some e) \<Rightarrow> (w2, Some e)
       | (w2, acc, None) \<Rightarrow>
           let w3 = w2\<lparr>subscribedTopics := subscribedTopics w2 + newlyLive acc, answered := answered w2 @ [mt_MutateId m]\<rparr> in
           if groupAdds acc \<noteq> [] \<or> welcomeAdds acc \<noteq> [] then (start_wave (mt_MutateId m) acc w3, None)
           else send s (catchupCompleteFrame (mt_MutateId m)) w3) = (w', None)"
    unfolding handle_mutate_def in_flight_def by (force split: if_split_asm sum.splits)
  obtain w1 e1 where rm: "apply_removes s (mt_Removes m) w = (w1, e1)" by fastforce
  have e1: "e1 = None" using r rm by (cases e1) (simp_all add: and_then_def)
  obtain w2 acc e2 where a: "apply_adds s (mt_HistoryOnly m) adds w1 no_adds = (w2, acc, e2)"
    by (cases "apply_adds s (mt_HistoryOnly m) adds w1 no_adds")
  have e2: "e2 = None" using r rm e1 a by (cases e2) (simp_all add: and_then_def)
  show thesis using that [OF g adds] rm e1 a e2 r by (simp add: and_then_def Let_def)
qed

lemma winv_handle_mutate:
  assumes inv: "writer_inv w" and run: "handle_mutate s m w = (w', None)"
  shows "writer_inv w'"
proof -
  from handle_mutate_ok [OF run] obtain adds w1 w2 acc where
    g: "mt_Adds m = [] \<or> mt_MutateId m \<noteq> 0" "mt_MutateId m = 0 \<or> mt_MutateId m \<notin> in_flight w"
    and adds: "collect_adds (mt_Adds m) [] = Inr adds" and rm: "apply_removes s (mt_Removes m) w = (w1, None)"
    and a: "apply_adds s (mt_HistoryOnly m) adds w1 no_adds = (w2, acc, None)"
    and last: "(if groupAdds acc \<noteq> [] \<or> welcomeAdds acc \<noteq> [] then (start_wave (mt_MutateId m) acc
        (w2\<lparr>subscribedTopics := subscribedTopics w2 + newlyLive acc, answered := answered w2 @ [mt_MutateId m]\<rparr>), None)
      else send s (catchupCompleteFrame (mt_MutateId m))
        (w2\<lparr>subscribedTopics := subscribedTopics w2 + newlyLive acc, answered := answered w2 @ [mt_MutateId m]\<rparr>)) = (w', None)" .
  let ?w3 = "w2\<lparr>subscribedTopics := subscribedTopics w2 + newlyLive acc, answered := answered w2 @ [mt_MutateId m]\<rparr>"
  have r: "winv {} 0 w1" "in_flight w1 \<subseteq> in_flight w"
    using winv_apply_removes [of 0 w s "mt_Removes m"] inv rm by (auto simp: writer_inv_def)
  have "winv (set (acc_topics acc)) (newlyLive acc) w2 \<and> acc_ok acc \<and> in_flight w2 \<subseteq> in_flight w1"
    using r(1) collect_adds_distinct [OF adds]
    by (intro winv_apply_adds [OF _ _ _ _ a]) (auto simp: no_adds_def acc_topics_def acc_ok_def)
  then have w2: "winv (set (acc_topics acc)) 0 ?w3" "acc_ok acc" "in_flight w2 \<subseteq> in_flight w"
    using winv_live r(2) by auto
  show ?thesis
  proof (cases "groupAdds acc \<noteq> [] \<or> welcomeAdds acc \<noteq> []")
    case True
    have "mt_Adds m \<noteq> []"
    proof
      assume "mt_Adds m = []"
      then have "acc = no_adds" using adds a by simp
      with True show False by (simp add: no_adds_def)
    qed
    then have "mt_MutateId m \<noteq> 0" using g(1) by blast
    moreover have "in_flight ?w3 = in_flight w2" by (simp add: in_flight_def)
    ultimately have "mt_MutateId m \<notin> in_flight ?w3" "mt_MutateId m \<noteq> 0" using g(2) w2(3) by auto
    moreover have "acc_topics acc \<noteq> []" using True w2(2) by (auto simp: acc_ok_def acc_topics_def)
    ultimately show ?thesis using last True winv_start_wave [OF w2(1,2)] by (auto simp: writer_inv_def)
  next
    case False
    then have "acc_topics acc = []" using w2(2) by (simp add: acc_ok_def acc_topics_def)
    moreover have "w' = fst (send s (catchupCompleteFrame (mt_MutateId m)) ?w3)" using last False by simp
    ultimately show ?thesis using w2(1) by (simp add: writer_inv_def)
  qed
qed

section \<open>The loop keeps the invariant\<close>

lemma winv_waves_upd:
  assumes "winv {} 0 w" and "map_of (waves w) i = Some ws" and "ws_owned ws' = ws_owned ws" "ws_topics ws' = ws_topics ws"
    "ws_wire ws' = ws_wire ws" "ws_mutateID ws' = ws_mutateID ws" "0 < ws_scansLeft ws'"
  shows "winv {} 0 (w\<lparr>waves := set_wave i ws' (waves w)\<rparr>)"
proof -
  have "wave_ok w (i, ws)" using assms(1,2) map_of_SomeD by (fastforce simp: winv_def waves_ok_def)
  then have "wave_ok w (i, ws')" using assms(3-) by (simp add: wave_ok_def)
  moreover have "map (ws_mutateID \<circ> snd) (set_wave i ws' (waves w)) = map (ws_mutateID \<circ> snd) (waves w)"
    using assms by (intro map_mutateID_set_wave) (auto simp: winv_def waves_ok_def)
  ultimately have "waves_ok (w\<lparr>waves := set_wave i ws' (waves w)\<rparr>)"
    using assms(1) by (auto simp: winv_def waves_ok_def set_wave_set split: if_splits)
  then show ?thesis using assms(1) by (simp add: winv_def topics_ok_def buffers_ok_def)
qed

lemma winv_batch_frames: "winv {} 0 (fst (batch_frames s b i w)) = winv {} 0 w"
  by (simp add: batch_frames_def Let_def)

lemma batch_frames_waves [simp]: "waves (fst (batch_frames s b i w)) = waves w"
  by (simp add: batch_frames_def Let_def)

text \<open>A verdict after which the writer's state is still meaningful: it goes on, or ended gracefully.\<close>

definition clean :: "verdict \<Rightarrow> bool" where
  "clean v \<longleftrightarrow> v = Continue \<or> v = Return None"

lemma handle_batch_clean:
  assumes "handle_batch s b w = (w', v)" and "clean v"
  shows "cb_err b = None" and "map_of (waves w) (cb_wave b) = None \<Longrightarrow> w' = w \<and> v = Continue"
    and "map_of (waves w) (cb_wave b) = Some ws \<Longrightarrow> \<exists>w1 history w2. batch_frames s b (ws_mutateID ws) w = (w1, history) \<and>
      send s history w1 = (w2, None) \<and> (w', v) = (if cb_done b then scan_done s (cb_wave b) ws w2 else (w2, Continue))"
proof -
  show err: "cb_err b = None" using assms by (auto simp: handle_batch_def clean_def split: if_splits)
  show "map_of (waves w) (cb_wave b) = None \<Longrightarrow> w' = w \<and> v = Continue"
    using assms err by (auto simp: handle_batch_def)
  assume ws: "map_of (waves w) (cb_wave b) = Some ws"
  obtain w1 history where bf: "batch_frames s b (ws_mutateID ws) w = (w1, history)" by fastforce
  obtain w2 e where sd: "send s history w1 = (w2, e)" by fastforce
  have "e = None" using assms err ws bf sd by (cases e) (auto simp: handle_batch_def Let_def or_return_def clean_def)
  then show "\<exists>w1 history w2. batch_frames s b (ws_mutateID ws) w = (w1, history) \<and>
      send s history w1 = (w2, None) \<and> (w', v) = (if cb_done b then scan_done s (cb_wave b) ws w2 else (w2, Continue))"
    using assms(1) err ws bf sd by (cases "cb_done b") (simp_all add: handle_batch_def Let_def)
qed

lemma scan_done_clean:
  assumes "scan_done s i ws w = (w', v)" and "clean v"
  shows "0 < ws_scansLeft ws - 1 \<and> v = Continue \<and>
      w' = w\<lparr>waves := set_wave i (ws\<lparr>ws_scansLeft := ws_scansLeft ws - 1\<rparr>) (waves w)\<rparr> \<or>
    \<not> 0 < ws_scansLeft ws - 1 \<and> completeWave s i (ws\<lparr>ws_scansLeft := ws_scansLeft ws - 1\<rparr>) w = (w', None) \<and>
      v = (if halfClosed w' \<and> waves w' = [] then Return (flushOutcome s) else Continue)"
  using assms by (cases "completeWave s i (ws\<lparr>ws_scansLeft := ws_scansLeft ws - 1\<rparr>) w")
    (auto simp: scan_done_def Let_def or_return_def clean_def split: if_splits option.splits)

lemma batch_sent:
  assumes "writer_inv w" and "map_of (waves w) i = Some ws" and "batch_frames s b (ws_mutateID ws) w = (w1, history)"
    and "send s history w1 = (w2, None)"
  shows "winv {} 0 w2" and "waves w2 = waves w" and "wave_ok w2 (i, ws)"
proof -
  show w2: "winv {} 0 w2" "waves w2 = waves w"
    using assms winv_batch_frames [of s b "ws_mutateID ws" w] winv_send [of "{}" 0 s history w1]
      batch_frames_waves [of s b "ws_mutateID ws" w] send_fields(8) [of s history w1]
    by (simp_all add: writer_inv_def)
  have "(i, ws) \<in> set (waves w2)" using w2(2) assms(2) by (simp add: map_of_SomeD)
  then show "wave_ok w2 (i, ws)" using w2(1) unfolding winv_def waves_ok_def by blast
qed

lemma writer_inv_handle_batch:
  assumes inv: "writer_inv w" and run: "handle_batch s b w = (w', v)" and ok: "clean v"
  shows "writer_inv w'"
proof (cases "map_of (waves w) (cb_wave b)")
  case None
  then show ?thesis using handle_batch_clean(2) [OF run ok] inv by simp
next
  case (Some ws)
  from handle_batch_clean(3) [OF run ok Some] obtain w1 history w2 where
    bf: "batch_frames s b (ws_mutateID ws) w = (w1, history)" "send s history w1 = (w2, None)"
    and v: "(w', v) = (if cb_done b then scan_done s (cb_wave b) ws w2 else (w2, Continue))" by blast
  note w2 = batch_sent [OF inv Some bf]
  let ?ws = "ws\<lparr>ws_scansLeft := ws_scansLeft ws - 1\<rparr>"
  show ?thesis
  proof (cases "cb_done b")
    case False
    then show ?thesis using v w2(1) by (simp add: writer_inv_def)
  next
    case True
    then have "scan_done s (cb_wave b) ws w2 = (w', v)" using v by simp
    from scan_done_clean [OF this ok] show ?thesis
    proof (elim disjE conjE)
      assume "0 < ws_scansLeft ws - 1" "w' = w2\<lparr>waves := set_wave (cb_wave b) ?ws (waves w2)\<rparr>"
      then show ?thesis using winv_waves_upd [OF w2(1), of "cb_wave b" ws ?ws] Some w2(2) by (simp add: writer_inv_def)
    next
      assume c: "completeWave s (cb_wave b) ?ws w2 = (w', None)"
      then show ?thesis
        using completeWave_fields(1) [of ?ws w2 "cb_wave b" "{}" 0 s] winv_settled [OF w2(1), of "cb_wave b"] w2(3)
        by (simp add: wave_ok_def writer_inv_def)
    qed
  qed
qed

lemma waves_ok_pending [simp]: "waves_ok (w\<lparr>pending := p, pendingBytes := n\<rparr>) = waves_ok w"
  by (simp add: waves_ok_def wave_ok_def owners_def)

lemma writer_inv_handle_envelope:
  assumes "writer_inv w" and "handle_envelope s env w = (w', Continue)"
  shows "writer_inv w'"
proof (cases "ContentTopic env \<in> catchingUp w")
  case True
  let ?t = "ContentTopic env"
  have fin: "finite (catchingUp w)"
    using assms(1) finite_subset by (auto simp: writer_inv_def winv_def topics_ok_def)
  have "(\<Sum>t \<in> catchingUp w. buffered (((pending w)(?t := pending w ?t @ [env])) t)) =
      (\<Sum>t \<in> catchingUp w. buffered (pending w t)) + int (length (message_bytes env))"
    using sum.remove [OF fin True, of "\<lambda>t. buffered (pending w t)"]
      sum.remove [OF fin True, of "\<lambda>t. buffered (((pending w)(?t := pending w ?t @ [env])) t)"]
    by (simp add: buffered_def)
  then show ?thesis using assms True
    by (auto simp: handle_envelope_def Let_def writer_inv_def winv_def topics_ok_def buffers_ok_def split: if_splits)
next
  case False
  then show ?thesis using assms
    by (auto simp: handle_envelope_def Let_def writer_inv_def or_return_def split_def split: if_splits option.splits)
qed

lemma writer_inv_handle_tick:
  assumes "writer_inv w" and "handle_tick s now at w = (w', Continue)"
  shows "writer_inv w'"
proof -
  have upd: "winv {} 0 (w\<lparr>pingNonce := n\<rparr>) = winv {} 0 w" for w :: writer and n by (simp add: winv_defs)
  have upd': "winv {} 0 (w\<lparr>awaitingPong := x, pingSentAt := y\<rparr>) = winv {} 0 w" for w :: writer and x y
    by (simp add: winv_defs)
  show ?thesis using assms
    by (auto simp: handle_tick_def Let_def writer_inv_def or_return_def upd upd' split: if_splits option.splits)
qed

lemma writer_inv_handle:
  assumes inv: "writer_inv w" and run: "handle s ev w = (w', v)" and ok: "clean v"
  shows "writer_inv w'"
proof (cases ev)
  case (EvRequest req)
  have send: "writer_inv (fst (send s fl w))" for fl using inv by (simp add: writer_inv_def)
  have pong: "writer_inv (w\<lparr>awaitingPong := False\<rparr>)" using inv by (simp add: writer_inv_def winv_defs)
  show ?thesis
  proof (cases req)
    case (ReqMutate m)
    obtain w1 e where m: "handle_mutate s m w = (w1, e)" by fastforce
    show ?thesis
    proof (cases e)
      case None
      then show ?thesis using run EvRequest ReqMutate m inv winv_handle_mutate [OF inv, of s m w1]
        by (auto simp: handle_def handle_request_def or_return_def split: if_splits)
    next
      case (Some x)
      then show ?thesis using run ok EvRequest ReqMutate m inv
        by (auto simp: handle_def handle_request_def or_return_def clean_def split: if_splits)
    qed
  qed (use run ok EvRequest inv send pong in
      \<open>auto simp: handle_def handle_request_def or_return_def clean_def split: if_splits option.splits\<close>)
next
  case (EvBatch b)
  then show ?thesis using writer_inv_handle_batch [OF inv] run ok by (simp add: handle_def)
next
  case (EvEnvelope env)
  then have "handle_envelope s env w = (w', v)" using run by (simp add: handle_def)
  moreover from this have "v = Continue"
    using ok by (auto simp: handle_envelope_def Let_def or_return_def clean_def split_def split: if_splits option.splits)
  ultimately show ?thesis using writer_inv_handle_envelope [OF inv] by simp
next
  case (EvTick now at)
  then have "handle_tick s now at w = (w', v)" using run by (simp add: handle_def)
  moreover from this have "v = Continue"
    using ok by (auto simp: handle_tick_def Let_def or_return_def clean_def split_def split: if_splits option.splits)
  ultimately show ?thesis using writer_inv_handle_tick [OF inv] by simp
next
  case (EvRequestClosed recvErr)
  have "writer_inv (w\<lparr>halfClosed := True, awaitingPong := False\<rparr>)" using inv by (simp add: writer_inv_def winv_defs)
  then show ?thesis using EvRequestClosed run inv by (auto simp: handle_def split: if_splits)
qed (use run inv in \<open>auto simp: handle_def\<close>)

lemma writer_inv_initial: "writer_inv (initial_writer\<lparr>lastActivity := now\<rparr>)"
  by (simp add: writer_inv_def winv_defs initial_writer_def)

text \<open>An invariant of the handler is an invariant of the stream.\<close>

lemma run_invariant:
  assumes step: "\<And>ev w w' v. I w \<Longrightarrow> handle s ev w = (w', v) \<Longrightarrow> clean v \<Longrightarrow> I w'"
    and "I w" and "run s evs w = (w', v)" and "clean v"
  shows "I w'"
  using assms(2,3)
proof (induction evs arbitrary: w)
  case (Cons ev evs)
  obtain w1 v1 where h: "handle s ev w = (w1, v1)" by fastforce
  show ?case
  proof (cases v1)
    case Continue
    then have "I w1" using step [OF Cons.prems(1) h] by (simp add: clean_def)
    then show ?thesis using Cons.IH [of w1] Cons.prems(2) h Continue by simp
  next
    case (Return e)
    then show ?thesis using step [OF Cons.prems(1) h] Cons.prems(2) h assms(4) by simp
  qed
qed (use assms in simp)

lemma stream_invariant:
  assumes step: "\<And>ev w w' v. I w \<Longrightarrow> handle s ev w = (w', v) \<Longrightarrow> clean v \<Longrightarrow> I w'"
    and init: "\<And>now w. send s (startedFrame s) (initial_writer\<lparr>lastActivity := now\<rparr>) = (w, None) \<Longrightarrow> I w"
    and run: "stream s evs now = (w', v)" and ok: "clean v"
  shows "I w'"
proof -
  obtain w1 e where s: "send s (startedFrame s) (initial_writer\<lparr>lastActivity := now\<rparr>) = (w1, e)" by fastforce
  have e: "e = None" using run ok s by (cases e) (auto simp: stream_def or_return_def clean_def)
  then have r: "run s evs w1 = (w', v)" using run s by (simp add: stream_def or_return_def)
  have "I w1" using init s e by blast
  with step show ?thesis using r ok by (rule run_invariant [where I = I and s = s])
qed

section \<open>Every Mutate is answered once\<close>

definition completes :: "frame list \<Rightarrow> u64 list" where
  "completes = List.map_filter (\<lambda>f. case f of CatchupComplete i \<Rightarrow> Some i | _ \<Rightarrow> None)"

definition flying :: "writer \<Rightarrow> u64 list" where
  "flying w = map (ws_mutateID \<circ> snd) (waves w)"

definition answers :: "writer \<Rightarrow> bool" where
  "answers w \<longleftrightarrow> dropped w \<or> mset (answered w) = mset (completes (sent w)) + mset (flying w)"

lemma completes_simps [simp]:
  "completes [] = []" "completes (xs @ ys) = completes xs @ completes ys"
  "completes (catchupCompleteFrame i) = [i]" "completes [TopicsLive m] = []" "completes [PongFrame n] = []"
  "completes [PingFrame n] = []" "completes (startedFrame s) = []" "completes [CatchupComplete i] = [i]"
  by (simp_all add: completes_def List.map_filter_def catchupCompleteFrame_def startedFrame_def)

lemma completes_frames [simp]:
  "completes (snd (group_frames s ms i w)) = []" "completes (snd (welcome_frames s wms i w)) = []"
  "completes (snd (batch_frames s b i w)) = []"
  by (auto simp: completes_def List.map_filter_def group_frames_def welcome_frames_def buildGroupFrames_def
      buildWelcomeFrames_def batch_frames_def Let_def split: prod.splits)

lemma send_dropped: "dropped w \<Longrightarrow> dropped (fst (send s fl w))"
  by (simp add: send_def Let_def split: send_outcome.splits)

lemma send_sent:
  "snd (send s fl w) = None \<Longrightarrow> dropped (fst (send s fl w)) \<or>
     sent (fst (send s fl w)) = sent w @ fl \<and> dropped (fst (send s fl w)) = dropped w"
  by (cases "fl = []"; cases "sendOutcome s (sends w)") (simp_all add: send_def Let_def)

lemma flying_send [simp]: "flying (fst (send s fl w)) = flying w"
  by (simp add: flying_def)

lemma answers_send:
  assumes "snd (send s fl w) = None"
    and "dropped w \<or> mset (answered w) = mset (completes (sent w)) + mset (completes fl) + mset (flying w)"
  shows "answers (fst (send s fl w))"
  using send_sent [OF assms(1)] send_dropped [of w s fl] assms by (auto simp: answers_def)

lemma answers_send_other: "snd (send s fl w) = None \<Longrightarrow> completes fl = [] \<Longrightarrow> answers w \<Longrightarrow> answers (fst (send s fl w))"
  by (rule answers_send) (auto simp: answers_def)

lemma answers_dropTopic:
  assumes ok: "waves_ok w" and none: "snd (dropTopic s t w) = None" and ans: "answers w"
  shows "answers (fst (dropTopic s t w))"
proof (cases "topicWave w t")
  case None
  then show ?thesis using ans by (simp add: dropTopic_eq answers_def flying_def)
next
  case (Some i)
  from waves_okD [OF ok Some] obtain ws where ws: "map_of (waves w) i = Some ws" .
  have d: "distinct (map fst (waves w))" using ok by (simp add: waves_ok_def)
  show ?thesis
  proof (cases "0 < ws_owned ws - 1")
    case True
    then show ?thesis using Some ws ans map_mutateID_set_wave [OF ws d]
      by (simp add: dropTopic_eq answers_def flying_def)
  next
    case False
    let ?w = "(forget t w)\<lparr>waves := delete_wave i (waves w)\<rparr>"
    have eq: "dropTopic s t w = send s (catchupCompleteFrame (ws_mutateID ws)) ?w" using False Some ws by (simp add: dropTopic_eq)
    have "mset (flying w) = add_mset (ws_mutateID ws) (mset (flying ?w))"
      using mset_delete_wave [OF ws d, of "ws_mutateID \<circ> snd"] by (simp add: flying_def)
    then show ?thesis using none ans unfolding eq by (intro answers_send) (auto simp: answers_def)
  qed
qed

lemma answers_completeWave:
  assumes w: "length (ws_wire ws) = length (ws_topics ws)" "distinct (ws_topics ws)" "owners w i \<subseteq> set (ws_topics ws)"
    and m: "map_of (waves w) i = Some ws'" "distinct (map fst (waves w))" "ws_mutateID ws' = ws_mutateID ws"
    and none: "snd (completeWave s i ws w) = None" and ans: "answers w"
  shows "answers (fst (completeWave s i ws w))"
proof -
  let ?w2 = "(settled (owners w i) w)\<lparr>waves := delete_wave i (waves w)\<rparr>"
  let ?g = "group_frames s (sort_key GetId (parse_groups s (gated (\<lambda>t. \<not> IsMLSV1Welcome t) w i (ws_topics ws)))) (ws_mutateID ws) ?w2"
  let ?h = "welcome_frames s (sort_key welcomeID (parse_welcomes s (gated IsMLSV1Welcome w i (ws_topics ws)))) (ws_mutateID ws) (fst ?g)"
  let ?m = "map snd (filter (\<lambda>(t, x). topicWave w t = Some i) (zip (ws_topics ws) (ws_wire ws)))"
  let ?fl = "snd ?g @ snd ?h @ (if ?m \<noteq> [] then [TopicsLive ?m] else []) @ catchupCompleteFrame (ws_mutateID ws)"
  have eq: "completeWave s i ws w = send s ?fl (fst ?h)"
    unfolding completeWave_eq [OF w] by (simp add: Let_def split_def)
  have "mset (flying w) = add_mset (ws_mutateID ws) (mset (flying (fst ?h)))"
    using mset_delete_wave [OF m(1,2), of "ws_mutateID \<circ> snd"] m(3) by (simp add: flying_def)
  moreover have "mset (completes ?fl) = {#ws_mutateID ws#}" by simp
  ultimately show ?thesis using none ans unfolding eq
    by (intro answers_send) (auto simp: answers_def)
qed

lemma answers_apply_removes:
  "winv {} live w \<Longrightarrow> snd (apply_removes s wires w) = None \<Longrightarrow> answers w \<Longrightarrow> answers (fst (apply_removes s wires w))"
proof (induction wires arbitrary: w)
  case (Cons wire wires)
  then obtain kind i where sp: "splitTopic wire = Inr (kind, i)" by (cases "splitTopic wire") auto
  let ?d = "dropTopic s (buildMLSTopic kind i) w"
  have none: "snd ?d = None" using Cons.prems(2) sp by (cases "snd ?d") (auto simp: and_then_def)
  have "answers (fst ?d)" using Cons.prems none by (intro answers_dropTopic) (auto simp: winv_def)
  moreover have "winv {} live (fst ?d)" using Cons.prems(1) by (intro winv_dropTopic) auto
  ultimately show ?case using Cons.IH Cons.prems(2) sp none by (simp add: and_then_def)
qed simp

lemma answers_apply_adds:
  assumes "winv (set (acc_topics acc)) (newlyLive acc) w" and "acc_ok acc" and "distinct (map fst adds)"
    and "fst ` set adds \<inter> set (acc_topics acc) = {}" and "apply_adds s h adds w acc = (w', acc', None)" and "answers w"
  shows "answers w'"
  using assms
proof (induction adds arbitrary: w acc)
  case (Cons x adds)
  obtain t a where x: "x = (t, a)" by (cases x)
  have t: "t \<notin> set (acc_topics acc)" "t \<notin> fst ` set adds" using Cons.prems(3,4) x by auto
  have reg: ?case if w1: "winv (set (acc_topics acc)) (newlyLive acc) w1" "t \<notin> subscribed w1" "topicWave w1 t = None"
    and ans: "answers w1"
    and run: "register_add h t a w1 acc = (w2, acc2)" "apply_adds s h adds w2 acc2 = (w', acc', None)" for w1 w2 acc2
  proof -
    note r = winv_register_add [OF w1(1) Cons.prems(2) t(1) w1(2,3) run(1)]
    have "distinct (map fst adds)" "fst ` set adds \<inter> set (acc_topics acc2) = {}" "answers w2"
      using Cons.prems(3,4) x t r ans by (auto simp: answers_def flying_def)
    then show ?thesis using Cons.IH [OF r(1,2) _ _ run(2)] by blast
  qed
  show ?case
  proof (cases "t \<in> subscribed w \<or> t \<in> catchingUp w")
    case live: True
    show ?thesis
    proof (cases "h \<or> highWaterMarks w t \<le> ar_cursor a")
      case True
      then show ?thesis using live Cons x by (auto split: if_splits)
    next
      case False
      let ?d = "dropTopic s t w"
      have none: "snd ?d = None"
        using Cons.prems(5) x live False by (cases "snd ?d") (auto split: prod.splits)
      have d: "winv (set (acc_topics acc)) (newlyLive acc) (fst ?d)" "answers (fst ?d)"
        using Cons.prems(1,6) t(1) none winv_dropTopic answers_dropTopic winv_def by blast+
      obtain w2 acc2 where "register_add h t a (fst ?d) acc = (w2, acc2)" by (cases "register_add h t a (fst ?d) acc")
      with none False live Cons.prems(5) x show ?thesis
        by (intro reg [OF d(1) _ _ d(2)]) (auto simp: dropTopic_fields split: prod.splits)
    qed
  next
    case False
    show ?thesis
    proof (cases "topicWave w t")
      case None
      obtain w2 acc2 where "register_add h t a w acc = (w2, acc2)" by (cases "register_add h t a w acc")
      with None False Cons.prems(5) x show ?thesis by (intro reg [OF Cons.prems(1) _ None Cons.prems(6)]) auto
    next
      case (Some i)
      then show ?thesis using False Cons.prems x by auto
    qed
  qed
qed auto

lemma answers_handle_mutate:
  assumes inv: "writer_inv w" and run: "handle_mutate s m w = (w', None)" and ans: "answers w"
  shows "answers w'"
proof -
  from handle_mutate_ok [OF run] obtain adds w1 w2 acc where
    adds: "collect_adds (mt_Adds m) [] = Inr adds" and rm: "apply_removes s (mt_Removes m) w = (w1, None)"
    and a: "apply_adds s (mt_HistoryOnly m) adds w1 no_adds = (w2, acc, None)"
    and last: "(if groupAdds acc \<noteq> [] \<or> welcomeAdds acc \<noteq> [] then (start_wave (mt_MutateId m) acc
        (w2\<lparr>subscribedTopics := subscribedTopics w2 + newlyLive acc, answered := answered w2 @ [mt_MutateId m]\<rparr>), None)
      else send s (catchupCompleteFrame (mt_MutateId m))
        (w2\<lparr>subscribedTopics := subscribedTopics w2 + newlyLive acc, answered := answered w2 @ [mt_MutateId m]\<rparr>)) = (w', None)" .
  let ?w3 = "w2\<lparr>subscribedTopics := subscribedTopics w2 + newlyLive acc, answered := answered w2 @ [mt_MutateId m]\<rparr>"
  have r: "winv {} 0 w1" "answers w1"
    using winv_apply_removes [of 0 w s "mt_Removes m"] answers_apply_removes [of 0 w s "mt_Removes m"] inv ans rm
    by (auto simp: writer_inv_def)
  have "answers w2"
    using r collect_adds_distinct [OF adds]
    by (intro answers_apply_adds [OF _ _ _ _ a]) (auto simp: no_adds_def acc_topics_def acc_ok_def)
  then have w3: "dropped ?w3 \<or> mset (answered ?w3) = mset (completes (sent ?w3)) + {#mt_MutateId m#} + mset (flying ?w3)"
    by (auto simp: answers_def flying_def)
  show ?thesis
  proof (cases "groupAdds acc \<noteq> [] \<or> welcomeAdds acc \<noteq> []")
    case True
    then have "w' = start_wave (mt_MutateId m) acc ?w3" using last by simp
    moreover have "flying (start_wave (mt_MutateId m) acc ?w3) = flying ?w3 @ [mt_MutateId m]"
      by (simp add: flying_def start_wave_def Let_def)
    ultimately show ?thesis using w3 by (auto simp: answers_def start_wave_def Let_def)
  next
    case False
    let ?r = "send s (catchupCompleteFrame (mt_MutateId m)) ?w3"
    have "?r = (w', None)" using last False by simp
    then have "snd ?r = None" "w' = fst ?r" by simp_all
    with answers_send [of s "catchupCompleteFrame (mt_MutateId m)" ?w3] w3 show ?thesis by simp
  qed
qed

lemma answers_frames [simp]:
  "answers (fst (group_frames s ms i w)) = answers w" "answers (fst (welcome_frames s wms i w)) = answers w"
  "answers (fst (batch_frames s b i w)) = answers w"
  by (simp_all add: answers_def flying_def batch_frames_def Let_def)

lemma answers_handle_batch:
  assumes inv: "writer_inv w" and run: "handle_batch s b w = (w', v)" and ok: "clean v" and ans: "answers w"
  shows "answers w'"
proof (cases "map_of (waves w) (cb_wave b)")
  case None
  then show ?thesis using handle_batch_clean(2) [OF run ok] ans by simp
next
  case (Some ws)
  from handle_batch_clean(3) [OF run ok Some] obtain w1 history w2 where
    bf: "batch_frames s b (ws_mutateID ws) w = (w1, history)" "send s history w1 = (w2, None)"
    and v: "(w', v) = (if cb_done b then scan_done s (cb_wave b) ws w2 else (w2, Continue))" by blast
  note w2 = batch_sent [OF inv Some bf]
  have d: "distinct (map fst (waves w2))" using w2(1) by (simp add: winv_def waves_ok_def)
  have a2: "answers w2"
    using answers_send_other [of s history w1] bf ans answers_frames(3) [of s b "ws_mutateID ws" w]
      completes_frames(3) [of s b "ws_mutateID ws" w] by simp
  let ?ws = "ws\<lparr>ws_scansLeft := ws_scansLeft ws - 1\<rparr>"
  show ?thesis
  proof (cases "cb_done b")
    case False
    then show ?thesis using v a2 by simp
  next
    case True
    then have "scan_done s (cb_wave b) ws w2 = (w', v)" using v by simp
    from scan_done_clean [OF this ok] show ?thesis
    proof (elim disjE conjE)
      assume "w' = w2\<lparr>waves := set_wave (cb_wave b) ?ws (waves w2)\<rparr>"
      then show ?thesis using a2 map_mutateID_set_wave [OF _ d, of "cb_wave b" ws ?ws] Some w2(2)
        by (simp add: answers_def flying_def)
    next
      assume c: "completeWave s (cb_wave b) ?ws w2 = (w', None)"
      have "answers (fst (completeWave s (cb_wave b) ?ws w2))"
        using w2 Some d c a2 by (intro answers_completeWave [where ws' = ws]) (auto simp: wave_ok_def)
      then show ?thesis using c by simp
    qed
  qed
qed

lemma answers_cong:
  "answered w' = answered w \<Longrightarrow> sent w' = sent w \<Longrightarrow> waves w' = waves w \<Longrightarrow> dropped w' = dropped w \<Longrightarrow> answers w' = answers w"
  by (simp add: answers_def flying_def)

lemma answers_handle:
  assumes inv: "writer_inv w" and run: "handle s ev w = (w', v)" and ok: "clean v" and ans: "answers w"
  shows "answers w'"
proof (cases ev)
  case (EvRequest req)
  have send: "answers (fst (send s [PongFrame n] w))" if "snd (send s [PongFrame n] w) = None" for n
    using that ans by (intro answers_send_other) auto
  have pong: "answers (w\<lparr>awaitingPong := False\<rparr>)" using ans by (simp add: answers_def flying_def)
  show ?thesis
  proof (cases req)
    case (ReqMutate m)
    obtain w1 e where m: "handle_mutate s m w = (w1, e)" by fastforce
    show ?thesis
    proof (cases e)
      case None
      then show ?thesis using run EvRequest ReqMutate m ans answers_handle_mutate [OF inv, of s m w1]
        by (auto simp: handle_def handle_request_def or_return_def split: if_splits)
    next
      case (Some x)
      then show ?thesis using run ok EvRequest ReqMutate m ans
        by (auto simp: handle_def handle_request_def or_return_def clean_def split: if_splits)
    qed
  qed (use run ok EvRequest ans send pong in
      \<open>auto simp: handle_def handle_request_def or_return_def clean_def split: if_splits option.splits\<close>)
next
  case (EvBatch b)
  then show ?thesis using answers_handle_batch [OF inv] run ok ans by (simp add: handle_def)
next
  case (EvEnvelope env)
  have g: "answers (fst (send s (snd (group_frames s ms 0 w)) (fst (group_frames s ms 0 w))))"
    if "snd (send s (snd (group_frames s ms 0 w)) (fst (group_frames s ms 0 w))) = None" for ms
    using that ans by (intro answers_send_other) auto
  have h: "answers (fst (send s (snd (welcome_frames s ms 0 w)) (fst (welcome_frames s ms 0 w))))"
    if "snd (send s (snd (welcome_frames s ms 0 w)) (fst (welcome_frames s ms 0 w))) = None" for ms
    using that ans by (intro answers_send_other) auto
  have p: "answers (w\<lparr>pending := x, pendingBytes := n\<rparr>)" for x n using ans by (simp add: answers_def flying_def)
  show ?thesis using run ok EvEnvelope g h p
    by (auto simp: handle_def handle_envelope_def Let_def or_return_def clean_def split_def split: if_splits option.splits)
next
  case (EvTick now at)
  have "answers (w\<lparr>pingNonce := n\<rparr>)" for n using ans by (simp add: answers_def flying_def)
  then have p: "answers (fst (send s [PingFrame n] (w\<lparr>pingNonce := n\<rparr>)))"
    if "snd (send s [PingFrame n] (w\<lparr>pingNonce := n\<rparr>)) = None" for n
    using that by (intro answers_send_other) auto
  have q: "answers (x\<lparr>awaitingPong := y, pingSentAt := z\<rparr>) = answers x" for x :: writer and y z
    by (simp add: answers_def flying_def)
  show ?thesis using run ok EvTick p ans
    by (auto simp: handle_def handle_tick_def Let_def or_return_def clean_def q split: if_splits option.splits)
next
  case (EvRequestClosed recvErr)
  have "answers (w\<lparr>halfClosed := True, awaitingPong := False\<rparr>)" using ans by (simp add: answers_def flying_def)
  then show ?thesis using EvRequestClosed run ans by (auto simp: handle_def split: if_splits)
qed (use run ans in \<open>auto simp: handle_def\<close>)

end
