(* ===== verification/Subscribe_Stream.thy ===== *)
theory Subscribe_Stream
  imports Subscribe_Invariants
begin

text \<open>
  Properties of whole Subscribe streams: the bookkeeping of the writer in every state of every stream,
  the answers to the client's Mutates, the keepalive, and the finding about envelopes that are still
  queued when a topic is removed.
\<close>

section \<open>The buffer limit\<close>

lemma buffered_nonneg [simp]: "0 \<le> buffered envs"
  by (induction envs) (simp_all add: buffered_def)

lemma pendingBytes_dropTopic: "pendingBytes (fst (dropTopic s t w)) \<le> pendingBytes w"
  by (simp add: dropTopic_fields forget_def)

lemma pendingBytes_apply_removes: "pendingBytes (fst (apply_removes s wires w)) \<le> pendingBytes w"
proof (induction wires arbitrary: w)
  case (Cons wire wires)
  show ?case
  proof (cases "splitTopic wire")
    case (Inr p)
    obtain kind i where p: "p = (kind, i)" by (cases p)
    let ?d = "dropTopic s (buildMLSTopic kind i) w"
    have "pendingBytes (fst (apply_removes s wires (fst ?d))) \<le> pendingBytes w"
      using Cons.IH [of "fst ?d"] pendingBytes_dropTopic [of s "buildMLSTopic kind i" w] by linarith
    then show ?thesis using Inr p pendingBytes_dropTopic [of s "buildMLSTopic kind i" w]
      by (cases "snd ?d") (auto simp: and_then_def)
  qed simp
qed simp

lemma pendingBytes_register [simp]: "pendingBytes (fst (register_add h t a w acc)) = pendingBytes w"
  by (simp add: register_add_def Let_def)

lemma pendingBytes_apply_adds: "pendingBytes (fst (apply_adds s h adds w acc)) \<le> pendingBytes w"
proof (induction adds arbitrary: w acc)
  case (Cons x adds)
  obtain t a where x: "x = (t, a)" by (cases x)
  obtain w1 e where d: "dropTopic s t w = (w1, e)" by fastforce
  have le: "pendingBytes w1 \<le> pendingBytes w" using pendingBytes_dropTopic [of s t w] d by simp
  obtain w2 acc2 where r: "register_add h t a w acc = (w2, acc2)" by fastforce
  obtain w3 acc3 where r1: "register_add h t a w1 acc = (w3, acc3)" by fastforce
  have "pendingBytes w2 = pendingBytes w" "pendingBytes w3 = pendingBytes w1"
    using pendingBytes_register [of h t a w acc] pendingBytes_register [of h t a w1 acc] r r1 by simp_all
  then have "pendingBytes (fst (apply_adds s h adds w2 acc2)) \<le> pendingBytes w"
    "pendingBytes (fst (apply_adds s h adds w3 acc3)) \<le> pendingBytes w"
    "pendingBytes (fst (apply_adds s h adds w acc)) \<le> pendingBytes w"
    using Cons.IH [of w2 acc2] Cons.IH [of w3 acc3] Cons.IH [of w acc] le by linarith+
  then show ?case using x d r r1 le by (cases e; cases h) simp_all
qed simp

lemma pendingBytes_handle_mutate:
  assumes "handle_mutate s m w = (w', None)"
  shows "pendingBytes w' \<le> pendingBytes w"
proof -
  from handle_mutate_ok [OF assms] obtain adds w1 w2 acc where
    rm: "apply_removes s (mt_Removes m) w = (w1, None)"
    and a: "apply_adds s (mt_HistoryOnly m) adds w1 no_adds = (w2, acc, None)"
    and last: "(if groupAdds acc \<noteq> [] \<or> welcomeAdds acc \<noteq> [] then (start_wave (mt_MutateId m) acc
        (w2\<lparr>subscribedTopics := subscribedTopics w2 + newlyLive acc, answered := answered w2 @ [mt_MutateId m]\<rparr>), None)
      else send s (catchupCompleteFrame (mt_MutateId m))
        (w2\<lparr>subscribedTopics := subscribedTopics w2 + newlyLive acc, answered := answered w2 @ [mt_MutateId m]\<rparr>)) = (w', None)" .
  let ?w3 = "w2\<lparr>subscribedTopics := subscribedTopics w2 + newlyLive acc, answered := answered w2 @ [mt_MutateId m]\<rparr>"
  have "w' = start_wave (mt_MutateId m) acc ?w3 \<or> w' = fst (send s (catchupCompleteFrame (mt_MutateId m)) ?w3)"
    using last by (auto split: if_splits)
  then have "pendingBytes w' = pendingBytes w2" by (auto simp: start_wave_def Let_def)
  also have "\<dots> \<le> pendingBytes w1" using pendingBytes_apply_adds [of s "mt_HistoryOnly m" adds w1 no_adds] a by simp
  also have "\<dots> \<le> pendingBytes w" using pendingBytes_apply_removes [of s "mt_Removes m" w] rm by simp
  finally show ?thesis .
qed

lemma pendingBytes_handle_batch:
  assumes inv: "writer_inv w" and run: "handle_batch s b w = (w', v)" and ok: "clean v"
  shows "pendingBytes w' \<le> pendingBytes w"
proof (cases "map_of (waves w) (cb_wave b)")
  case None
  then show ?thesis using handle_batch_clean(2) [OF run ok] by simp
next
  case (Some ws)
  from handle_batch_clean(3) [OF run ok Some] obtain w1 history w2 where
    bf: "batch_frames s b (ws_mutateID ws) w = (w1, history)" "send s history w1 = (w2, None)"
    and v: "(w', v) = (if cb_done b then scan_done s (cb_wave b) ws w2 else (w2, Continue))" by blast
  note w2 = batch_sent [OF inv Some bf]
  have "pendingBytes w1 = pendingBytes w" using bf(1) frames_fields(17,18)
    by (auto simp: batch_frames_def Let_def dest!: arg_cong [where f = fst] split: if_splits)
  then have p2: "pendingBytes w2 = pendingBytes w" using bf(2) send_fields(5) [of s history w1] by simp
  let ?ws = "ws\<lparr>ws_scansLeft := ws_scansLeft ws - 1\<rparr>"
  show ?thesis
  proof (cases "cb_done b")
    case True
    then have "scan_done s (cb_wave b) ws w2 = (w', v)" using v by simp
    from scan_done_clean [OF this ok] show ?thesis
    proof (elim disjE conjE)
      assume c: "completeWave s (cb_wave b) ?ws w2 = (w', None)"
      have "pendingBytes w' = pendingBytes (settled (owners w2 (cb_wave b)) w2)"
        using completeWave_fields(5) [of ?ws w2 "cb_wave b" s] w2(3) c by (simp add: wave_ok_def)
      then show ?thesis using p2 sum_nonneg [of "owners w2 (cb_wave b) \<inter> catchingUp w2" "\<lambda>t. buffered (pending w2 t)"]
        by (simp add: settled_def)
    qed (use p2 in simp)
  qed (use v p2 in simp)
qed

lemma pendingBytes_handle:
  assumes inv: "writer_inv w" and run: "handle s ev w = (w', v)" and ok: "clean v"
    and le: "pendingBytes w \<le> maxPendingBytes s"
  shows "pendingBytes w' \<le> maxPendingBytes s"
proof (cases ev)
  case (EvRequest req)
  show ?thesis
  proof (cases req)
    case (ReqMutate m)
    obtain w1 e where m: "handle_mutate s m w = (w1, e)" by fastforce
    show ?thesis
      using run ok EvRequest ReqMutate m le pendingBytes_handle_mutate [of s m w w1]
      by (cases e) (auto simp: handle_def handle_request_def or_return_def clean_def split: if_splits)
  qed (use run ok EvRequest le in
      \<open>auto simp: handle_def handle_request_def or_return_def clean_def split: if_splits option.splits\<close>)
next
  case (EvBatch b)
  then show ?thesis using pendingBytes_handle_batch [OF inv] run ok le by (force simp: handle_def)
next
  case (EvEnvelope env)
  then show ?thesis using run ok le
    by (auto simp: handle_def handle_envelope_def Let_def or_return_def clean_def split_def split: if_splits option.splits)
next
  case (EvTick now at)
  then show ?thesis using run ok le
    by (auto simp: handle_def handle_tick_def Let_def or_return_def clean_def split: if_splits option.splits)
qed (use run le in \<open>auto simp: handle_def split: if_splits\<close>)

section \<open>Streams\<close>

definition stream_ok :: "sub_cfg \<Rightarrow> writer \<Rightarrow> bool" where
  "stream_ok s w \<longleftrightarrow> writer_inv w \<and> answers w \<and> pendingBytes w \<le> maxPendingBytes s"

lemma stream_ok_stream:
  assumes "stream s evs now = (w, v)" and "clean v" and "0 \<le> maxPendingBytes s"
  shows "stream_ok s w"
proof (rule stream_invariant [OF _ _ assms(1,2)])
  fix ev w w' v assume ok: "stream_ok s w" and run: "handle s ev w = (w', v)" and c: "clean v"
  have inv: "writer_inv w" and ans: "answers w" and le: "pendingBytes w \<le> maxPendingBytes s"
    using ok by (simp_all add: stream_ok_def)
  show "stream_ok s w'"
    using writer_inv_handle [OF inv run c] answers_handle [OF inv run c ans] pendingBytes_handle [OF inv run c le]
    by (simp add: stream_ok_def)
next
  fix now w assume s: "send s (startedFrame s) (initial_writer\<lparr>lastActivity := now\<rparr>) = (w, None)"
  let ?w = "initial_writer\<lparr>lastActivity := now\<rparr>"
  have "answers ?w" by (simp add: answers_def flying_def initial_writer_def)
  then have "answers (fst (send s (startedFrame s) ?w))" using s by (intro answers_send_other) simp_all
  moreover have "writer_inv (fst (send s (startedFrame s) ?w))" using writer_inv_initial [of now] by (simp add: writer_inv_def)
  moreover have "pendingBytes (fst (send s (startedFrame s) ?w)) = 0" by (simp add: initial_writer_def)
  ultimately show "stream_ok s w" using s assms(3) by (simp add: stream_ok_def)
qed

text \<open>
  C14. The bookkeeping of a Subscribe stream is exact in every state it reaches, whatever the client, the
  fetchers, the dispatcher and the sender do: the gauge is the number of live topics, the dispatcher
  subscription holds exactly those, the byte counter is the size of the gated buffers and within the
  configured limit, a live topic is gated exactly while a wave owns it, and each wave in flight has a
  non-zero id of its own and counts exactly the topics it still owns, of which there is at least one.
\<close>

theorem stream_bookkeeping:
  assumes "stream s evs now = (w, v)" and "v = Continue \<or> v = Return None" and "0 \<le> maxPendingBytes s"
  shows "subscribedTopics w = int (card (subscribed w)) \<and> sub_topics w = subscribed w \<and>
    pendingBytes w = (\<Sum>t \<in> catchingUp w. buffered (pending w t)) \<and> pendingBytes w \<le> maxPendingBytes s \<and>
    (\<forall>t \<in> subscribed w. t \<in> catchingUp w \<longleftrightarrow> topicWave w t \<noteq> None) \<and> catchingUp w \<subseteq> subscribed w \<and>
    distinct (map (ws_mutateID \<circ> snd) (waves w)) \<and>
    (\<forall>(i, ws) \<in> set (waves w). ws_mutateID ws \<noteq> 0 \<and> 0 < ws_owned ws \<and> ws_owned ws = int (card {t. topicWave w t = Some i}))"
proof -
  have ok: "stream_ok s w" using assms by (intro stream_ok_stream) (auto simp: clean_def)
  then have top: "topics_ok {} 0 w" and buf: "buffers_ok w" and wv: "waves_ok w"
    by (simp_all add: stream_ok_def writer_inv_def winv_def)
  have "distinct (map (ws_mutateID \<circ> snd) (waves w))" using wv by (simp add: waves_ok_def)
  moreover have "\<forall>(i, ws) \<in> set (waves w). ws_mutateID ws \<noteq> 0 \<and> 0 < ws_owned ws \<and>
      ws_owned ws = int (card {t. topicWave w t = Some i})"
  proof
    fix x assume x: "x \<in> set (waves w)"
    then have "wave_ok w x" using wv by (simp add: waves_ok_def)
    then show "case x of (i, ws) \<Rightarrow> ws_mutateID ws \<noteq> 0 \<and> 0 < ws_owned ws \<and> ws_owned ws = int (card {t. topicWave w t = Some i})"
      using owners_finite [of w x] by (cases x) (auto simp: wave_ok_def owners_def card_gt_0_iff)
  qed
  ultimately show ?thesis using top buf ok by (auto simp: topics_ok_def buffers_ok_def stream_ok_def)
qed

definition test_cfg :: sub_cfg where
  "test_cfg = \<lparr>pingInterval = 30000000000, pongDeadline = 30000000000, maxPendingBytes = 100, maxFrameBytes = 100,
     maxMutateAdds = 10, unmarshalGroup = (\<lambda>b. case b of [g, i, d] \<Rightarrow> Inr (Some \<lparr>gm_Id = ucast i, gm_CreatedNs = 0,
       gm_GroupId = [g], gm_Data = [d], gm_SenderHmac = [], gm_ShouldPush = False, gm_IsCommit = False\<rparr>)
       | _ \<Rightarrow> Inl (Err ''parse'')),
     unmarshalWelcome = (\<lambda>_. Inl (Err ''parse'')), sendOutcome = (\<lambda>_. Accepted 0), flushOutcome = None\<rparr>"

definition test_group_msg :: "byte \<Rightarrow> u64 \<Rightarrow> GroupMessage" where
  "test_group_msg g i = Some \<lparr>gm_Id = i, gm_CreatedNs = 0, gm_GroupId = [g], gm_Data = [1], gm_SenderHmac = [],
     gm_ShouldPush = False, gm_IsCommit = False\<rparr>"

definition test_mutate :: "u64 \<Rightarrow> (bytes \<times> u64) list \<Rightarrow> bytes list \<Rightarrow> bool \<Rightarrow> event" where
  "test_mutate i adds removes h = EvRequest (ReqMutate \<lparr>mt_MutateId = i,
     mt_Adds = map (\<lambda>(t, c). \<lparr>ma_Topic = t, ma_IdCursor = c\<rparr>) adds, mt_Removes = removes, mt_HistoryOnly = h\<rparr>)"

definition test_live :: "byte \<Rightarrow> byte \<Rightarrow> event" where
  "test_live g i = EvEnvelope \<lparr>ContentTopic = BuildMLSV1GroupTopic [g], TimestampNs = 0, Message = Some [g, i, 1]\<rparr>"

definition test_history :: "int \<Rightarrow> GroupMessage list \<Rightarrow> event" where
  "test_history wave ms = EvBatch (zero_batch\<lparr>cb_groupMsgs := ms, cb_wave := wave\<rparr>)"

definition test_events :: "event list" where
  "test_events = [test_mutate 5 [([0, 7], 1)] [] False, test_live 7 4,
     test_history 0 [test_group_msg 7 2, test_group_msg 7 3]]"

lemma test_stream_continues: "stream test_cfg test_events 0 = (fst (stream test_cfg test_events 0), Continue)"
proof -
  have "snd (stream test_cfg test_events 0) = Continue" by code_simp
  then show ?thesis by (metis prod.collapse)
qed

theorem stream_bookkeeping_witness:
  "subscribedTopics (fst (stream test_cfg test_events 0)) = int (card (subscribed (fst (stream test_cfg test_events 0)))) \<and>
   pendingBytes (fst (stream test_cfg test_events 0)) = 3 \<and> subscribedTopics (fst (stream test_cfg test_events 0)) = 1"
proof -
  have "pendingBytes (fst (stream test_cfg test_events 0)) = 3" "subscribedTopics (fst (stream test_cfg test_events 0)) = 1"
    by code_simp+
  then show ?thesis using stream_bookkeeping [OF test_stream_continues] by (simp add: test_cfg_def)
qed



section \<open>Keepalive\<close>

definition ping_state :: "writer \<Rightarrow> bool \<times> u64 \<times> int \<times> bool" where
  "ping_state w = (awaitingPong w, pingNonce w, pingSentAt w, halfClosed w)"

lemma ping_state_basic [simp]:
  "ping_state (fst (send s fl w)) = ping_state w" "ping_state (fst (dropTopic s t w)) = ping_state w"
  "ping_state (fst (group_frames s ms i w)) = ping_state w" "ping_state (fst (welcome_frames s wms i w)) = ping_state w"
  "ping_state (fst (register_add h t a w acc)) = ping_state w" "ping_state (start_wave i acc w) = ping_state w"
  "ping_state (w\<lparr>subscribedTopics := n, answered := x\<rparr>) = ping_state w" "ping_state (w\<lparr>waves := ws\<rparr>) = ping_state w"
  "ping_state (w\<lparr>pending := p, pendingBytes := n\<rparr>) = ping_state w"
  by (auto simp: ping_state_def dropTopic_eq forget_def group_frames_def welcome_frames_def register_add_def start_wave_def
      Let_def split: option.splits prod.splits)

lemma ping_state_apply_removes [simp]: "ping_state (fst (apply_removes s wires w)) = ping_state w"
proof (induction wires arbitrary: w)
  case (Cons wire wires)
  then show ?case by (auto simp: and_then_def split: sum.splits option.splits)
qed simp

lemma ping_state_apply_adds [simp]: "ping_state (fst (apply_adds s h adds w acc)) = ping_state w"
proof (induction adds arbitrary: w acc)
  case (Cons x adds)
  obtain t a where x: "x = (t, a)" by (cases x)
  obtain w1 e where d: "dropTopic s t w = (w1, e)" by fastforce
  obtain w2 acc2 where r: "register_add h t a w acc = (w2, acc2)" by fastforce
  obtain w3 acc3 where r1: "register_add h t a w1 acc = (w3, acc3)" by fastforce
  have "ping_state w1 = ping_state w" "ping_state w2 = ping_state w" "ping_state w3 = ping_state w1"
    using ping_state_basic(2) [of s t w] ping_state_basic(5) [of h t a w acc] ping_state_basic(5) [of h t a w1 acc] d r r1
    by simp_all
  then show ?case using x d r r1 Cons.IH by (cases e; cases h) simp_all
qed simp

lemma ping_state_handle_mutate: "handle_mutate s m w = (w', None) \<Longrightarrow> ping_state w' = ping_state w"
proof -
  assume "handle_mutate s m w = (w', None)"
  from handle_mutate_ok [OF this] obtain adds w1 w2 acc where
    rm: "apply_removes s (mt_Removes m) w = (w1, None)"
    and a: "apply_adds s (mt_HistoryOnly m) adds w1 no_adds = (w2, acc, None)"
    and last: "(if groupAdds acc \<noteq> [] \<or> welcomeAdds acc \<noteq> [] then (start_wave (mt_MutateId m) acc
        (w2\<lparr>subscribedTopics := subscribedTopics w2 + newlyLive acc, answered := answered w2 @ [mt_MutateId m]\<rparr>), None)
      else send s (catchupCompleteFrame (mt_MutateId m))
        (w2\<lparr>subscribedTopics := subscribedTopics w2 + newlyLive acc, answered := answered w2 @ [mt_MutateId m]\<rparr>)) = (w', None)" .
  let ?w3 = "w2\<lparr>subscribedTopics := subscribedTopics w2 + newlyLive acc, answered := answered w2 @ [mt_MutateId m]\<rparr>"
  have "w' = start_wave (mt_MutateId m) acc ?w3 \<or> w' = fst (send s (catchupCompleteFrame (mt_MutateId m)) ?w3)"
    using last by (auto split: if_splits)
  moreover have "ping_state w1 = ping_state w" "ping_state w2 = ping_state w1"
    using ping_state_apply_removes [of s "mt_Removes m" w] ping_state_apply_adds [of s "mt_HistoryOnly m" adds w1 no_adds] rm a
    by simp_all
  ultimately show ?thesis by auto
qed

lemma ping_state_settle [simp]: "ping_state (fst (settle_topics s wave ts w gs ws mk)) = ping_state w"
proof (induction ts arbitrary: w gs ws mk)
  case (Cons x ts)
  have "ping_state (w\<lparr>topicWave := a, highWaterMarks := b\<rparr>) = ping_state w"
    "ping_state (w\<lparr>topicWave := a, catchingUp := c, pendingBytes := d, pending := e\<rparr>) = ping_state w" for a b c d e
    by (simp_all add: ping_state_def)
  with Cons show ?case by (cases x) (simp add: Let_def)
qed simp

lemma ping_state_completeWave [simp]: "ping_state (fst (completeWave s i ws w)) = ping_state w"
  by (simp add: completeWave_def Let_def split_def)

lemma fst_or_return [simp]: "fst (or_return r) = fst r"
  by (simp add: or_return_def split: option.splits)

lemma ping_state_scan_done [simp]: "ping_state (fst (scan_done s i ws w)) = ping_state w"
  by (simp add: scan_done_def Let_def)

lemma ping_state_batch_frames [simp]: "ping_state (fst (batch_frames s b i w)) = ping_state w"
  by (simp add: batch_frames_def Let_def)

lemma ping_state_handle_batch [simp]: "ping_state (fst (handle_batch s b w)) = ping_state w"
  by (simp add: handle_batch_def Let_def split_def split: option.split)

lemma ping_state_handle:
  assumes "handle s ev w = (w', Continue)" and "awaitingPong w"
    and "ev \<noteq> EvRequest (ReqPong (pingNonce w))" and "\<forall>r. ev \<noteq> EvRequestClosed r"
  shows "ping_state w' = ping_state w"
proof (cases ev)
  case (EvRequest req)
  show ?thesis
  proof (cases req)
    case (ReqMutate m)
    obtain w1 e where m: "handle_mutate s m w = (w1, e)" by fastforce
    then show ?thesis using assms(1) EvRequest ReqMutate ping_state_handle_mutate [of s m w w1]
      by (cases e) (auto simp: handle_def handle_request_def or_return_def split: if_splits)
  qed (use assms EvRequest in
      \<open>auto simp: handle_def handle_request_def or_return_def split: if_splits option.splits\<close>)
next
  case (EvBatch b)
  then show ?thesis using assms(1) ping_state_handle_batch [of s b w] by (simp add: handle_def)
next
  case (EvEnvelope env)
  then show ?thesis using assms(1)
    by (auto simp: handle_def handle_envelope_def Let_def or_return_def split_def split: if_splits option.splits)
next
  case (EvTick now at)
  then show ?thesis using assms(1,2) by (auto simp: handle_def handle_tick_def split: if_splits)
qed (use assms in \<open>auto simp: handle_def\<close>)

text \<open>
  C21. A client that stops answering is reaped: once a Ping is outstanding, no traffic in either
  direction (Mutates, pings, live and historic messages, Pongs with another nonce) defers the
  deadline; after any run without the matching Pong, a tick at the deadline ends the stream with
  DeadlineExceeded.
\<close>

theorem silent_client_reaped:
  assumes "run s evs w = (w', Continue)" and "awaitingPong w" and "\<not> halfClosed w"
    and "\<forall>ev \<in> set evs. ev \<noteq> EvRequest (ReqPong (pingNonce w)) \<and> (\<forall>r. ev \<noteq> EvRequestClosed r)"
    and "pongDeadline s \<le> now - pingSentAt w"
  shows "handle s (EvTick now at) w' = (w', Return (Some (Status DeadlineExceeded ''no Pong within deadline'')))"
proof -
  have "ping_state w' = ping_state w"
    using assms(1-4)
  proof (induction evs arbitrary: w)
    case (Cons ev evs)
    obtain w1 v1 where h: "handle s ev w = (w1, v1)" by fastforce
    with Cons.prems(1) have v: "v1 = Continue" "run s evs w1 = (w', Continue)" by (cases v1; simp)+
    have p: "ping_state w1 = ping_state w" using h v Cons.prems(2,4) by (intro ping_state_handle) auto
    then have "awaitingPong w1" "\<not> halfClosed w1" "pingNonce w1 = pingNonce w"
      using Cons.prems(2,3) by (simp_all add: ping_state_def)
    then show ?case using Cons.IH [OF v(2)] Cons.prems(4) p by simp
  qed simp
  then show ?thesis using assms(2,3,5) by (simp add: ping_state_def handle_def handle_tick_def)
qed

theorem silent_client_reaped_witness:
  "\<exists>w w'. run test_cfg [test_live 7 4, EvRequest (ReqPong 0), EvRequest (ReqPing 9)] w = (w', Continue) \<and>
    handle test_cfg (EvTick 60000000000 0) w' = (w', Return (Some (Status DeadlineExceeded ''no Pong within deadline'')))"
proof -
  let ?w = "initial_writer\<lparr>awaitingPong := True, pingNonce := 1\<rparr>"
  let ?evs = "[test_live 7 4, EvRequest (ReqPong 0), EvRequest (ReqPing 9)]"
  have "snd (run test_cfg ?evs ?w) = Continue" by code_simp
  then have run: "run test_cfg ?evs ?w = (fst (run test_cfg ?evs ?w), Continue)" by (metis prod.collapse)
  from silent_client_reaped [OF run, of 60000000000 0] show ?thesis
    by (intro exI [of _ ?w] exI [of _ "fst (run test_cfg ?evs ?w)"])
      (use run in \<open>simp add: initial_writer_def test_cfg_def test_live_def\<close>)
qed

end
