(* ===== verification/Subscribe_Topic.thy ===== *)
theory Subscribe_Topic
  imports Subscribe_Invariants
begin

text \<open>
  What a Subscribe stream does to one topic. The abstract machine \<open>topic_step\<close> is the contract of the
  stream for a topic: while it is gated, replayed history is delivered and live messages are held
  back; when the wave completes, the held messages follow in id order; afterwards live messages are
  delivered as they come; and never a message at or below the last id delivered. The writer
  refines this machine for every group topic, whatever else happens on the stream
  (\<open>handle_refines\<close>, \<open>run_refines\<close>). On the machine, order, absence of duplicates and completeness of
  the delivery are easy to prove.
\<close>

section \<open>The abstract machine\<close>

datatype 'm topic_event = Hist "'m list" | Live 'm | Complete

text \<open>A delivered message, on the replay lane (of a wave) or the live lane (\<open>mutate_id\<close> 0).\<close>

datatype 'm delivery = Replay (payload: 'm) | LiveTail (payload: 'm)

fun passing :: "('m \<Rightarrow> u64) \<Rightarrow> u64 \<Rightarrow> 'm list \<Rightarrow> 'm list" where
  "passing ident c [] = []"
| "passing ident c (m # ms) = (if ident m \<le> c then passing ident c ms else m # passing ident (ident m) ms)"

definition last_mark :: "('m \<Rightarrow> u64) \<Rightarrow> u64 \<Rightarrow> 'm list \<Rightarrow> u64" where
  "last_mark ident c ms = (case passing ident c ms of [] \<Rightarrow> c | xs \<Rightarrow> ident (last xs))"

fun topic_step ::
  "('m \<Rightarrow> u64) \<Rightarrow> 'm topic_event \<Rightarrow> 'm list option \<times> u64 \<Rightarrow> ('m list option \<times> u64) \<times> 'm delivery list" where
  "topic_step ident (Hist ms) (g, c) = ((g, last_mark ident c ms), map Replay (passing ident c ms))"
| "topic_step ident (Live m) (Some held, c) = ((Some (held @ [m]), c), [])"
| "topic_step ident (Live m) (None, c) = ((None, last_mark ident c [m]), map LiveTail (passing ident c [m]))"
| "topic_step ident Complete (Some held, c) =
     ((None, last_mark ident c (sort_key ident held)), map Replay (passing ident c (sort_key ident held)))"
| "topic_step ident Complete (None, c) = ((None, c), [])"

fun topic_run ::
  "('m \<Rightarrow> u64) \<Rightarrow> 'm topic_event list \<Rightarrow> 'm list option \<times> u64 \<Rightarrow> ('m list option \<times> u64) \<times> 'm delivery list" where
  "topic_run ident [] st = (st, [])"
| "topic_run ident (e # es) st =
     (let (st1, out1) = topic_step ident e st; (st2, out2) = topic_run ident es st1 in (st2, out1 @ out2))"

lemma topic_run_append:
  "topic_run ident (es @ fs) st =
     (let (st1, out1) = topic_run ident es st; (st2, out2) = topic_run ident fs st1 in (st2, out1 @ out2))"
  by (induction es arbitrary: st) (simp_all add: Let_def split_def)

subsection \<open>Deduplication\<close>

lemma last_mark_simps [simp]:
  "last_mark ident c [] = c"
  "last_mark ident c (x # xs) = (if ident x \<le> c then last_mark ident c xs else last_mark ident (ident x) xs)"
  by (simp_all add: last_mark_def split: list.splits)

lemma passing_append: "passing ident c (xs @ ys) = passing ident c xs @ passing ident (last_mark ident c xs) ys"
  by (induction xs arbitrary: c) simp_all

lemma last_mark_append: "last_mark ident c (xs @ ys) = last_mark ident (last_mark ident c xs) ys"
  by (induction xs arbitrary: c) simp_all

lemma passing_greater: "m \<in> set (passing ident c ms) \<Longrightarrow> c < ident m"
proof (induction ms arbitrary: c)
  case (Cons x ms)
  then show ?case by (cases "ident x \<le> c") (auto dest: Cons.IH)
qed simp

lemma passing_ascending: "sorted_wrt (<) (map ident (passing ident c ms))"
proof (induction ms arbitrary: c)
  case (Cons x ms)
  then show ?case using passing_greater [of _ ident "ident x" ms] by auto
qed simp

lemma last_mark_ge: "c \<le> last_mark ident c ms"
proof (induction ms arbitrary: c)
  case (Cons x ms)
  show ?case using Cons.IH [of c] Cons.IH [of "ident x"] by (auto intro: order_trans)
qed simp

lemma passing_le_last_mark: "m \<in> set (passing ident c ms) \<Longrightarrow> ident m \<le> last_mark ident c ms"
proof (induction ms arbitrary: c)
  case (Cons x ms)
  then show ?case using last_mark_ge [of "ident x" ident ms] by (cases "ident x \<le> c") auto
qed simp

text \<open>The frame builders restricted to one topic.\<close>

lemma fresh_topic: "filter (\<lambda>m. key m = t) (fresh key ident ms hw) = passing ident (hw t) (filter (\<lambda>m. key m = t) ms)"
proof (induction ms arbitrary: hw)
  case (Cons x ms)
  show ?case using Cons.IH [of hw] Cons.IH [of "hw(key x := ident x)"] by (cases "key x = t") (auto simp: fun_upd_def)
qed simp

lemma raise_marks_topic: "raise_marks key ident ms hw t = last_mark ident (hw t) (filter (\<lambda>m. key m = t) ms)"
proof (induction ms arbitrary: hw)
  case (Cons x ms)
  show ?case using Cons.IH [of hw] Cons.IH [of "hw(key x := ident x)"] by (cases "key x = t") (auto simp: fun_upd_def)
qed simp

subsection \<open>Order and completeness on the machine\<close>

lemma topic_step_ids:
  "topic_step ident e (g, c) = ((g', c'), out) \<Longrightarrow>
     c \<le> c' \<and> sorted_wrt (<) (map (ident \<circ> payload) out) \<and> (\<forall>d \<in> set out. c < ident (payload d) \<and> ident (payload d) \<le> c')"
proof -
  have asc: "sorted_wrt (<) (map (ident \<circ> payload) (map Replay (passing ident c ms)))"
    "sorted_wrt (<) (map (ident \<circ> payload) (map LiveTail (passing ident c ms)))" for ms
    using passing_ascending [of ident c ms] by (simp_all add: comp_def)
  have range: "\<forall>d \<in> set (map Replay (passing ident c ms)). c < ident (payload d) \<and> ident (payload d) \<le> last_mark ident c ms"
    "\<forall>d \<in> set (map LiveTail (passing ident c ms)). c < ident (payload d) \<and> ident (payload d) \<le> last_mark ident c ms" for ms
    using passing_greater [of _ ident c ms] passing_le_last_mark [of _ ident c ms] by auto
  assume "topic_step ident e (g, c) = ((g', c'), out)"
  then show ?thesis
    using asc range last_mark_ge [of c ident] by (cases e; cases g) (auto simp del: passing.simps last_mark_simps map_map set_map)
qed

lemma topic_run_ids:
  "topic_run ident es (g, c) = ((g', c'), out) \<Longrightarrow>
     c \<le> c' \<and> sorted_wrt (<) (map (ident \<circ> payload) out) \<and> (\<forall>d \<in> set out. c < ident (payload d) \<and> ident (payload d) \<le> c')"
proof (induction es arbitrary: g c out)
  case (Cons e es)
  obtain g1 c1 out1 where 1: "topic_step ident e (g, c) = ((g1, c1), out1)" by (metis prod.collapse)
  obtain out2 where 2: "topic_run ident es (g1, c1) = ((g', c'), out2)" "out = out1 @ out2"
    using Cons.prems 1 by (auto simp: Let_def split: prod.splits)
  note s = topic_step_ids [OF 1] and r = Cons.IH [OF 2(1)]
  have "ident (payload x) < ident (payload y)" if "x \<in> set out1" "y \<in> set out2" for x y
    using s r that by (meson le_less_trans)
  moreover have "c < ident (payload d) \<and> ident (payload d) \<le> c'" if "d \<in> set out" for d
    using s r that 2(2) by (auto intro: order_trans le_less_trans)
  ultimately show ?case using s r 2(2) by (auto simp: sorted_wrt_append comp_def)
qed simp

definition hists :: "'m topic_event list \<Rightarrow> 'm list" where
  "hists es = concat (map (\<lambda>e. case e of Hist ms \<Rightarrow> ms | _ \<Rightarrow> []) es)"

definition lives :: "'m topic_event list \<Rightarrow> 'm list" where
  "lives es = concat (map (\<lambda>e. case e of Live m \<Rightarrow> [m] | _ \<Rightarrow> []) es)"

lemma hists_simps [simp]:
  "hists [] = []" "hists (e # es) = (case e of Hist ms \<Rightarrow> ms | _ \<Rightarrow> []) @ hists es" "hists (es @ fs) = hists es @ hists fs"
  "lives [] = []" "lives (e # es) = (case e of Live m \<Rightarrow> [m] | _ \<Rightarrow> []) @ lives es" "lives (es @ fs) = lives es @ lives fs"
  by (simp_all add: hists_def lives_def)

lemma topic_run_gated:
  "Complete \<notin> set es \<Longrightarrow> topic_run ident es (Some held, c) =
     ((Some (held @ lives es), last_mark ident c (hists es)), map Replay (passing ident c (hists es)))"
proof (induction es arbitrary: held c)
  case (Cons e es)
  then show ?case by (cases e) (simp_all add: passing_append last_mark_append)
qed simp

lemma topic_run_open:
  "hists es = [] \<Longrightarrow> topic_run ident es (None, c) = ((None, last_mark ident c (lives es)), map LiveTail (passing ident c (lives es)))"
proof (induction es arbitrary: c)
  case (Cons e es)
  have last_mark: "last_mark ident c [] = c" "passing ident c [] = []" for c by simp_all
  show ?case
  proof (cases e)
    case (Hist ms)
    then show ?thesis using Cons by simp
  next
    case (Live m)
    then show ?thesis using Cons passing_append [of ident c "[m]" "lives es"] last_mark_append [of ident c "[m]" "lives es"]
      by (simp del: passing.simps last_mark_simps)
  next
    case Complete
    then show ?thesis using Cons by simp
  qed
qed simp

lemma passing_sorted: "sorted_wrt (<) (map ident ms) \<Longrightarrow> passing ident c ms = filter (\<lambda>m. c < ident m) ms"
proof (induction ms arbitrary: c)
  case (Cons x ms)
  then have "filter (\<lambda>m. ident x < ident m) ms = ms" by (auto simp: filter_id_conv)
  moreover have "filter (\<lambda>m. c < ident m) ms = ms" if "c < ident x"
    using Cons.prems that by (auto simp: filter_id_conv)
  ultimately show ?case using Cons by auto
qed simp

text \<open>
  History up to a ceiling followed by a live tail that starts at or below the ceiling tile the log.
\<close>

lemma passing_tiles:
  assumes R: "sorted_wrt (<) (map ident R)" and pu: "p \<le> u"
    and H: "H = filter (\<lambda>m. c < ident m \<and> ident m \<le> u) R" and L: "L = filter (\<lambda>m. p < ident m \<and> ident m \<le> N) R"
  shows "passing ident c (H @ L) = filter (\<lambda>m. c < ident m \<and> (ident m \<le> u \<or> ident m \<le> N)) R"
proof -
  have sub: "sorted_wrt (<) (map ident (filter P R))" for P
    using R by (induction R) auto
  have HH: "passing ident c H = H" unfolding H by (subst passing_sorted [OF sub]) (auto intro: filter_cong)
  have mark: "last_mark ident c H < ident m \<longleftrightarrow> c < ident m \<and> u < ident m" if m: "m \<in> set R" for m
  proof
    assume lt: "last_mark ident c H < ident m"
    then have c: "c < ident m" using last_mark_ge [of c ident H] by simp
    have "\<not> ident m \<le> u"
    proof
      assume "ident m \<le> u"
      then have "m \<in> set (passing ident c H)" using c m HH by (simp add: H)
      from passing_le_last_mark [OF this] lt show False by simp
    qed
    with c show "c < ident m \<and> u < ident m" by simp
  next
    assume gt: "c < ident m \<and> u < ident m"
    show "last_mark ident c H < ident m"
    proof (cases "H = []")
      case False
      then have "last H \<in> set H" by simp
      then have "ident (last H) \<le> u" by (simp add: H)
      moreover have "last_mark ident c H = ident (last H)"
        using False HH by (cases H) (simp_all add: last_mark_def del: last_mark_simps passing.simps)
      ultimately show ?thesis using gt by (auto intro: le_less_trans)
    qed (use gt in simp)
  qed
  have "passing ident c (H @ L) = H @ filter (\<lambda>m. last_mark ident c H < ident m) L"
    using HH passing_sorted [OF sub] by (simp add: passing_append L)
  also have "filter (\<lambda>m. last_mark ident c H < ident m) L = filter (\<lambda>m. c < ident m \<and> u < ident m \<and> ident m \<le> N) R"
    unfolding L using mark pu by (auto intro!: filter_cong)
  also have "H @ \<dots> = filter (\<lambda>m. c < ident m \<and> (ident m \<le> u \<or> ident m \<le> N)) R"
    unfolding H using R
  proof (induction R)
    case (Cons x R)
    have "filter (\<lambda>m. c < ident m \<and> ident m \<le> u) R = []" if "u < ident x"
      using Cons.prems that by (auto simp: filter_empty_conv)
    with Cons show ?case by (cases "ident x \<le> u") auto
  qed simp
  finally show ?thesis .
qed

lemma topic_run_complete:
  assumes "Complete \<notin> set es" and "hists fs = []"
  shows "map payload (snd (topic_run ident (es @ Complete # fs) (Some [], c))) =
    passing ident c (hists es @ sort_key ident (lives es) @ lives fs)"
  using topic_run_gated [OF assms(1), of ident "[]" c] topic_run_open [OF assms(2), of ident]
  by (simp add: topic_run_append passing_append last_mark_append Let_def comp_def)

section \<open>The view of a stream on one group topic\<close>

definition group_view :: "string \<Rightarrow> frame list \<Rightarrow> GroupMessage delivery list" where
  "group_view t frames = concat (map (\<lambda>f. case f of
     Messages gs ws i \<Rightarrow> map (if i = 0 then LiveTail else Replay) (filter (\<lambda>m. groupKey m = t) gs) | _ \<Rightarrow> []) frames)"

lemma group_view_simps [simp]:
  "group_view t [] = []" "group_view t (xs @ ys) = group_view t xs @ group_view t ys"
  "group_view t [TopicsLive m] = []" "group_view t [PongFrame n] = []" "group_view t [PingFrame n] = []"
  "group_view t (catchupCompleteFrame i) = []" "group_view t (startedFrame s) = []"
  by (simp_all add: group_view_def catchupCompleteFrame_def startedFrame_def)

text \<open>The state and the events of the abstract machine, read off the writer.\<close>

definition abs_topic :: "sub_cfg \<Rightarrow> string \<Rightarrow> writer \<Rightarrow> GroupMessage list option \<times> u64" where
  "abs_topic s t w = (if t \<in> catchingUp w then Some (parse_groups s (pending w t)) else None, highWaterMarks w t)"

definition proj_event :: "sub_cfg \<Rightarrow> string \<Rightarrow> writer \<Rightarrow> event \<Rightarrow> GroupMessage topic_event list" where
  "proj_event s t w ev =
     (case ev of
        EvBatch b \<Rightarrow>
          (if topicWave w t = Some (cb_wave b)
           then Hist (filter (\<lambda>m. groupKey m = t) (cb_groupMsgs b)) #
             (if cb_done b \<and> (case map_of (waves w) (cb_wave b) of None \<Rightarrow> False | Some ws \<Rightarrow> ws_scansLeft ws \<le> 1) then [Complete] else [])
           else [])
      | EvEnvelope env \<Rightarrow> if ContentTopic env = t then map Live (parse_groups s [env]) else []
      | _ \<Rightarrow> [])"

fun proj_run :: "sub_cfg \<Rightarrow> string \<Rightarrow> event list \<Rightarrow> writer \<Rightarrow> GroupMessage topic_event list" where
  "proj_run s t [] w = []"
| "proj_run s t (ev # evs) w = proj_event s t w ev @ proj_run s t evs (fst (handle s ev w))"

text \<open>Envelopes that carry a message of the topic they are addressed to, as the worker builds them.\<close>

definition env_keyed :: "sub_cfg \<Rightarrow> envelope \<Rightarrow> bool" where
  "env_keyed s env \<longleftrightarrow>
     (\<forall>m. \<not> IsMLSV1Welcome (ContentTopic env) \<longrightarrow> unmarshalGroup s (message_bytes env) = Inr m \<longrightarrow> groupKey m = ContentTopic env)"

definition names :: "string \<Rightarrow> bytes \<Rightarrow> bool" where
  "names t wire \<longleftrightarrow> (\<exists>k i. splitTopic wire = Inr (k, i) \<and> buildMLSTopic k i = t)"

definition leaves :: "sub_cfg \<Rightarrow> string \<Rightarrow> event \<Rightarrow> bool" where
  "leaves s t ev =
     (case ev of
        EvRequest (ReqMutate m) \<Rightarrow> \<not> (\<exists>a \<in> set (mt_Adds m). names t (ma_Topic a)) \<and> \<not> (\<exists>x \<in> set (mt_Removes m). names t x)
      | EvEnvelope env \<Rightarrow> env_keyed s env
      | _ \<Rightarrow> True)"

definition pending_keyed :: "sub_cfg \<Rightarrow> writer \<Rightarrow> bool" where
  "pending_keyed s w \<longleftrightarrow> (\<forall>u. \<forall>env \<in> set (pending w u). ContentTopic env = u \<and> env_keyed s env)"

section \<open>Refinement\<close>

text \<open>\<open>grew t w w' out\<close>: unless frames were dropped, the frames sent from \<open>w\<close> to \<open>w'\<close> show \<open>out\<close>.\<close>

definition grew :: "string \<Rightarrow> writer \<Rightarrow> writer \<Rightarrow> GroupMessage delivery list \<Rightarrow> bool" where
  "grew t w w' out \<longleftrightarrow> dropped w' \<or> \<not> dropped w \<and> (\<exists>fl. sent w' = sent w @ fl \<and> group_view t fl = out)"

lemma grew_refl: "sent w' = sent w \<Longrightarrow> dropped w' = dropped w \<Longrightarrow> grew t w w' []"
  by (auto simp: grew_def intro!: exI [of _ "[]"])

lemma grew_trans: "grew t w w1 a \<Longrightarrow> grew t w1 w2 b \<Longrightarrow> grew t w w2 (a @ b)"
  unfolding grew_def by auto

lemma grew_send:
  assumes "snd (send s fl w) = None" and "group_view t fl = out"
  shows "grew t w (fst (send s fl w)) out"
  using send_sent [OF assms(1)] send_dropped [of w s fl] assms(2) unfolding grew_def by blast

text \<open>What the writer knows of a topic; untouched by work on other topics.\<close>

definition topic_state :: "string \<Rightarrow> writer \<Rightarrow> u64 \<times> bool \<times> envelope list \<times> bool \<times> int option" where
  "topic_state t w = (highWaterMarks w t, t \<in> catchingUp w, pending w t, t \<in> subscribed w, topicWave w t)"

lemma topic_state_send [simp]: "topic_state t (fst (send s fl w)) = topic_state t w"
  by (simp add: topic_state_def)

lemma topic_state_dropTopic: "u \<noteq> t \<Longrightarrow> topic_state t (fst (dropTopic s u w)) = topic_state t w"
  by (auto simp: topic_state_def dropTopic_fields forget_def)

lemma topic_state_register: "u \<noteq> t \<Longrightarrow> topic_state t (fst (register_add h u a w acc)) = topic_state t w"
  by (simp add: topic_state_def register_add_def Let_def)

lemma abs_topic_cong: "topic_state t w' = topic_state t w \<Longrightarrow> abs_topic s t w' = abs_topic s t w"
  by (simp add: topic_state_def abs_topic_def)

lemma grew_dropTopic: "snd (dropTopic s u w) = None \<Longrightarrow> grew t w (fst (dropTopic s u w)) []"
proof -
  assume none: "snd (dropTopic s u w) = None"
  have "grew t w (fst (send s (catchupCompleteFrame i) ((forget u w)\<lparr>waves := x\<rparr>))) []"
    if "snd (send s (catchupCompleteFrame i) ((forget u w)\<lparr>waves := x\<rparr>)) = None" for i x
  proof -
    have "grew t ((forget u w)\<lparr>waves := x\<rparr>) (fst (send s (catchupCompleteFrame i) ((forget u w)\<lparr>waves := x\<rparr>))) []"
      using that by (rule grew_send) simp
    then show ?thesis by (simp add: grew_def)
  qed
  then show ?thesis using none by (auto simp: dropTopic_eq intro: grew_refl split: option.splits if_splits)
qed

lemma apply_removes_leaves:
  "\<not> (\<exists>x \<in> set wires. names t x) \<Longrightarrow> snd (apply_removes s wires w) = None \<Longrightarrow>
     topic_state t (fst (apply_removes s wires w)) = topic_state t w \<and> grew t w (fst (apply_removes s wires w)) []"
proof (induction wires arbitrary: w)
  case Nil
  then show ?case by (simp add: grew_refl)
next
  case (Cons wire wires)
  then obtain kind i where sp: "splitTopic wire = Inr (kind, i)" by (cases "splitTopic wire") auto
  let ?u = "buildMLSTopic kind i"
  let ?d = "dropTopic s ?u w"
  have none: "snd ?d = None" using Cons.prems(2) sp by (cases "snd ?d") (auto simp: and_then_def)
  have u: "?u \<noteq> t" using Cons.prems(1) sp by (auto simp: names_def)
  have "topic_state t (fst (apply_removes s wires (fst ?d))) = topic_state t (fst ?d) \<and>
      grew t (fst ?d) (fst (apply_removes s wires (fst ?d))) []"
    using Cons none sp by (auto simp: and_then_def)
  then show ?case
    using grew_trans [OF grew_dropTopic [OF none]] topic_state_dropTopic [OF u] sp none by (force simp: and_then_def)
qed

lemma apply_adds_leaves:
  "t \<notin> fst ` set adds \<Longrightarrow> apply_adds s h adds w acc = (w', acc', None) \<Longrightarrow>
     topic_state t w' = topic_state t w \<and> grew t w w' [] \<and>
     set (acc_topics acc') \<subseteq> set (acc_topics acc) \<union> fst ` set adds"
proof (induction adds arbitrary: w acc)
  case Nil
  then show ?case by (simp add: grew_refl)
next
  case (Cons x adds)
  obtain u a where x: "x = (u, a)" by (cases x)
  have u: "u \<noteq> t" using Cons.prems(1) x by auto
  have reg: ?case if w1: "topic_state t w1 = topic_state t w" "grew t w w1 []"
    and run: "register_add h u a w1 acc = (w2, acc2)" "apply_adds s h adds w2 acc2 = (w', acc', None)" for w1 w2 acc2
  proof -
    have r: "topic_state t w2 = topic_state t w1" "set (acc_topics acc2) = insert u (set (acc_topics acc))"
      "sent w2 = sent w1" "dropped w2 = dropped w1"
      using topic_state_register [OF u, of h a w1 acc] run(1)
      by (auto simp: register_add_def Let_def acc_topics_def split: if_splits)
    have "topic_state t w' = topic_state t w2 \<and> grew t w2 w' [] \<and>
        set (acc_topics acc') \<subseteq> set (acc_topics acc2) \<union> fst ` set adds"
      using Cons.IH [OF _ run(2)] Cons.prems(1) by auto
    moreover have "grew t w w2 []" using w1(2) r(3,4) by (simp add: grew_def)
    ultimately show ?thesis using w1(1) r(1,2) x grew_trans [of t w w2 "[]" w' "[]"] by auto
  qed
  show ?case
  proof (cases "u \<in> subscribed w \<or> u \<in> catchingUp w")
    case live: True
    show ?thesis
    proof (cases "h \<or> highWaterMarks w u \<le> ar_cursor a")
      case True
      then have "apply_adds s h adds w acc = (w', acc', None)"
        using live Cons.prems(2) x by (auto split: if_splits)
      from Cons.IH [OF _ this] Cons.prems(1) show ?thesis by auto
    next
      case False
      let ?d = "dropTopic s u w"
      have none: "snd ?d = None"
        using Cons.prems(2) x live False by (cases "snd ?d") (auto split: prod.splits)
      obtain w2 acc2 where "register_add h u a (fst ?d) acc = (w2, acc2)" by (cases "register_add h u a (fst ?d) acc")
      with none False live Cons.prems(2) x show ?thesis
        by (intro reg [OF topic_state_dropTopic [OF u] grew_dropTopic [OF none]]) (auto split: prod.splits)
    qed
  next
    case False
    show ?thesis
    proof (cases "topicWave w u")
      case None
      obtain w2 acc2 where "register_add h u a w acc = (w2, acc2)" by (cases "register_add h u a w acc")
      with None False Cons.prems(2) x show ?thesis by (intro reg [of w]) (auto simp: grew_refl)
    next
      case (Some i)
      then show ?thesis using False Cons.prems x by auto
    qed
  qed
qed

lemma collect_adds_names:
  "collect_adds adds acc = Inr r \<Longrightarrow> u \<in> fst ` set r \<Longrightarrow> u \<in> fst ` set acc \<or> (\<exists>a \<in> set adds. names u (ma_Topic a))"
proof (induction adds arbitrary: acc)
  case (Cons a adds)
  then obtain kind i where sp: "splitTopic (ma_Topic a) = Inr (kind, i)"
    and r: "collect_adds adds (merge_add (buildMLSTopic kind i)
      \<lparr>ar_wire = ma_Topic a, ar_kind = kind, ar_id = i, ar_cursor = ma_IdCursor a\<rparr> acc) = Inr r"
    by (auto split: sum.splits prod.splits)
  have sub: "u \<in> fst ` set (merge_add t' x acc) \<Longrightarrow> u = t' \<or> u \<in> fst ` set acc" for t' x
    by (auto simp: merge_add_def split: if_splits)
  from Cons.IH [OF r Cons.prems(2)] show ?case
  proof
    assume "u \<in> fst ` set (merge_add (buildMLSTopic kind i)
        \<lparr>ar_wire = ma_Topic a, ar_kind = kind, ar_id = i, ar_cursor = ma_IdCursor a\<rparr> acc)"
    from sub [OF this] show ?thesis using sp by (auto simp: names_def)
  qed auto
qed simp

lemma handle_mutate_leaves:
  assumes run: "handle_mutate s m w = (w', None)"
    and t: "\<not> (\<exists>a \<in> set (mt_Adds m). names t (ma_Topic a))" "\<not> (\<exists>x \<in> set (mt_Removes m). names t x)"
  shows "topic_state t w' = topic_state t w \<and> grew t w w' []"
proof -
  from handle_mutate_ok [OF run] obtain adds w1 w2 acc where
    adds: "collect_adds (mt_Adds m) [] = Inr adds" and rm: "apply_removes s (mt_Removes m) w = (w1, None)"
    and a: "apply_adds s (mt_HistoryOnly m) adds w1 no_adds = (w2, acc, None)"
    and last: "(if groupAdds acc \<noteq> [] \<or> welcomeAdds acc \<noteq> [] then (start_wave (mt_MutateId m) acc
        (w2\<lparr>subscribedTopics := subscribedTopics w2 + newlyLive acc, answered := answered w2 @ [mt_MutateId m]\<rparr>), None)
      else send s (catchupCompleteFrame (mt_MutateId m))
        (w2\<lparr>subscribedTopics := subscribedTopics w2 + newlyLive acc, answered := answered w2 @ [mt_MutateId m]\<rparr>)) = (w', None)" .
  let ?w3 = "w2\<lparr>subscribedTopics := subscribedTopics w2 + newlyLive acc, answered := answered w2 @ [mt_MutateId m]\<rparr>"
  have 1: "topic_state t w1 = topic_state t w" "grew t w w1 []"
    using apply_removes_leaves [OF t(2), of s w] rm by simp_all
  have "t \<notin> fst ` set adds" using collect_adds_names [OF adds] t(1) by auto
  from apply_adds_leaves [OF this a] have 2: "topic_state t w2 = topic_state t w1" "grew t w1 w2 []" "t \<notin> set (acc_topics acc)"
    using \<open>t \<notin> fst ` set adds\<close> by (auto simp: no_adds_def acc_topics_def)
  have 3: "topic_state t ?w3 = topic_state t w" "grew t w ?w3 []"
    using 1 2 grew_trans [OF 1(2) 2(2)] by (simp_all add: topic_state_def grew_def)
  show ?thesis
  proof (cases "groupAdds acc \<noteq> [] \<or> welcomeAdds acc \<noteq> []")
    case True
    then have "w' = start_wave (mt_MutateId m) acc ?w3" using last by simp
    then show ?thesis using 3 2(3) by (simp add: topic_state_def grew_def start_wave_def Let_def acc_topics_def)
  next
    case False
    let ?r = "send s (catchupCompleteFrame (mt_MutateId m)) ?w3"
    have "?r = (w', None)" using last False by simp
    then have r: "snd ?r = None" "w' = fst ?r" by simp_all
    have "grew t ?w3 w' []" unfolding r(2) using r(1) by (rule grew_send) simp
    then show ?thesis using 3 grew_trans [OF 3(2)] r(2) by simp
  qed
qed

lemma group_view_messages:
  "group_view t (map (\<lambda>f. Messages f [] i) frames) =
     map (if i = 0 then LiveTail else Replay) (filter (\<lambda>m. groupKey m = t) (concat frames))"
  by (induction frames) (simp_all add: group_view_def)

lemma group_frames_topic:
  "highWaterMarks (fst (group_frames s ms i w)) t = last_mark GetId (highWaterMarks w t) (filter (\<lambda>m. groupKey m = t) ms)"
  "group_view t (snd (group_frames s ms i w)) =
     map (if i = 0 then LiveTail else Replay) (passing GetId (highWaterMarks w t) (filter (\<lambda>m. groupKey m = t) ms))"
proof -
  obtain frames where "buildGroupFrames (maxFrameBytes s) ms i (highWaterMarks w) =
      (raise_marks groupKey GetId ms (highWaterMarks w), map (\<lambda>f. Messages f [] i) frames)"
    "concat frames = fresh groupKey GetId ms (highWaterMarks w)"
    using buildGroupFrames_eq [of "maxFrameBytes s" ms i "highWaterMarks w"] by blast
  then show "highWaterMarks (fst (group_frames s ms i w)) t = last_mark GetId (highWaterMarks w t) (filter (\<lambda>m. groupKey m = t) ms)"
    and "group_view t (snd (group_frames s ms i w)) =
     map (if i = 0 then LiveTail else Replay) (passing GetId (highWaterMarks w t) (filter (\<lambda>m. groupKey m = t) ms))"
    by (simp_all add: group_frames_def raise_marks_topic group_view_messages fresh_topic)
qed

lemma welcome_frames_topic:
  assumes t: "t = BuildMLSV1GroupTopic g"
  shows "highWaterMarks (fst (welcome_frames s ms i w)) t = highWaterMarks w t"
    and "group_view t (snd (welcome_frames s ms i w)) = []"
proof -
  have none: "filter (\<lambda>m. welcomeKey m = t) xs = []" for xs
    using t group_welcome_topic_neq by (auto simp: filter_empty_conv welcomeKey_def dest: sym)
  obtain frames where "buildWelcomeFrames (maxFrameBytes s) ms i (highWaterMarks w) =
      (raise_marks welcomeKey welcomeID ms (highWaterMarks w), map (\<lambda>f. Messages [] f i) frames)"
    using buildWelcomeFrames_eq [of "maxFrameBytes s" ms i "highWaterMarks w"] by blast
  moreover have "group_view t (map (\<lambda>f. Messages [] f i) frames) = []" for frames
    by (induction frames) (simp_all add: group_view_def)
  ultimately show "highWaterMarks (fst (welcome_frames s ms i w)) t = highWaterMarks w t"
    and "group_view t (snd (welcome_frames s ms i w)) = []"
    by (simp_all add: welcome_frames_def raise_marks_topic none)
qed

lemma frames_sent [simp]:
  "grew t (fst (group_frames s ms i w)) w' out = grew t w w' out"
  "grew t (fst (welcome_frames s wms i w)) w' out = grew t w w' out"
  "grew t (fst (batch_frames s b i w)) w' out = grew t w w' out"
  by (simp_all add: grew_def batch_frames_def Let_def)

text \<open>The replay part of a batch.\<close>

definition wanted_msgs :: "string \<Rightarrow> writer \<Rightarrow> catchUpBatch \<Rightarrow> GroupMessage list" where
  "wanted_msgs t w b = (if topicWave w t = Some (cb_wave b) then filter (\<lambda>m. groupKey m = t) (cb_groupMsgs b) else [])"

lemma batch_frames_topic:
  assumes t: "t = BuildMLSV1GroupTopic g" and i: "i \<noteq> 0"
  shows "highWaterMarks (fst (batch_frames s b i w)) t = last_mark GetId (highWaterMarks w t) (wanted_msgs t w b)"
    and "group_view t (snd (batch_frames s b i w)) = map Replay (passing GetId (highWaterMarks w t) (wanted_msgs t w b))"
    and "catchingUp (fst (batch_frames s b i w)) = catchingUp w" "pending (fst (batch_frames s b i w)) = pending w"
    and "subscribed (fst (batch_frames s b i w)) = subscribed w" "topicWave (fst (batch_frames s b i w)) = topicWave w"
proof -
  have "filter (\<lambda>m. groupKey m = t) (filter (\<lambda>m. topicWave w (groupKey m) = Some (cb_wave b)) (cb_groupMsgs b)) = (wanted_msgs t w b)"
    unfolding wanted_msgs_def by (auto intro!: filter_cong simp: filter_empty_conv)
  then show "highWaterMarks (fst (batch_frames s b i w)) t = last_mark GetId (highWaterMarks w t) (wanted_msgs t w b)"
    and "group_view t (snd (batch_frames s b i w)) = map Replay (passing GetId (highWaterMarks w t) (wanted_msgs t w b))"
    using i by (auto simp: batch_frames_def Let_def group_frames_topic welcome_frames_topic [OF t] wanted_msgs_def)
qed (simp_all add: batch_frames_def Let_def)

text \<open>The buffered messages of one topic among those a completing wave flushes.\<close>

lemma parse_groups_concat: "parse_groups s (concat xs) = concat (map (parse_groups s) xs)"
  by (induction xs) simp_all

lemma pending_keyed_parse:
  assumes "pending_keyed s w" and "\<not> IsMLSV1Welcome u" and "m \<in> set (parse_groups s (pending w u))"
  shows "groupKey m = u"
  using assms by (auto simp: parse_groups_def List.map_filter_def pending_keyed_def env_keyed_def split: sum.splits)

lemma gated_topic:
  assumes keyed: "pending_keyed s w" and t: "\<not> IsMLSV1Welcome t" and d: "distinct ts" "owners w i \<subseteq> set ts"
  shows "filter (\<lambda>m. groupKey m = t) (parse_groups s (gated (\<lambda>t. \<not> IsMLSV1Welcome t) w i ts)) =
    (if topicWave w t = Some i \<and> t \<in> catchingUp w then parse_groups s (pending w t) else [])"
proof -
  have each: "filter (\<lambda>m. groupKey m = t) (parse_groups s (pending w u)) = (if u = t then parse_groups s (pending w t) else [])"
    if "\<not> IsMLSV1Welcome u" for u
    using pending_keyed_parse [OF keyed that] by (auto simp: filter_id_conv filter_empty_conv)
  have "filter (\<lambda>m. groupKey m = t) (parse_groups s (gated (\<lambda>t. \<not> IsMLSV1Welcome t) w i us)) =
      (if t \<in> set us \<and> topicWave w t = Some i \<and> t \<in> catchingUp w then parse_groups s (pending w t) else [])"
    if "distinct us" for us
    using that
  proof (induction us)
    case (Cons u us)
    then show ?case using each [of u] t by (auto simp: gated_Cons)
  qed (simp add: gated_def)
  from this [OF d(1)] show ?thesis using d(2) by (auto simp: owners_def)
qed

lemma completeWave_topic:
  assumes t: "t = BuildMLSV1GroupTopic g" and keyed: "pending_keyed s w" and ok: "wave_ok w (i, ws)"
    and mine: "topicWave w t = Some i \<Longrightarrow> t \<in> catchingUp w" and c: "completeWave s i ws' w = (w', None)"
    and ws': "ws_topics ws' = ws_topics ws" "ws_wire ws' = ws_wire ws" "ws_mutateID ws' = ws_mutateID ws"
  defines "held \<equiv> (if topicWave w t = Some i then sort_key GetId (parse_groups s (pending w t)) else [])"
  shows "abs_topic s t w' = (if topicWave w t = Some i then None else fst (abs_topic s t w),
      last_mark GetId (highWaterMarks w t) held)"
    and "grew t w w' (map Replay (passing GetId (highWaterMarks w t) held))"
    and "subscribed w' = subscribed w" and "pending_keyed s w'"
proof -
  let ?w2 = "(settled (owners w i) w)\<lparr>waves := delete_wave i (waves w)\<rparr>"
  let ?g = "group_frames s (sort_key GetId (parse_groups s (gated (\<lambda>t. \<not> IsMLSV1Welcome t) w i (ws_topics ws')))) (ws_mutateID ws') ?w2"
  let ?h = "welcome_frames s (sort_key welcomeID (parse_welcomes s (gated IsMLSV1Welcome w i (ws_topics ws')))) (ws_mutateID ws') (fst ?g)"
  let ?m = "map snd (filter (\<lambda>(t, x). topicWave w t = Some i) (zip (ws_topics ws') (ws_wire ws')))"
  let ?fl = "snd ?g @ snd ?h @ (if ?m \<noteq> [] then [TopicsLive ?m] else []) @ catchupCompleteFrame (ws_mutateID ws')"
  have wok: "length (ws_wire ws') = length (ws_topics ws')" "distinct (ws_topics ws')" "owners w i \<subseteq> set (ws_topics ws')"
    "ws_mutateID ws' \<noteq> 0"
    using ok ws' by (simp_all add: wave_ok_def)
  have eq: "completeWave s i ws' w = send s ?fl (fst ?h)"
    unfolding completeWave_eq [OF wok(1-3)] by (simp add: Let_def split_def)
  have w': "w' = fst (send s ?fl (fst ?h))" "snd (send s ?fl (fst ?h)) = None" using c eq by simp_all
  have nw: "\<not> IsMLSV1Welcome t" using t by simp
  have held: "filter (\<lambda>m. groupKey m = t) (sort_key GetId (parse_groups s (gated (\<lambda>t. \<not> IsMLSV1Welcome t) w i (ws_topics ws')))) = held"
    unfolding filter_sort gated_topic [OF keyed nw wok(2,3)] held_def using mine by simp
  have hw: "highWaterMarks ?w2 t = highWaterMarks w t" using mine by (auto simp: owners_def)
  show "abs_topic s t w' = (if topicWave w t = Some i then None else fst (abs_topic s t w),
      last_mark GetId (highWaterMarks w t) held)"
    unfolding w'(1) abs_topic_def using hw held mine
    by (auto simp: group_frames_topic welcome_frames_topic [OF t] owners_def settled_def)
  have "group_view t ?fl = map Replay (passing GetId (highWaterMarks w t) held)"
    using hw held wok(4) by (simp add: group_frames_topic welcome_frames_topic [OF t])
  from grew_send [OF w'(2) this] have "grew t ?w2 w' (map Replay (passing GetId (highWaterMarks w t) held))"
    unfolding w'(1) by simp
  then show "grew t w w' (map Replay (passing GetId (highWaterMarks w t) held))" by (simp add: grew_def)
  show "subscribed w' = subscribed w" unfolding w'(1) by simp
  show "pending_keyed s w'" unfolding w'(1) using keyed by (auto simp: pending_keyed_def settled_def split: if_splits)
qed

definition refines :: "sub_cfg \<Rightarrow> string \<Rightarrow> writer \<Rightarrow> GroupMessage topic_event list \<Rightarrow> writer \<Rightarrow> bool" where
  "refines s t w es w' \<longleftrightarrow>
     fst (topic_run GetId es (abs_topic s t w)) = abs_topic s t w' \<and>
     grew t w w' (snd (topic_run GetId es (abs_topic s t w))) \<and> t \<in> subscribed w' \<and> pending_keyed s w'"

lemma refines_none:
  assumes "topic_state t w' = topic_state t w" and "grew t w w' []" and "t \<in> subscribed w" and "pending_keyed s w'"
  shows "refines s t w [] w'"
  using assms abs_topic_cong [OF assms(1)] by (auto simp: refines_def topic_state_def)

lemma refines_trans:
  assumes "refines s t w es w1" and "refines s t w1 fs w2"
  shows "refines s t w (es @ fs) w2"
  using assms grew_trans [of t w w1 _ w2] by (auto simp: refines_def topic_run_append Let_def split_def)

lemma handle_batch_refines:
  assumes t: "t = BuildMLSV1GroupTopic g" and inv: "writer_inv w" and sub: "t \<in> subscribed w"
    and keyed: "pending_keyed s w" and run: "handle_batch s b w = (w', v)" and ok: "clean v"
  shows "refines s t w (proj_event s t w (EvBatch b)) w'"
proof (cases "map_of (waves w) (cb_wave b)")
  case None
  have "topicWave w t \<noteq> Some (cb_wave b)"
  proof
    assume "topicWave w t = Some (cb_wave b)"
    moreover have "waves_ok w" using inv by (simp add: writer_inv_def winv_def)
    ultimately show False using waves_okD [of w t "cb_wave b"] None by force
  qed
  then show ?thesis using handle_batch_clean(2) [OF run ok None] sub keyed
    by (simp add: proj_event_def refines_none grew_refl)
next
  case (Some ws)
  from handle_batch_clean(3) [OF run ok Some] obtain w1 history w2 where
    bf: "batch_frames s b (ws_mutateID ws) w = (w1, history)" "send s history w1 = (w2, None)"
    and v: "(w', v) = (if cb_done b then scan_done s (cb_wave b) ws w2 else (w2, Continue))" by blast
  note w2 = batch_sent [OF inv Some bf]
  have id0: "ws_mutateID ws \<noteq> 0" using w2(3) by (simp add: wave_ok_def)
  have w2eq: "w2 = fst (send s (snd (batch_frames s b (ws_mutateID ws) w)) (fst (batch_frames s b (ws_mutateID ws) w)))"
    using bf by simp
  note bt = batch_frames_topic [OF t id0, where w = w and b = b and s = s]
  let ?ms = "wanted_msgs t w b" and ?c = "highWaterMarks w t"
  have keyed2: "pending_keyed s w2" unfolding w2eq using keyed bt(4) by (simp add: pending_keyed_def)
  have st2: "topicWave w2 t = topicWave w t" "t \<in> subscribed w2" "t \<in> catchingUp w2 \<longleftrightarrow> t \<in> catchingUp w"
    "highWaterMarks w2 t = last_mark GetId ?c ?ms" "pending w2 t = pending w t"
    unfolding w2eq using bt sub by simp_all
  have "snd (send s (snd (batch_frames s b (ws_mutateID ws) w)) (fst (batch_frames s b (ws_mutateID ws) w))) = None"
    using bf by simp
  from grew_send [OF this bt(2)] have g2: "grew t w w2 (map Replay (passing GetId ?c ?ms))" unfolding w2eq by simp
  let ?hist = "if topicWave w t = Some (cb_wave b) then [Hist (filter (\<lambda>m. groupKey m = t) (cb_groupMsgs b))] else []"
  have hist: "refines s t w ?hist w2"
    unfolding refines_def abs_topic_def using st2 g2 keyed2
    by (cases "topicWave w t = Some (cb_wave b)") (simp_all add: wanted_msgs_def)
  have gate: "topicWave w2 t = Some (cb_wave b) \<Longrightarrow> t \<in> catchingUp w2"
    using w2(1) st2(2) by (auto simp: winv_def topics_ok_def)
  let ?ws = "ws\<lparr>ws_scansLeft := ws_scansLeft ws - 1\<rparr>"
  show ?thesis
  proof (cases "cb_done b")
    case False
    then show ?thesis using v hist by (auto simp: proj_event_def split: if_splits)
  next
    case True
    then have "scan_done s (cb_wave b) ws w2 = (w', v)" using v by simp
    from scan_done_clean [OF this ok] show ?thesis
    proof (elim disjE conjE)
      assume lt: "0 < ws_scansLeft ws - 1" and w': "w' = w2\<lparr>waves := set_wave (cb_wave b) ?ws (waves w2)\<rparr>"
      have "refines s t w2 [] w'"
        unfolding w' using st2(2) keyed2
        by (intro refines_none grew_refl) (simp_all add: topic_state_def pending_keyed_def)
      from refines_trans [OF hist this] show ?thesis using True Some lt by (auto simp: proj_event_def split: if_splits)
    next
      assume nlt: "\<not> 0 < ws_scansLeft ws - 1" and c: "completeWave s (cb_wave b) ?ws w2 = (w', None)"
      note cw = completeWave_topic [OF t keyed2 w2(3) gate c]
      let ?comp = "if topicWave w t = Some (cb_wave b) then [Complete] else []"
      have "refines s t w2 ?comp w'"
        using cw st2 gate unfolding refines_def abs_topic_def by (auto split: if_splits)
      from refines_trans [OF hist this] show ?thesis using True Some nlt by (auto simp: proj_event_def split: if_splits)
    qed
  qed
qed

lemma parse_one:
  "parse_groups s [env] = (case unmarshalGroup s (message_bytes env) of Inl _ \<Rightarrow> [] | Inr m \<Rightarrow> [m])"
  by (simp add: parse_groups_def List.map_filter_def split: sum.splits)

lemma handle_envelope_refines:
  assumes t: "t = BuildMLSV1GroupTopic g" and sub: "t \<in> subscribed w" and keyed: "pending_keyed s w"
    and env: "env_keyed s env" and run: "handle_envelope s env w = (w', Continue)"
  shows "refines s t w (proj_event s t w (EvEnvelope env)) w'"
proof -
  let ?u = "ContentTopic env"
  show ?thesis
  proof (cases "?u \<in> catchingUp w")
    case True
    have w': "w' = w\<lparr>pending := (pending w)(?u := pending w ?u @ [env]),
        pendingBytes := pendingBytes w + int (length (message_bytes env))\<rparr>"
      using run True by (auto simp: handle_envelope_def Let_def split: if_splits)
    have g: "grew t w w' []" unfolding w' by (rule grew_refl) simp_all
    have k: "pending_keyed s w'" using keyed env unfolding w' by (auto simp: pending_keyed_def)
    show ?thesis
    proof (cases "?u = t")
      case False
      then have "topic_state t w' = topic_state t w" unfolding w' by (simp add: topic_state_def)
      from refines_none [OF this g sub k] show ?thesis using False by (simp add: proj_event_def)
    next
      case eq: True
      have "abs_topic s t w' = (Some (parse_groups s (pending w t) @ parse_groups s [env]), highWaterMarks w t)"
        using True eq unfolding w' abs_topic_def by simp
      then show ?thesis
        using True eq g k sub unfolding w'
        by (auto simp: refines_def proj_event_def parse_one abs_topic_def split: sum.splits)
    qed
  next
    case False
    show ?thesis
    proof (cases "IsMLSV1Welcome ?u")
      case True
      then have ne: "?u \<noteq> t" using t by auto
      let ?h = "welcome_frames s (parse_welcomes s [env]) 0 w"
      have r: "snd (send s (snd ?h) (fst ?h)) = None" "w' = fst (send s (snd ?h) (fst ?h))"
        using run False True by (auto simp: handle_envelope_def Let_def or_return_def split_def split: option.splits)
      have "grew t w w' []"
        using grew_send [OF r(1) welcome_frames_topic(2) [OF t]] unfolding r(2) by simp
      moreover have "topic_state t w' = topic_state t w"
        unfolding r(2) using welcome_frames_topic(1) [OF t] by (simp add: topic_state_def)
      moreover have "pending_keyed s w'" unfolding r(2) using keyed by (simp add: pending_keyed_def)
      ultimately show ?thesis using refines_none sub ne by (simp add: proj_event_def)
    next
      case gr: False
      let ?g = "group_frames s (parse_groups s [env]) 0 w"
      have r: "snd (send s (snd ?g) (fst ?g)) = None" "w' = fst (send s (snd ?g) (fst ?g))"
        using run False gr by (auto simp: handle_envelope_def Let_def or_return_def split_def split: option.splits)
      have mine: "filter (\<lambda>m. groupKey m = t) (parse_groups s [env]) = (if ?u = t then parse_groups s [env] else [])"
        using env gr by (auto simp: parse_one env_keyed_def split: sum.splits)
      let ?ms = "if ?u = t then parse_groups s [env] else []"
      have "grew t w w' (map LiveTail (passing GetId (highWaterMarks w t) ?ms))"
        using grew_send [OF r(1) group_frames_topic(2), of t] unfolding r(2) mine by simp
      moreover have "highWaterMarks w' t = last_mark GetId (highWaterMarks w t) ?ms"
        unfolding r(2) by (simp only: send_fields group_frames_topic mine)
      moreover have "catchingUp w' = catchingUp w" "subscribed w' = subscribed w" "pending w' = pending w"
        unfolding r(2) by simp_all
      moreover have "?u = t \<Longrightarrow> t \<notin> catchingUp w" using False by auto
      ultimately show ?thesis
        using sub keyed by (auto simp: refines_def proj_event_def parse_one abs_topic_def pending_keyed_def split: sum.splits if_splits)
    qed
  qed
qed

lemma pending_keyed_mutate:
  "pending_keyed s w \<Longrightarrow> pending_keyed s (fst (dropTopic s' t w))"
  "pending_keyed s w \<Longrightarrow> pending_keyed s (fst (register_add h t a w acc))"
  "pending_keyed s w \<Longrightarrow> pending_keyed s (start_wave i acc w)"
  by (auto simp: pending_keyed_def dropTopic_fields forget_def register_add_def start_wave_def Let_def split: if_splits)

lemma pending_keyed_apply_removes: "pending_keyed s w \<Longrightarrow> pending_keyed s (fst (apply_removes s' wires w))"
proof (induction wires arbitrary: w)
  case (Cons wire wires)
  then show ?case using pending_keyed_mutate(1) [of s w s'] by (auto simp: and_then_def split: sum.splits option.splits)
qed simp

lemma pending_keyed_apply_adds: "pending_keyed s w \<Longrightarrow> pending_keyed s (fst (apply_adds s' h adds w acc))"
proof (induction adds arbitrary: w acc)
  case (Cons x adds)
  obtain t a where x: "x = (t, a)" by (cases x)
  obtain w1 e where d: "dropTopic s' t w = (w1, e)" by fastforce
  obtain w2 acc2 where r: "register_add h t a w acc = (w2, acc2)" by fastforce
  obtain w3 acc3 where r1: "register_add h t a w1 acc = (w3, acc3)" by fastforce
  have "pending_keyed s w1" using pending_keyed_mutate(1) [OF Cons.prems, of s' t] d by simp
  moreover from this have "pending_keyed s w3" using pending_keyed_mutate(2) [of s w1 h t a acc] r1 by simp
  moreover have "pending_keyed s w2" using pending_keyed_mutate(2) [OF Cons.prems, of h t a acc] r by simp
  ultimately show ?case using x d r r1 Cons by (cases e; cases h) simp_all
qed simp

lemma pending_keyed_handle_mutate: "handle_mutate s m w = (w', None) \<Longrightarrow> pending_keyed s w \<Longrightarrow> pending_keyed s w'"
proof -
  assume run: "handle_mutate s m w = (w', None)" and k: "pending_keyed s w"
  from handle_mutate_ok [OF run] obtain adds w1 w2 acc where
    rm: "apply_removes s (mt_Removes m) w = (w1, None)"
    and a: "apply_adds s (mt_HistoryOnly m) adds w1 no_adds = (w2, acc, None)"
    and last: "(if groupAdds acc \<noteq> [] \<or> welcomeAdds acc \<noteq> [] then (start_wave (mt_MutateId m) acc
        (w2\<lparr>subscribedTopics := subscribedTopics w2 + newlyLive acc, answered := answered w2 @ [mt_MutateId m]\<rparr>), None)
      else send s (catchupCompleteFrame (mt_MutateId m))
        (w2\<lparr>subscribedTopics := subscribedTopics w2 + newlyLive acc, answered := answered w2 @ [mt_MutateId m]\<rparr>)) = (w', None)" .
  let ?w3 = "w2\<lparr>subscribedTopics := subscribedTopics w2 + newlyLive acc, answered := answered w2 @ [mt_MutateId m]\<rparr>"
  have "w' = start_wave (mt_MutateId m) acc ?w3 \<or> w' = fst (send s (catchupCompleteFrame (mt_MutateId m)) ?w3)"
    using last by (auto split: if_splits)
  moreover have "pending_keyed s w2"
    using pending_keyed_apply_adds [OF pending_keyed_apply_removes [OF k], of s "mt_HistoryOnly m" adds s "mt_Removes m" no_adds] rm a
    by simp
  ultimately show ?thesis by (auto simp: pending_keyed_def start_wave_def Let_def)
qed

lemma handle_refines:
  assumes t: "t = BuildMLSV1GroupTopic g" and inv: "writer_inv w" and sub: "t \<in> subscribed w"
    and keyed: "pending_keyed s w" and ev: "leaves s t ev" and run: "handle s ev w = (w', v)" and ok: "clean v"
  shows "refines s t w (proj_event s t w ev) w'"
proof (cases ev)
  case (EvRequest req)
  have none: "refines s t w [] (fst (send s [PongFrame n] w))" if "snd (send s [PongFrame n] w) = None" for n
    using sub keyed grew_send [OF that, of t "[]"] by (intro refines_none) (simp_all add: pending_keyed_def)
  have pong: "refines s t w [] (w\<lparr>awaitingPong := False\<rparr>)" "refines s t w [] w"
    using sub keyed by (auto intro!: refines_none grew_refl simp: topic_state_def pending_keyed_def)
  show ?thesis
  proof (cases req)
    case (ReqMutate m)
    obtain w1 e where m: "handle_mutate s m w = (w1, e)" by fastforce
    show ?thesis
    proof (cases e)
      case None
      have "refines s t w [] w1"
        using handle_mutate_leaves [of s m w w1 t] pending_keyed_handle_mutate [of s m w w1] m None ev EvRequest ReqMutate sub keyed
        by (intro refines_none) (auto simp: leaves_def)
      then show ?thesis using run EvRequest ReqMutate m None pong
        by (auto simp: handle_def handle_request_def or_return_def proj_event_def split: if_splits)
    next
      case (Some x)
      then show ?thesis using run ok EvRequest ReqMutate m pong
        by (auto simp: handle_def handle_request_def or_return_def clean_def proj_event_def split: if_splits)
    qed
  qed (use run ok EvRequest none pong in
      \<open>auto simp: handle_def handle_request_def or_return_def clean_def proj_event_def split: if_splits option.splits\<close>)
next
  case (EvBatch b)
  then show ?thesis using handle_batch_refines [OF t inv sub keyed _ ok] run by (simp add: handle_def)
next
  case (EvEnvelope env)
  then have r: "handle_envelope s env w = (w', v)" using run by (simp add: handle_def)
  have "v = Continue"
    using r ok by (auto simp: handle_envelope_def Let_def or_return_def clean_def split_def split: if_splits option.splits)
  then show ?thesis using handle_envelope_refines [OF t sub keyed] r ev EvEnvelope by (simp add: leaves_def)
next
  case (EvTick now at)
  let ?p = "w\<lparr>pingNonce := pingNonce w + 1\<rparr>"
  let ?r = "send s [PingFrame (pingNonce w + 1)] ?p"
  have "refines s t w [] ((fst ?r)\<lparr>awaitingPong := True, pingSentAt := at\<rparr>)" if "snd ?r = None"
    using grew_send [OF that, of t "[]"] sub keyed
    by (intro refines_none) (simp_all add: topic_state_def pending_keyed_def grew_def)
  moreover have "refines s t w [] w" using sub keyed by (intro refines_none grew_refl) simp_all
  ultimately show ?thesis using run ok EvTick
    by (auto simp: handle_def handle_tick_def Let_def or_return_def clean_def proj_event_def split: if_splits option.splits)
next
  case (EvRequestClosed r)
  have "refines s t w [] (w\<lparr>halfClosed := True, awaitingPong := False\<rparr>)" "refines s t w [] w"
    using sub keyed by (auto intro!: refines_none grew_refl simp: topic_state_def pending_keyed_def)
  then show ?thesis using run EvRequestClosed by (auto simp: handle_def proj_event_def split: if_splits)
qed (use run sub keyed in \<open>auto simp: handle_def proj_event_def intro!: refines_none grew_refl\<close>)

lemma run_refines_inv:
  assumes t: "t = BuildMLSV1GroupTopic g" and inv: "writer_inv w" and sub: "t \<in> subscribed w"
    and keyed: "pending_keyed s w" and evs: "\<forall>ev \<in> set evs. leaves s t ev" and run: "run s evs w = (w', Continue)"
  shows "refines s t w (proj_run s t evs w) w' \<and> writer_inv w'"
  using inv sub keyed evs run
proof (induction evs arbitrary: w)
  case Nil
  then show ?case by (auto intro!: refines_none grew_refl)
next
  case (Cons ev evs)
  obtain w1 v1 where h: "handle s ev w = (w1, v1)" by fastforce
  with Cons.prems(5) have v: "v1 = Continue" "run s evs w1 = (w', Continue)" by (cases v1; simp)+
  have c: "clean v1" using v(1) by (simp add: clean_def)
  have 1: "refines s t w (proj_event s t w ev) w1"
    using Cons.prems h c by (intro handle_refines [OF t]) auto
  have "writer_inv w1" using writer_inv_handle [OF Cons.prems(1) h c] .
  then have 2: "refines s t w1 (proj_run s t evs w1) w'" "writer_inv w'"
    using Cons.IH [of w1] 1 Cons.prems(4) v(2) by (auto simp: refines_def)
  then show ?case using refines_trans [OF 1 2(1)] h by simp
qed

end
