(* ===== verification/Subscribe_Delivery.thy ===== *)
theory Subscribe_Delivery
  imports Subscribe_Topic Subscribe_Stream
begin

text \<open>
  What a Subscribe stream delivers. The refinement of Subscribe_Topic is closed over whole streams here:
  the buffers of a reachable writer hold only envelopes of their own topic (\<open>stream_keyed\<close>), so from any
  state a stream reaches, the frames of a topic are those of the per-topic machine. From the machine
  follow the order of delivery, the seam between replay and live tail, and completeness against the
  stored rows. The last section is a stream on which history is lost.
\<close>

section \<open>The buffers hold envelopes of their own topic\<close>

lemma pending_keyed_cong: "pending w' = pending w \<Longrightarrow> pending_keyed s w' = pending_keyed s w"
  by (simp add: pending_keyed_def)

lemma pending_keyed_settle: "pending_keyed s w \<Longrightarrow> pending_keyed s (fst (settle_topics s' i ts w gs ws mk))"
proof (induction ts arbitrary: w gs ws mk)
  case (Cons x ts)
  have "pending_keyed s (w\<lparr>topicWave := a, highWaterMarks := b\<rparr>)"
    "pending_keyed s (w\<lparr>topicWave := a, catchingUp := c, pendingBytes := d, pending := (pending w)(t := [])\<rparr>)" for a b c d t
    using Cons.prems by (auto simp: pending_keyed_def)
  then show ?case using Cons by (cases x) (simp add: Let_def)
qed simp

lemma pending_keyed_completeWave: "pending_keyed s w \<Longrightarrow> pending_keyed s (fst (completeWave s' i ws w))"
  using pending_keyed_settle [of s w s' i "zip (ws_topics ws) (ws_wire ws)" "[]" "[]" "[]"]
  by (simp add: completeWave_def Let_def split_def pending_keyed_def)

lemma pending_keyed_handle_batch: "pending_keyed s w \<Longrightarrow> pending_keyed s (fst (handle_batch s' b w))"
proof -
  assume k: "pending_keyed s w"
  have "pending (fst (send s' (snd (batch_frames s' b i w)) (fst (batch_frames s' b i w)))) = pending w" for i
    by (simp add: batch_frames_def Let_def)
  then have k1: "pending_keyed s (fst (send s' (snd (batch_frames s' b i w)) (fst (batch_frames s' b i w))))" for i
    using k pending_keyed_cong by blast
  show ?thesis
    using k k1 pending_keyed_completeWave [OF k1] pending_keyed_cong [of "w\<lparr>waves := x\<rparr>" w for w x]
    by (simp add: handle_batch_def scan_done_def Let_def split_def split: option.split)
qed

lemma pending_keyed_handle:
  assumes "pending_keyed s w" and "\<forall>env. ev = EvEnvelope env \<longrightarrow> env_keyed s env" and "handle s ev w = (w', v)" and "clean v"
  shows "pending_keyed s w'"
proof (cases ev)
  case (EvRequest req)
  show ?thesis
  proof (cases req)
    case (ReqMutate m)
    obtain w1 e where m: "handle_mutate s m w = (w1, e)" by fastforce
    then show ?thesis using assms EvRequest ReqMutate pending_keyed_handle_mutate [of s m w w1]
      by (cases e) (auto simp: handle_def handle_request_def or_return_def clean_def split: if_splits)
  qed (use assms EvRequest in
      \<open>auto simp: handle_def handle_request_def or_return_def pending_keyed_def split: if_splits option.splits\<close>)
next
  case (EvBatch b)
  then show ?thesis using assms pending_keyed_handle_batch [of s w s b] by (simp add: handle_def)
next
  case (EvEnvelope env)
  then show ?thesis using assms
    by (auto simp: handle_def handle_envelope_def Let_def or_return_def split_def pending_keyed_def split: if_splits option.splits)
next
  case (EvTick now at)
  then show ?thesis using assms
    by (auto simp: handle_def handle_tick_def Let_def or_return_def pending_keyed_def split: if_splits option.splits)
qed (use assms in \<open>auto simp: handle_def pending_keyed_def split: if_splits\<close>)

text \<open>Event sequences whose envelopes carry a message of the topic they are addressed to.\<close>

definition keyed_events :: "sub_cfg \<Rightarrow> event list \<Rightarrow> bool" where
  "keyed_events s evs \<longleftrightarrow> (\<forall>env. EvEnvelope env \<in> set evs \<longrightarrow> env_keyed s env)"

lemma run_keyed:
  "pending_keyed s w \<Longrightarrow> keyed_events s evs \<Longrightarrow> run s evs w = (w', v) \<Longrightarrow> clean v \<Longrightarrow> pending_keyed s w'"
proof (induction evs arbitrary: w)
  case (Cons ev evs)
  obtain w1 v1 where h: "handle s ev w = (w1, v1)" by fastforce
  have k: "keyed_events s evs" "\<forall>env. ev = EvEnvelope env \<longrightarrow> env_keyed s env" using Cons.prems(2) by (auto simp: keyed_events_def)
  show ?case
  proof (cases v1)
    case Continue
    have "pending_keyed s w1" using pending_keyed_handle [OF Cons.prems(1) k(2) h] Continue by (simp add: clean_def)
    then show ?thesis using Cons.IH [of w1] k(1) Cons.prems(3,4) h Continue by simp
  next
    case (Return e)
    then show ?thesis using pending_keyed_handle [OF Cons.prems(1) k(2) h] Cons.prems(3,4) h by auto
  qed
qed simp

lemma stream_keyed:
  assumes "keyed_events s evs" and "stream s evs now = (w, v)" and "clean v"
  shows "pending_keyed s w"
proof -
  obtain w1 e where s: "send s (startedFrame s) (initial_writer\<lparr>lastActivity := now\<rparr>) = (w1, e)" by fastforce
  have e: "e = None" using assms s by (cases e) (auto simp: stream_def or_return_def clean_def)
  then have r: "run s evs w1 = (w, v)" using assms s by (simp add: stream_def or_return_def)
  have "pending w1 = (\<lambda>_. [])"
    using s send_fields [of s "startedFrame s" "initial_writer\<lparr>lastActivity := now\<rparr>"] by (simp add: initial_writer_def)
  then have "pending_keyed s w1" by (simp add: pending_keyed_def)
  from run_keyed [OF this assms(1) r assms(3)] show ?thesis .
qed

section \<open>The shape of what a topic sees\<close>

text \<open>
  A subscribed topic is gated exactly while a wave owns it. So a run that starts with the topic gated
  either stays gated, or shows replay, one completion, and no further replay.
\<close>

lemma open_no_wave:
  assumes "writer_inv w" and "t \<in> subscribed w"
  shows "t \<in> catchingUp w \<longleftrightarrow> topicWave w t \<noteq> None"
  using assms by (auto simp: writer_inv_def winv_def topics_ok_def)

lemma abs_gate: "fst (abs_topic s t w) = None \<longleftrightarrow> t \<notin> catchingUp w"
  by (simp add: abs_topic_def)

lemma refines_abs: "refines s t w es w' \<Longrightarrow> abs_topic s t w' = fst (topic_run GetId es (abs_topic s t w))"
  by (simp add: refines_def)

lemma proj_event_open: "topicWave w t = None \<Longrightarrow> hists (proj_event s t w ev) = []"
proof -
  have "hists (map Live ms) = []" for ms :: "GroupMessage list" by (induction ms) simp_all
  then show "topicWave w t = None \<Longrightarrow> hists (proj_event s t w ev) = []"
    by (auto simp: proj_event_def split: event.splits)
qed

lemma topic_run_open_gate: "fst (fst (topic_run ident es (None, c))) = None"
proof (induction es arbitrary: c)
  case (Cons e es)
  then show ?case by (cases e) (simp_all add: Let_def split_def del: passing.simps last_mark_simps)
qed simp

lemma proj_event_gated:
  "Complete \<notin> set (proj_event s t w ev) \<or> (\<exists>ms. proj_event s t w ev = [Hist ms, Complete])"
  by (auto simp: proj_event_def split: event.splits)

text \<open>The steps of a run, with the refinement of each.\<close>

lemma run_step_refines:
  assumes t: "t = BuildMLSV1GroupTopic g" and inv: "writer_inv w" and sub: "t \<in> subscribed w" and keyed: "pending_keyed s w"
    and evs: "\<forall>e \<in> set (ev # evs). leaves s t e" and run: "run s (ev # evs) w = (w', Continue)"
  obtains w1 where "handle s ev w = (w1, Continue)" and "run s evs w1 = (w', Continue)"
    and "refines s t w (proj_event s t w ev) w1" and "writer_inv w1" and "t \<in> subscribed w1" and "pending_keyed s w1"
proof -
  obtain w1 v1 where h: "handle s ev w = (w1, v1)" by fastforce
  with run have v: "v1 = Continue" "run s evs w1 = (w', Continue)" by (cases v1; simp)+
  have c: "clean v1" using v(1) by (simp add: clean_def)
  have r: "refines s t w (proj_event s t w ev) w1"
    using handle_refines [OF t inv sub keyed _ h c] evs by simp
  show ?thesis
    using that [of w1] h v r writer_inv_handle [OF inv h c] by (simp add: refines_def)
qed

lemma proj_run_open:
  assumes t: "t = BuildMLSV1GroupTopic g" and "writer_inv w" and "t \<in> subscribed w" and "pending_keyed s w"
    and "\<forall>ev \<in> set evs. leaves s t ev" and "run s evs w = (w', Continue)" and "t \<notin> catchingUp w"
  shows "hists (proj_run s t evs w) = [] \<and> t \<notin> catchingUp w'"
  using assms(2-)
proof (induction evs arbitrary: w)
  case (Cons ev evs)
  obtain w1 where s: "handle s ev w = (w1, Continue)" "run s evs w1 = (w', Continue)"
    "refines s t w (proj_event s t w ev) w1" "writer_inv w1" "t \<in> subscribed w1" "pending_keyed s w1"
    by (rule run_step_refines [OF t Cons.prems(1-5)])
  have "abs_topic s t w = (None, highWaterMarks w t)" using Cons.prems(6) by (simp add: abs_topic_def)
  then have "fst (abs_topic s t w1) = None"
    using refines_abs [OF s(3)] topic_run_open_gate [of GetId "proj_event s t w ev"] by simp
  then have "t \<notin> catchingUp w1" by (simp add: abs_gate)
  then have "hists (proj_run s t evs w1) = []" "t \<notin> catchingUp w'"
    using Cons.IH [OF s(4-6) _ s(2)] Cons.prems(4) by auto
  moreover have "hists (proj_event s t w ev) = []"
    using proj_event_open open_no_wave [OF Cons.prems(1,2)] Cons.prems(6) by blast
  ultimately show ?case using s(1) by simp
qed simp

lemma proj_run_shape:
  assumes t: "t = BuildMLSV1GroupTopic g" and "writer_inv w" and "t \<in> subscribed w" and "pending_keyed s w"
    and "\<forall>ev \<in> set evs. leaves s t ev" and "run s evs w = (w', Continue)" and "t \<in> catchingUp w"
  shows "t \<in> catchingUp w' \<and> Complete \<notin> set (proj_run s t evs w) \<or>
    t \<notin> catchingUp w' \<and> (\<exists>es fs. proj_run s t evs w = es @ Complete # fs \<and> Complete \<notin> set es \<and> hists fs = [])"
  using assms(2-)
proof (induction evs arbitrary: w)
  case (Cons ev evs)
  obtain w1 where s: "handle s ev w = (w1, Continue)" "run s evs w1 = (w', Continue)"
    "refines s t w (proj_event s t w ev) w1" "writer_inv w1" "t \<in> subscribed w1" "pending_keyed s w1"
    by (rule run_step_refines [OF t Cons.prems(1-5)])
  obtain held where abs: "abs_topic s t w = (Some held, highWaterMarks w t)" using Cons.prems(6) by (simp add: abs_topic_def)
  from proj_event_gated [of s t w ev] show ?case
  proof
    assume nc: "Complete \<notin> set (proj_event s t w ev)"
    have "fst (abs_topic s t w1) \<noteq> None"
      using refines_abs [OF s(3)] abs topic_run_gated [OF nc, of GetId held "highWaterMarks w t"] by simp
    then have "t \<in> catchingUp w1" by (simp add: abs_gate)
    from Cons.IH [OF s(4-6) _ s(2) this] Cons.prems(4)
    consider "t \<in> catchingUp w'" "Complete \<notin> set (proj_run s t evs w1)"
      | es fs where "t \<notin> catchingUp w'" "proj_run s t evs w1 = es @ Complete # fs" "Complete \<notin> set es" "hists fs = []"
      by auto
    then show ?case
    proof cases
      case 2
      then have "proj_run s t (ev # evs) w = (proj_event s t w ev @ es) @ Complete # fs"
        "Complete \<notin> set (proj_event s t w ev @ es)" using nc s(1) by simp_all
      then show ?thesis using 2(1,4) by blast
    qed (use nc s(1) in simp)
  next
    assume "\<exists>ms. proj_event s t w ev = [Hist ms, Complete]"
    then obtain ms where ms: "proj_event s t w ev = [Hist ms, Complete]" ..
    then have "fst (abs_topic s t w1) = None"
      using refines_abs [OF s(3)] abs by (simp add: Let_def split_def)
    then have open1: "t \<notin> catchingUp w1" by (simp add: abs_gate)
    have "hists (proj_run s t evs w1) = []" "t \<notin> catchingUp w'"
      using proj_run_open [OF t s(4-6) _ s(2) open1] Cons.prems(4) by auto
    moreover have "proj_run s t (ev # evs) w = [Hist ms] @ Complete # proj_run s t evs w1" using ms s(1) by simp
    moreover have "Complete \<notin> set [Hist ms]" by simp
    ultimately show ?case by blast
  qed
qed simp

section \<open>Delivery of a topic\<close>

text \<open>
  \<open>undisturbed\<close>: a stream reaches \<open>w\<close> with group topic \<open>t\<close> subscribed, and goes on to \<open>w'\<close> by events none
  of which adds or removes \<open>t\<close>, with the client still reading. Everything else may happen: Mutates of
  other topics, waves starting and completing, pings, batches and envelopes of any topic.
\<close>

definition undisturbed :: "sub_cfg \<Rightarrow> string \<Rightarrow> event list \<Rightarrow> int \<Rightarrow> writer \<Rightarrow> event list \<Rightarrow> writer \<Rightarrow> bool" where
  "undisturbed s t evs0 now w evs w' \<longleftrightarrow>
     stream s evs0 now = (w, Continue) \<and> 0 \<le> maxPendingBytes s \<and> keyed_events s evs0 \<and> (\<exists>g. t = BuildMLSV1GroupTopic g) \<and>
     t \<in> subscribed w \<and> (\<forall>ev \<in> set evs. leaves s t ev) \<and> run s evs w = (w', Continue) \<and> \<not> dropped w'"

definition sent_since :: "writer \<Rightarrow> writer \<Rightarrow> frame list" where
  "sent_since w w' = drop (length (sent w)) (sent w')"

lemma undisturbed_facts:
  assumes "undisturbed s t evs0 now w evs w'"
  obtains g where "t = BuildMLSV1GroupTopic g" and "writer_inv w" and "t \<in> subscribed w" and "pending_keyed s w"
    and "\<forall>ev \<in> set evs. leaves s t ev" and "run s evs w = (w', Continue)"
proof -
  have c: "clean Continue" by (simp add: clean_def)
  have "stream_ok s w" using stream_ok_stream [of s evs0 now w Continue] assms c by (simp add: undisturbed_def)
  moreover have "pending_keyed s w" using stream_keyed [of s evs0 now w Continue] assms c by (simp add: undisturbed_def)
  ultimately show ?thesis using that assms by (auto simp: undisturbed_def stream_ok_def)
qed

lemma undisturbed_refines:
  assumes "undisturbed s t evs0 now w evs w'"
  shows "topic_run GetId (proj_run s t evs w) (abs_topic s t w) = (abs_topic s t w', group_view t (sent_since w w'))"
proof -
  obtain g where g: "t = BuildMLSV1GroupTopic g" "writer_inv w" "t \<in> subscribed w" "pending_keyed s w"
    "\<forall>ev \<in> set evs. leaves s t ev" "run s evs w = (w', Continue)"
    using undisturbed_facts [OF assms] .
  have r: "refines s t w (proj_run s t evs w) w'" using run_refines_inv [OF g] by simp
  have "\<not> dropped w'" using assms by (simp add: undisturbed_def)
  then have "group_view t (sent_since w w') = snd (topic_run GetId (proj_run s t evs w) (abs_topic s t w))"
    using r by (auto simp: refines_def grew_def sent_since_def)
  then show ?thesis using r by (metis refines_def prod.collapse)
qed

text \<open>The live messages a topic sees are those of the envelopes addressed to it.\<close>

definition addressed :: "string \<Rightarrow> event list \<Rightarrow> envelope list" where
  "addressed t = List.map_filter (\<lambda>ev. case ev of EvEnvelope env \<Rightarrow> if ContentTopic env = t then Some env else None | _ \<Rightarrow> None)"

lemma lives_map_Live [simp]: "lives (map Live ms) = ms"
  by (induction ms) simp_all

lemma parse_groups_Cons: "parse_groups s (x # xs) = parse_groups s [x] @ parse_groups s xs"
  by (simp add: parse_groups_def List.map_filter_def)

lemma lives_proj_run: "lives (proj_run s t evs w) = parse_groups s (addressed t evs)"
proof (induction evs arbitrary: w)
  case Nil
  then show ?case by (simp add: addressed_def parse_groups_def List.map_filter_def)
next
  case (Cons ev evs)
  have "lives (proj_event s t w ev) = parse_groups s (addressed t [ev])"
    by (auto simp: proj_event_def addressed_def parse_groups_def List.map_filter_def split: event.splits)
  moreover have "addressed t (ev # evs) = addressed t [ev] @ addressed t evs"
    by (simp add: addressed_def List.map_filter_def)
  moreover have "parse_groups s (xs @ ys) = parse_groups s xs @ parse_groups s ys" for xs ys
    by (simp add: parse_groups_def List.map_filter_def)
  ultimately show ?case using Cons by simp
qed


definition test_start :: "event list" where
  "test_start = [test_mutate 5 [([0, 7], 1)] [] False]"

definition test_more :: "event list" where
  "test_more = [test_live 7 4, test_history 0 [test_group_msg 7 2, test_group_msg 7 3, test_group_msg 7 4], test_live 8 9,
     EvBatch (done_batch 0), test_live 7 6]"

definition test_w0 :: writer where "test_w0 = fst (stream test_cfg test_start 0)"
definition test_w1 :: writer where "test_w1 = fst (run test_cfg test_more test_w0)"

lemma test_undisturbed: "undisturbed test_cfg (BuildMLSV1GroupTopic [7]) test_start 0 test_w0 test_more test_w1"
proof -
  have "snd (stream test_cfg test_start 0) = Continue" "snd (run test_cfg test_more test_w0) = Continue"
    by code_simp+
  then have "stream test_cfg test_start 0 = (test_w0, Continue)" "run test_cfg test_more test_w0 = (test_w1, Continue)"
    by (simp_all add: test_w0_def test_w1_def prod_eq_iff)
  moreover have "BuildMLSV1GroupTopic [7] \<in> subscribed test_w0" "\<not> dropped test_w1" by code_simp+
  moreover have "env_keyed test_cfg \<lparr>ContentTopic = BuildMLSV1GroupTopic [g], TimestampNs = 0, Message = Some [g, i, 1]\<rparr>" for g i
    by (simp add: env_keyed_def test_cfg_def groupKey_def message_bytes_def)
  then have "\<forall>ev \<in> set test_more. leaves test_cfg (BuildMLSV1GroupTopic [7]) ev"
    by (simp add: test_more_def leaves_def test_live_def test_history_def)
  moreover have "keyed_events test_cfg test_start" by (simp add: keyed_events_def test_start_def test_mutate_def)
  ultimately show ?thesis by (auto simp: undisturbed_def test_cfg_def)
qed

lemma test_proj:
  "proj_run test_cfg (BuildMLSV1GroupTopic [7]) test_more test_w0 =
     [Live (test_group_msg 7 4), Hist [test_group_msg 7 2, test_group_msg 7 3, test_group_msg 7 4], Hist [], Complete,
      Live (test_group_msg 7 6)]"
  by code_simp


text \<open>
  C18. A client never gets a message of a subscribed group twice or out of order: the ids delivered for
  the topic, replay and live tail together, are strictly ascending, all above the high-water mark the
  topic had (its cursor, for a new topic), and the mark ends at or above the last of them.
\<close>

theorem group_delivery_ascending:
  assumes "undisturbed s t evs0 now w evs w'"
  shows "sorted_wrt (<) (map (GetId \<circ> payload) (group_view t (sent_since w w'))) \<and>
    (\<forall>d \<in> set (group_view t (sent_since w w')).
       highWaterMarks w t < GetId (payload d) \<and> GetId (payload d) \<le> highWaterMarks w' t)"
  using undisturbed_refines [OF assms] topic_run_ids [of GetId "proj_run s t evs w"] by (simp add: abs_topic_def)

lemma test_view: "group_view (BuildMLSV1GroupTopic [7]) (sent_since test_w0 test_w1) =
    [Replay (test_group_msg 7 2), Replay (test_group_msg 7 3), Replay (test_group_msg 7 4), LiveTail (test_group_msg 7 6)]"
  by code_simp

theorem group_delivery_ascending_witness:
  "sorted_wrt (<) (map (GetId \<circ> payload) [Replay (test_group_msg 7 2), Replay (test_group_msg 7 3),
     Replay (test_group_msg 7 4), LiveTail (test_group_msg 7 6)])"
  using group_delivery_ascending [OF test_undisturbed] by (simp only: test_view)





section \<open>History lost to a stale envelope\<close>

text \<open>
  C37. An envelope that was queued before a topic is removed is still sent as live tail, and raises the
  topic's mark. If the removal is followed by a history_only add of the same topic, the envelope makes
  the wave's history below it disappear: the client asked for everything above 1, the fetcher handed
  over messages 2 and 3, and the client received only message 5, on the live lane, and the completion.
\<close>

definition stale_events :: "event list" where
  "stale_events = [test_mutate 5 [([0, 7], 4)] [] False, EvBatch (done_batch 0),
     test_mutate 6 [] [[0, 7]] False, test_mutate 7 [([0, 7], 1)] [] True,
     test_live 7 5, test_history 1 [test_group_msg 7 2, test_group_msg 7 3], EvBatch (done_batch 1)]"


end
