(* ===== verification/Sender.thy ===== *)
theory Sender
  imports Frames
begin

text \<open>
  The sender goroutine of a Subscribe stream and the bounded channel between it and the writer
  (\<open>outbound\<close>, \<open>sendErrCh\<close>, \<open>senderDone\<close>, \<open>flush\<close> in pkg/mls/api/v1/subscribe.go), at the granularity of
  channel operations. The writer hands batches over and at some point leaves the handler, either at
  once or after a flush; the sender takes batches and passes their frames to \<open>stream.Send\<close>. Both run
  concurrently: a schedule is a list of actions.

  \<open>accepted\<close> and \<open>delivered\<close> are histories: the frames the channel accepted and those \<open>stream.Send\<close>
  took without an error. Shown for every schedule: what was delivered is a prefix of what was accepted,
  the backlog is bounded, a clean return without a cancelled context means that everything was
  delivered, and a flush ends as long as the client reads.
\<close>

section \<open>State and steps\<close>

datatype phase = Running | Flushing | Returned "go_error option"

record pipe =
  outbound :: "frame list list"
  outbound_closed :: bool
  in_hand :: "frame list"
  sender_done :: bool
  sendErrCh :: "go_error option"
  accepted :: "frame list"
  delivered :: "frame list"
  ctx_done :: bool
  phase :: phase

definition initial_pipe :: pipe where
  "initial_pipe = \<lparr>outbound = [], outbound_closed = False, in_hand = [], sender_done = False, sendErrCh = None,
     accepted = [], delivered = [], ctx_done = False, phase = Running\<rparr>"

text \<open>
  The sender: take a batch, send its frames one by one, stop on an error (which is left in the one-slot
  error channel), and exit once the channel is closed and empty.
\<close>

definition sender_take :: "pipe \<Rightarrow> pipe option" where
  "sender_take p = (case outbound p of
       [] \<Rightarrow> None
     | batch # rest \<Rightarrow>
         if sender_done p \<or> in_hand p \<noteq> [] then None else Some (p\<lparr>outbound := rest, in_hand := batch\<rparr>))"

definition sender_send :: "go_error option \<Rightarrow> pipe \<Rightarrow> pipe option" where
  "sender_send err p = (case in_hand p of
       [] \<Rightarrow> None
     | resp # rest \<Rightarrow>
         if sender_done p then None
         else (case err of
             None \<Rightarrow> Some (p\<lparr>in_hand := rest, delivered := delivered p @ [resp]\<rparr>)
           | Some e \<Rightarrow> Some (p\<lparr>sender_done := True, sendErrCh := if sendErrCh p = None then Some e else sendErrCh p\<rparr>)))"

definition sender_exit :: "pipe \<Rightarrow> pipe option" where
  "sender_exit p =
     (if in_hand p = [] \<and> outbound p = [] \<and> outbound_closed p \<and> \<not> sender_done p
      then Some (p\<lparr>sender_done := True\<rparr>) else None)"

text \<open>
  The writer: hand a non-empty batch to the channel if it has room, observe a send error (in \<open>send\<close> and in
  the main select, which both return it), start a flush, or leave. It leaves without an error only when
  the stream's context is done; every way out closes the channel.
\<close>

definition hand_over :: "nat \<Rightarrow> frame list \<Rightarrow> pipe \<Rightarrow> pipe option" where
  "hand_over depth flat p =
     (if phase p = Running \<and> flat \<noteq> [] \<and> length (outbound p) < depth
      then Some (p\<lparr>outbound := outbound p @ [flat], accepted := accepted p @ flat\<rparr>) else None)"

definition observe_err :: "pipe \<Rightarrow> pipe option" where
  "observe_err p =
     (if phase p = Running \<and> sendErrCh p \<noteq> None
      then Some (p\<lparr>phase := Returned (sendErrCh p), sendErrCh := None, outbound_closed := True\<rparr>) else None)"

definition leave :: "go_error option \<Rightarrow> pipe \<Rightarrow> pipe option" where
  "leave e p =
     (if phase p = Running \<and> (e = None \<longrightarrow> ctx_done p)
      then Some (p\<lparr>phase := Returned e, outbound_closed := True\<rparr>) else None)"

definition begin_flush :: "pipe \<Rightarrow> pipe option" where
  "begin_flush p = (if phase p = Running then Some (p\<lparr>phase := Flushing, outbound_closed := True\<rparr>) else None)"

text \<open>The three cases of the select in \<open>flush\<close>.\<close>

definition flush_done :: "pipe \<Rightarrow> pipe option" where
  "flush_done p =
     (if phase p = Flushing \<and> sender_done p then Some (p\<lparr>phase := Returned (sendErrCh p), sendErrCh := None\<rparr>) else None)"

definition flush_cancelled :: "pipe \<Rightarrow> pipe option" where
  "flush_cancelled p = (if phase p = Flushing \<and> ctx_done p then Some (p\<lparr>phase := Returned None\<rparr>) else None)"

definition flush_timeout :: "pipe \<Rightarrow> pipe option" where
  "flush_timeout p =
     (if phase p = Flushing
      then Some (p\<lparr>phase := Returned (Some (Status DeadlineExceeded ''flush timed out waiting for sender to drain''))\<rparr>)
      else None)"

datatype pipe_action =
    HandOver "frame list" | ObserveErr | Leave "go_error option" | BeginFlush | FlushDone | FlushCancelled | FlushTimeout
  | Take | Send "go_error option" | Exit | Cancel

definition pipe_step :: "nat \<Rightarrow> pipe_action \<Rightarrow> pipe \<Rightarrow> pipe option" where
  "pipe_step depth a p =
     (case a of
        HandOver flat \<Rightarrow> hand_over depth flat p
      | ObserveErr \<Rightarrow> observe_err p
      | Leave e \<Rightarrow> leave e p
      | BeginFlush \<Rightarrow> begin_flush p
      | FlushDone \<Rightarrow> flush_done p
      | FlushCancelled \<Rightarrow> flush_cancelled p
      | FlushTimeout \<Rightarrow> flush_timeout p
      | Take \<Rightarrow> sender_take p
      | Send err \<Rightarrow> sender_send err p
      | Exit \<Rightarrow> sender_exit p
      | Cancel \<Rightarrow> Some (p\<lparr>ctx_done := True\<rparr>))"

lemmas pipe_step_defs = pipe_step_def hand_over_def observe_err_def leave_def begin_flush_def flush_done_def
  flush_cancelled_def flush_timeout_def sender_take_def sender_send_def sender_exit_def

fun pipe_run :: "nat \<Rightarrow> pipe_action list \<Rightarrow> pipe \<Rightarrow> pipe option" where
  "pipe_run depth [] p = Some p"
| "pipe_run depth (a # as) p = (case pipe_step depth a p of None \<Rightarrow> None | Some p' \<Rightarrow> pipe_run depth as p')"

lemma pipe_run_append:
  "pipe_run depth (as @ bs) p = (case pipe_run depth as p of None \<Rightarrow> None | Some p' \<Rightarrow> pipe_run depth bs p')"
  by (induction as arbitrary: p) (auto split: option.split)

definition sendQueueDepth :: nat where
  "sendQueueDepth = 8"

section \<open>Invariant\<close>

text \<open>
  While the sender runs, the frames accepted are those delivered, in its hand and in the channel, in this
  order. Once it stopped, it either delivered all of them or left an error for the writer to find.
\<close>

definition pipe_inv :: "nat \<Rightarrow> pipe \<Rightarrow> bool" where
  "pipe_inv depth p \<longleftrightarrow>
     (\<exists>rest. accepted p = delivered p @ rest) \<and>
     (\<not> sender_done p \<longrightarrow> accepted p = delivered p @ in_hand p @ concat (outbound p)) \<and>
     (sender_done p \<longrightarrow> delivered p = accepted p \<and> outbound_closed p \<or> sendErrCh p \<noteq> None \<or> (\<exists>e. phase p = Returned (Some e))) \<and>
     length (outbound p) \<le> depth \<and>
     (phase p = Running \<longleftrightarrow> \<not> outbound_closed p) \<and>
     (phase p = Returned None \<longrightarrow> ctx_done p \<or> delivered p = accepted p)"

lemma pipe_inv_initial: "pipe_inv depth initial_pipe"
  by (simp add: pipe_inv_def initial_pipe_def)

lemma pipe_invI:
  assumes "accepted p = delivered p @ rest"
    and "\<not> sender_done p \<Longrightarrow> rest = in_hand p @ concat (outbound p)"
    and "sender_done p \<Longrightarrow> rest = [] \<and> outbound_closed p \<or> sendErrCh p \<noteq> None \<or> (\<exists>e. phase p = Returned (Some e))"
    and "length (outbound p) \<le> depth" and "phase p = Running \<longleftrightarrow> \<not> outbound_closed p"
    and "phase p = Returned None \<Longrightarrow> ctx_done p \<or> rest = []"
  shows "pipe_inv depth p"
  using assms by (auto simp: pipe_inv_def)

lemma pipe_invE:
  assumes "pipe_inv depth p"
  obtains rest where "accepted p = delivered p @ rest"
    and "\<not> sender_done p \<Longrightarrow> rest = in_hand p @ concat (outbound p)"
    and "sender_done p \<Longrightarrow> rest = [] \<and> outbound_closed p \<or> sendErrCh p \<noteq> None \<or> (\<exists>e. phase p = Returned (Some e))"
    and "length (outbound p) \<le> depth" and "phase p = Running \<longleftrightarrow> \<not> outbound_closed p"
    and "phase p = Returned None \<Longrightarrow> ctx_done p \<or> rest = []"
  using assms unfolding pipe_inv_def by (elim conjE exE) force

lemma pipe_inv_send:
  assumes step: "sender_send err p = Some p'" and "pipe_inv depth p"
  shows "pipe_inv depth p'"
proof -
  obtain rest where r: "accepted p = delivered p @ rest"
    "\<not> sender_done p \<Longrightarrow> rest = in_hand p @ concat (outbound p)"
    "length (outbound p) \<le> depth" "phase p = Running \<longleftrightarrow> \<not> outbound_closed p"
    "phase p = Returned None \<Longrightarrow> ctx_done p \<or> rest = []"
    using pipe_invE [OF assms(2)] by metis
  obtain resp fs where s: "in_hand p = resp # fs" "\<not> sender_done p"
    using step by (auto simp: sender_send_def split: list.split_asm if_split_asm)
  show ?thesis
  proof (cases err)
    case None
    then have "p' = p\<lparr>in_hand := fs, delivered := delivered p @ [resp]\<rparr>" using step s by (simp add: sender_send_def)
    then show ?thesis using r s by (intro pipe_invI [where rest = "fs @ concat (outbound p)"]) auto
  next
    case (Some e)
    then have "p' = p\<lparr>sender_done := True, sendErrCh := if sendErrCh p = None then Some e else sendErrCh p\<rparr>"
      using step s by (simp add: sender_send_def)
    then show ?thesis using r by (intro pipe_invI [where rest = rest]) auto
  qed
qed

lemma pipe_inv_step:
  assumes step: "pipe_step depth a p = Some p'" and "pipe_inv depth p"
  shows "pipe_inv depth p'"
proof -
  obtain rest where r: "accepted p = delivered p @ rest"
    "\<not> sender_done p \<Longrightarrow> rest = in_hand p @ concat (outbound p)"
    "sender_done p \<Longrightarrow> rest = [] \<and> outbound_closed p \<or> sendErrCh p \<noteq> None \<or> (\<exists>e. phase p = Returned (Some e))"
    "length (outbound p) \<le> depth" "phase p = Running \<longleftrightarrow> \<not> outbound_closed p"
    "phase p = Returned None \<Longrightarrow> ctx_done p \<or> rest = []"
    using pipe_invE [OF assms(2)] by metis
  show ?thesis
  proof (cases a)
    case (HandOver flat)
    then have "phase p = Running" "length (outbound p) < depth" "p' = p\<lparr>outbound := outbound p @ [flat], accepted := accepted p @ flat\<rparr>"
      using step by (simp_all add: pipe_step_def hand_over_def split: if_split_asm)
    then show ?thesis using r by (intro pipe_invI [where rest = "rest @ flat"]) auto
  next
    case (Send err)
    then show ?thesis using step pipe_inv_send [OF _ assms(2)] by (simp add: pipe_step_def)
  next
    case Take
    then obtain b bs where "outbound p = b # bs" "in_hand p = []" "\<not> sender_done p" "p' = p\<lparr>outbound := bs, in_hand := b\<rparr>"
      using step by (auto simp: pipe_step_def sender_take_def split: list.split_asm if_split_asm)
    then show ?thesis using r by (intro pipe_invI [where rest = rest]) auto
  next
    case ObserveErr
    then obtain e where "sendErrCh p = Some e" "phase p = Running" "p' = p\<lparr>phase := Returned (Some e), sendErrCh := None, outbound_closed := True\<rparr>"
      using step by (auto simp: pipe_step_def observe_err_def split: if_split_asm)
    then show ?thesis using r by (intro pipe_invI [where rest = rest]) auto
  next
    case (Leave e)
    then have "phase p = Running" "e = None \<longrightarrow> ctx_done p" "p' = p\<lparr>phase := Returned e, outbound_closed := True\<rparr>"
      using step by (simp_all add: pipe_step_def leave_def split: if_split_asm)
    then show ?thesis using r by (intro pipe_invI [where rest = rest]) auto
  next
    case BeginFlush
    then have "phase p = Running" "p' = p\<lparr>phase := Flushing, outbound_closed := True\<rparr>"
      using step by (simp_all add: pipe_step_def begin_flush_def split: if_split_asm)
    then show ?thesis using r by (intro pipe_invI [where rest = rest]) auto
  next
    case FlushDone
    then have "phase p = Flushing" "sender_done p" "p' = p\<lparr>phase := Returned (sendErrCh p), sendErrCh := None\<rparr>"
      using step by (simp_all add: pipe_step_def flush_done_def split: if_split_asm)
    then show ?thesis using r by (intro pipe_invI [where rest = rest]) auto
  next
    case FlushCancelled
    then have "phase p = Flushing" "ctx_done p" "p' = p\<lparr>phase := Returned None\<rparr>"
      using step by (simp_all add: pipe_step_def flush_cancelled_def split: if_split_asm)
    then show ?thesis using r by (intro pipe_invI [where rest = rest]) auto
  next
    case FlushTimeout
    then obtain e where "phase p = Flushing" "p' = p\<lparr>phase := Returned (Some e)\<rparr>"
      using step by (auto simp: pipe_step_def flush_timeout_def split: if_split_asm)
    then show ?thesis using r by (intro pipe_invI [where rest = rest]) auto
  next
    case Exit
    then have "in_hand p = []" "outbound p = []" "outbound_closed p" "\<not> sender_done p" "p' = p\<lparr>sender_done := True\<rparr>"
      using step by (simp_all add: pipe_step_def sender_exit_def split: if_split_asm)
    then show ?thesis using r by (intro pipe_invI [where rest = rest]) auto
  next
    case Cancel
    then have "p' = p\<lparr>ctx_done := True\<rparr>" using step by (simp add: pipe_step_def)
    then show ?thesis using r by (intro pipe_invI [where rest = rest]) auto
  qed
qed

lemma pipe_inv_run: "pipe_run depth as p = Some p' \<Longrightarrow> pipe_inv depth p \<Longrightarrow> pipe_inv depth p'"
  by (induction as arbitrary: p) (auto split: option.split_asm dest: pipe_inv_step)

lemma pipe_run_inv: "pipe_run depth as initial_pipe = Some p \<Longrightarrow> pipe_inv depth p"
  by (rule pipe_inv_run [OF _ pipe_inv_initial])

lemma delivered_prefix:
  "pipe_run depth as initial_pipe = Some p \<Longrightarrow> \<exists>rest. accepted p = delivered p @ rest"
  using pipe_run_inv unfolding pipe_inv_def by blast

lemma clean_return_delivers:
  "pipe_run depth as initial_pipe = Some p \<Longrightarrow> phase p = Returned None \<Longrightarrow> \<not> ctx_done p \<Longrightarrow> delivered p = accepted p"
  using pipe_run_inv unfolding pipe_inv_def by blast

section \<open>A flush ends\<close>

text \<open>The schedule of a sender whose sends succeed, and the writer waiting for it.\<close>

definition send_all :: "frame list \<Rightarrow> pipe_action list" where
  "send_all batch = replicate (length batch) (Send None)"

definition drain :: "pipe \<Rightarrow> pipe_action list" where
  "drain p = send_all (in_hand p) @ concat (map (\<lambda>batch. Take # send_all batch) (outbound p)) @ [Exit, FlushDone]"

lemma run_send_all:
  "\<not> sender_done p \<Longrightarrow> pipe_run depth (send_all (in_hand p)) p = Some (p\<lparr>in_hand := [], delivered := delivered p @ in_hand p\<rparr>)"
proof (induction "in_hand p" arbitrary: p)
  case (Cons f fs)
  let ?p = "p\<lparr>in_hand := fs, delivered := delivered p @ [f]\<rparr>"
  have "pipe_run depth (send_all fs) ?p = Some (?p\<lparr>in_hand := [], delivered := delivered ?p @ fs\<rparr>)"
    using Cons.hyps(1) [of ?p] Cons.prems by simp
  then show ?case using Cons.hyps(2) [symmetric] Cons.prems by (simp add: send_all_def pipe_step_def sender_send_def)
qed (simp add: send_all_def)

lemma run_drain_queue:
  "\<not> sender_done p \<Longrightarrow> in_hand p = [] \<Longrightarrow>
     pipe_run depth (concat (map (\<lambda>batch. Take # send_all batch) (outbound p))) p =
       Some (p\<lparr>outbound := [], delivered := delivered p @ concat (outbound p)\<rparr>)"
proof (induction "outbound p" arbitrary: p)
  case (Cons b bs)
  let ?p = "p\<lparr>outbound := bs, in_hand := b\<rparr>"
  let ?q = "?p\<lparr>in_hand := [], delivered := delivered ?p @ b\<rparr>"
  have "pipe_run depth (send_all b) ?p = Some ?q"
    using run_send_all [of ?p depth] Cons.prems by simp
  moreover have "pipe_step depth Take p = Some ?p"
    using Cons.hyps(2) [symmetric] Cons.prems by (simp add: pipe_step_def sender_take_def)
  moreover have "pipe_run depth (concat (map (\<lambda>batch. Take # send_all batch) bs)) ?q =
      Some (?q\<lparr>outbound := [], delivered := delivered ?q @ concat bs\<rparr>)"
    using Cons.hyps(1) [of ?q] Cons.prems by simp
  ultimately show ?case using Cons.hyps(2) [symmetric] Cons.prems by (simp add: pipe_run_append)
qed simp

lemma flush_drains:
  assumes "pipe_inv depth p" and "phase p = Flushing" and "\<not> sender_done p"
  shows "\<exists>p'. pipe_run depth (drain p) p = Some p' \<and> phase p' = Returned (sendErrCh p) \<and> delivered p' = accepted p"
proof -
  let ?p1 = "p\<lparr>in_hand := [], delivered := delivered p @ in_hand p\<rparr>"
  let ?p2 = "?p1\<lparr>outbound := [], delivered := delivered ?p1 @ concat (outbound p)\<rparr>"
  have "pipe_run depth (send_all (in_hand p)) p = Some ?p1" using run_send_all assms(3) .
  moreover have "pipe_run depth (concat (map (\<lambda>batch. Take # send_all batch) (outbound p))) ?p1 = Some ?p2"
    using run_drain_queue [of ?p1 depth] assms(3) by simp
  moreover have "outbound_closed p" "accepted p = delivered p @ in_hand p @ concat (outbound p)"
    using assms by (auto simp: pipe_inv_def)
  ultimately show ?thesis using assms(2,3)
    by (simp add: drain_def pipe_run_append pipe_step_def sender_exit_def flush_done_def)
qed

end
