(* ===== verification/Subscribe_Session.thy ===== *)
theory Subscribe_Session
  imports Sender Subscribe_Stream
begin

text \<open>
  A whole Subscribe call (pkg/mls/api/v1/subscribe.go): the frame reader, the writer of
  \<open>Subscribe_Writer\<close> and the sender of \<open>Sender\<close> side by side. The three meet only in channels: the
  reader's requests reach the writer in order, and the frames the writer sends are those the
  outbound channel accepts. \<open>session\<close> says that a run of each fits the others; the theorems
  state what the client at the other end of the stream may rely on.
\<close>

section \<open>The frame reader\<close>

text \<open>The ways \<open>stream.Recv\<close> returns. After an error the reader closes the request channel and ends.\<close>

datatype recv_error = RecvCanceled | RecvEOF | RecvContextCanceled | RecvFailed go_error

datatype recv = Received client_frame | RecvErr recv_error

definition recvErr :: "recv_error \<Rightarrow> go_error option" where
  "recvErr err = (case err of RecvFailed e \<Rightarrow> Some e | _ \<Rightarrow> None)"

fun frame_reader :: "recv list \<Rightarrow> event list" where
  "frame_reader [] = []"
| "frame_reader (Received req # rs) = EvRequest req # frame_reader rs"
| "frame_reader (RecvErr err # rs) = [EvRequestClosed (recvErr err)]"

text \<open>The request side of the writer's events.\<close>

definition from_reader :: "event \<Rightarrow> bool" where
  "from_reader ev = (case ev of EvRequest _ \<Rightarrow> True | EvRequestClosed _ \<Rightarrow> True | _ \<Rightarrow> False)"

definition requests :: "event list \<Rightarrow> client_frame list" where
  "requests = List.map_filter (\<lambda>ev. case ev of EvRequest req \<Rightarrow> Some req | _ \<Rightarrow> None)"

definition mutate_ids :: "client_frame list \<Rightarrow> u64 list" where
  "mutate_ids = List.map_filter (\<lambda>req. case req of ReqMutate m \<Rightarrow> Some (mt_MutateId m) | _ \<Rightarrow> None)"

lemma requests_simps [simp]:
  "requests [] = []" "requests (EvRequest req # evs) = req # requests evs"
  "\<not> from_reader ev \<Longrightarrow> requests (ev # evs) = requests evs"
  "requests (evs @ evs') = requests evs @ requests evs'"
  by (auto simp: requests_def List.map_filter_def from_reader_def split: event.splits)

lemma mutate_ids_simps [simp]:
  "mutate_ids [] = []" "mutate_ids (ReqMutate m # rs) = mt_MutateId m # mutate_ids rs"
  "mutate_ids (ReqNoVersion # rs) = mutate_ids rs" "mutate_ids (ReqPing n # rs) = mutate_ids rs"
  "mutate_ids (ReqPong n # rs) = mutate_ids rs" "mutate_ids (ReqOther # rs) = mutate_ids rs"
  by (simp_all add: mutate_ids_def List.map_filter_def)

lemma frame_reader_closed:
  assumes "take n (frame_reader rs) = filter from_reader pre @ EvRequestClosed None # rest"
    and "\<forall>ev \<in> set pre. \<forall>e. ev \<noteq> EvRequestClosed e"
  shows "\<exists>err later. rs = map Received (requests pre) @ RecvErr err # later \<and> recvErr err = None"
  using assms
proof (induction pre arbitrary: n rs)
  case Nil
  then show ?case by (cases rs rule: frame_reader.cases; cases n) auto
next
  case (Cons ev pre)
  show ?case
  proof (cases "from_reader ev")
    case True
    then obtain req where ev: "ev = EvRequest req" using Cons.prems(2) by (auto simp: from_reader_def split: event.splits)
    then obtain m rs' where "n = Suc m" "rs = Received req # rs'" 
        "take m (frame_reader rs') = filter from_reader pre @ EvRequestClosed None # rest"
      using Cons.prems(1) True by (cases rs rule: frame_reader.cases; cases n) auto
    then show ?thesis using Cons.IH [of m rs'] Cons.prems(2) ev by auto
  qed (use Cons in auto)
qed

section \<open>What the writer answers\<close>

definition talk :: "writer \<Rightarrow> u64 list \<times> bool" where
  "talk w = (answered w, halfClosed w)"

lemma talk_basic [simp]:
  "talk (fst (send s fl w)) = talk w" "talk (fst (dropTopic s t w)) = talk w"
  "talk (fst (group_frames s ms i w)) = talk w" "talk (fst (welcome_frames s wms i w)) = talk w"
  "talk (fst (register_add h t a w acc)) = talk w" "talk (start_wave i acc w) = talk w"
  "talk (w\<lparr>waves := ws\<rparr>) = talk w" "talk (w\<lparr>pending := p, pendingBytes := n\<rparr>) = talk w"
  by (auto simp: talk_def dropTopic_eq forget_def group_frames_def welcome_frames_def register_add_def start_wave_def
      Let_def split: option.splits prod.splits)

lemma talk_apply_removes [simp]: "talk (fst (apply_removes s wires w)) = talk w"
proof (induction wires arbitrary: w)
  case (Cons wire wires)
  then show ?case by (auto simp: and_then_def split: sum.splits option.splits)
qed simp

lemma talk_apply_adds [simp]: "talk (fst (apply_adds s h adds w acc)) = talk w"
proof (induction adds arbitrary: w acc)
  case (Cons x adds)
  obtain t a where x: "x = (t, a)" by (cases x)
  obtain w1 e where d: "dropTopic s t w = (w1, e)" by fastforce
  obtain w2 acc2 where r: "register_add h t a w acc = (w2, acc2)" by fastforce
  obtain w3 acc3 where r1: "register_add h t a w1 acc = (w3, acc3)" by fastforce
  have "talk w1 = talk w" "talk w2 = talk w" "talk w3 = talk w1"
    using talk_basic(2) [of s t w] talk_basic(5) [of h t a w acc] talk_basic(5) [of h t a w1 acc] d r r1 by simp_all
  then show ?case using x d r r1 Cons.IH by (cases e; cases h) simp_all
qed simp

lemma talk_handle_mutate:
  assumes "handle_mutate s m w = (w', None)"
  shows "answered w' = answered w @ [mt_MutateId m]" "halfClosed w' = halfClosed w"
proof -
  from handle_mutate_ok [OF assms] obtain adds w1 w2 acc where
    rm: "apply_removes s (mt_Removes m) w = (w1, None)"
    and a: "apply_adds s (mt_HistoryOnly m) adds w1 no_adds = (w2, acc, None)"
    and last: "(if groupAdds acc \<noteq> [] \<or> welcomeAdds acc \<noteq> [] then (start_wave (mt_MutateId m) acc
        (w2\<lparr>subscribedTopics := subscribedTopics w2 + newlyLive acc, answered := answered w2 @ [mt_MutateId m]\<rparr>), None)
      else send s (catchupCompleteFrame (mt_MutateId m))
        (w2\<lparr>subscribedTopics := subscribedTopics w2 + newlyLive acc, answered := answered w2 @ [mt_MutateId m]\<rparr>)) = (w', None)" .
  let ?w3 = "w2\<lparr>subscribedTopics := subscribedTopics w2 + newlyLive acc, answered := answered w2 @ [mt_MutateId m]\<rparr>"
  have "w' = start_wave (mt_MutateId m) acc ?w3 \<or> w' = fst (send s (catchupCompleteFrame (mt_MutateId m)) ?w3)"
    using last by (auto split: if_splits)
  then have "talk w' = talk ?w3" by auto
  moreover have "talk w2 = talk w"
    using talk_apply_removes [of s "mt_Removes m" w] talk_apply_adds [of s "mt_HistoryOnly m" adds w1 no_adds] rm a by simp
  ultimately show "answered w' = answered w @ [mt_MutateId m]" "halfClosed w' = halfClosed w" by (simp_all add: talk_def)
qed

lemma talk_settle [simp]: "talk (fst (settle_topics s wave ts w gs ws mk)) = talk w"
proof (induction ts arbitrary: w gs ws mk)
  case (Cons x ts)
  have "talk (w\<lparr>topicWave := a, highWaterMarks := b\<rparr>) = talk w"
    "talk (w\<lparr>topicWave := a, catchingUp := c, pendingBytes := d, pending := e\<rparr>) = talk w" for a b c d e
    by (simp_all add: talk_def)
  with Cons show ?case by (cases x) (simp add: Let_def)
qed simp

lemma talk_handle_batch [simp]: "talk (fst (handle_batch s b w)) = talk w"
proof -
  have "talk (fst (completeWave s i ws w)) = talk w" for i ws w by (simp add: completeWave_def Let_def split_def)
  then have "talk (fst (scan_done s i ws w)) = talk w" for i ws w by (simp add: scan_done_def Let_def)
  moreover have "talk (fst (batch_frames s b i w)) = talk w" for i by (simp add: batch_frames_def Let_def)
  ultimately show ?thesis by (simp add: handle_batch_def Let_def split_def split: option.split)
qed

text \<open>A handler that goes on: only a Mutate is answered, only the closed request channel half-closes.\<close>

lemma handle_continues:
  assumes "handle s ev w = (w', Continue)"
  shows "halfClosed w \<Longrightarrow> talk w' = talk w"
    and "\<not> halfClosed w \<Longrightarrow> \<forall>e. ev \<noteq> EvRequestClosed e \<Longrightarrow>
      answered w' = answered w @ mutate_ids (requests [ev]) \<and> \<not> halfClosed w'"
    and "\<not> halfClosed w \<Longrightarrow> ev = EvRequestClosed e \<Longrightarrow> e = None \<and> answered w' = answered w \<and> halfClosed w'"
proof -
  have quiet: "talk w' = talk w" if "\<not> from_reader ev \<or> halfClosed w"
  proof (cases ev)
    case (EvBatch b)
    then show ?thesis using assms talk_handle_batch [of s b w] by (simp add: handle_def)
  next
    case (EvEnvelope env)
    then show ?thesis using assms
      by (auto simp: handle_def handle_envelope_def Let_def or_return_def split_def split: if_splits option.splits)
  next
    case (EvTick now at)
    then show ?thesis using assms
      by (auto simp: handle_def handle_tick_def talk_def Let_def or_return_def split: if_splits option.splits)
  qed (use assms that in \<open>auto simp: handle_def from_reader_def split: if_splits\<close>)
  then show "halfClosed w \<Longrightarrow> talk w' = talk w" by blast
  show "answered w' = answered w @ mutate_ids (requests [ev]) \<and> \<not> halfClosed w'"
    if "\<not> halfClosed w" "\<forall>e. ev \<noteq> EvRequestClosed e"
  proof (cases "\<exists>req. ev = EvRequest req")
    case True
    then obtain req where ev: "ev = EvRequest req" ..
    show ?thesis
    proof (cases req)
      case (ReqMutate m)
      obtain w1 e where m: "handle_mutate s m w = (w1, e)" by fastforce
      then show ?thesis using assms that(1) ev ReqMutate talk_handle_mutate [of s m w w1]
        by (cases e) (auto simp: handle_def handle_request_def or_return_def)
    qed (use assms that(1) ev in \<open>auto simp: handle_def handle_request_def or_return_def split: option.splits if_splits\<close>)
  next
    case False
    then have "\<not> from_reader ev" using that(2) by (auto simp: from_reader_def split: event.splits)
    then show ?thesis using quiet that(1) by (simp add: talk_def)
  qed
  show "\<not> halfClosed w \<Longrightarrow> ev = EvRequestClosed e \<Longrightarrow> e = None \<and> answered w' = answered w \<and> halfClosed w'"
    using assms by (auto simp: handle_def split: if_splits)
qed

text \<open>A handler that returns without an error does so because the context is done or after a flush with no wave left.\<close>

lemma handle_clean_return:
  assumes "handle s ev w = (w', Return None)" and "ev \<noteq> EvStreamDone"
  shows "waves w' = [] \<and> answered w' = answered w \<and> (halfClosed w \<or> ev = EvRequestClosed None)"
proof (cases ev)
  case (EvBatch b)
  have send_only: "snd (or_return r) \<noteq> Return None" for r :: outcome by (simp add: or_return_def split: option.splits)
  have b: "handle_batch s b w = (w', Return None)" using assms(1) EvBatch by (simp add: handle_def)
  then have "talk w' = talk w" using talk_handle_batch [of s b w] by simp
  moreover have "waves w' = [] \<and> halfClosed w'"
    using b send_only by (auto simp: handle_batch_def scan_done_def or_return_def Let_def split_def split: option.splits if_splits)
  ultimately show ?thesis by (simp add: talk_def)
qed (use assms in \<open>auto simp: handle_def handle_envelope_def handle_tick_def or_return_def Let_def
      split: if_splits option.splits prod.splits\<close>)


text \<open>
  A run that returns without an error while the context is not done was half-closed: up to the closing of
  the request channel every Mutate is answered, after it none comes, and no wave is left at the end.
\<close>

lemma run_half_closed:
  "run s evs w = (w', Return None) \<Longrightarrow> EvStreamDone \<notin> set evs \<Longrightarrow> halfClosed w \<Longrightarrow>
     waves w' = [] \<and> answered w' = answered w"
proof (induction evs arbitrary: w)
  case (Cons ev evs)
  obtain w1 v where h: "handle s ev w = (w1, v)" by fastforce
  show ?case
  proof (cases v)
    case Continue
    then have "talk w1 = talk w" using handle_continues(1) h Cons.prems(3) by blast
    then show ?thesis using Cons.IH [of w1] Cons.prems h Continue by (simp add: talk_def)
  next
    case (Return e)
    then show ?thesis using handle_clean_return [of s ev w w'] Cons.prems h by auto
  qed
qed simp

lemma run_clean_return:
  "run s evs w = (w', Return None) \<Longrightarrow> EvStreamDone \<notin> set evs \<Longrightarrow> \<not> halfClosed w \<Longrightarrow>
     \<exists>pre post. evs = pre @ EvRequestClosed None # post \<and> (\<forall>ev \<in> set pre. \<forall>e. ev \<noteq> EvRequestClosed e) \<and>
       waves w' = [] \<and> answered w' = answered w @ mutate_ids (requests pre)"
proof (induction evs arbitrary: w)
  case (Cons ev evs)
  obtain w1 v where h: "handle s ev w = (w1, v)" by fastforce
  show ?case
  proof (cases v)
    case Continue
    then have r: "run s evs w1 = (w', Return None)" using Cons.prems(1) h by simp
    show ?thesis
    proof (cases "\<exists>e. ev = EvRequestClosed e")
      case True
      then obtain e where ev: "ev = EvRequestClosed e" ..
      then have "e = None" "answered w1 = answered w" "halfClosed w1"
        using handle_continues(3) [of s ev w w1 e] h Continue Cons.prems(3) by auto
      then show ?thesis using run_half_closed [OF r] Cons.prems(2) ev by (intro exI [of _ "[]"] exI [of _ evs]) simp
    next
      case False
      then have a: "answered w1 = answered w @ mutate_ids (requests [ev])" "\<not> halfClosed w1"
        using handle_continues(2) [of s ev w w1] h Continue Cons.prems(3) by auto
      obtain pre post where "evs = pre @ EvRequestClosed None # post" "\<forall>ev \<in> set pre. \<forall>e. ev \<noteq> EvRequestClosed e"
        "waves w' = []" "answered w' = answered w1 @ mutate_ids (requests pre)"
        using Cons.IH [OF r _ a(2)] Cons.prems(2) by auto
      moreover have "mutate_ids (requests (ev # pre)) = mutate_ids (requests [ev]) @ mutate_ids (requests pre)"
        using requests_simps(4) [of "[ev]" pre] by (simp add: mutate_ids_def List.map_filter_def del: requests_simps)
      ultimately show ?thesis using a False by (intro exI [of _ "ev # pre"] exI [of _ post]) auto
    qed
  next
    case (Return e)
    then have "waves w' = [] \<and> answered w' = answered w \<and> ev = EvRequestClosed None"
      using handle_clean_return [of s ev w w'] Cons.prems h by auto
    then show ?thesis by (intro exI [of _ "[]"] exI [of _ evs]) simp
  qed
qed simp

section \<open>Sessions\<close>

text \<open>
  \<open>session\<close>: the client's frames \<open>rs\<close> as the reader receives them, the events \<open>evs\<close> the writer's select
  picked, the writer \<open>w\<close> and verdict \<open>v\<close> it ended in, and a schedule of the outbound channel that ends
  in \<open>p\<close>. The request events are the first ones of the reader, the frames the writer sent are those
  the channel accepted, the writer has returned what the handler returns, and a select picks
  \<open>ctx.Done\<close> only when the context is done.
\<close>

definition session :: "sub_cfg \<Rightarrow> recv list \<Rightarrow> event list \<Rightarrow> int \<Rightarrow> pipe_action list \<Rightarrow> writer \<Rightarrow> verdict \<Rightarrow> pipe \<Rightarrow> bool" where
  "session s rs evs now as w v p \<longleftrightarrow>
     stream s evs now = (w, v) \<and>
     (\<exists>n. filter from_reader evs = take n (frame_reader rs)) \<and>
     pipe_run sendQueueDepth as initial_pipe = Some p \<and>
     accepted p = sent w \<and>
     phase p = (case v of Continue \<Rightarrow> Running | Return e \<Rightarrow> Returned e) \<and>
     (EvStreamDone \<in> set evs \<or> dropped w \<longrightarrow> ctx_done p)"

text \<open>
  C15. What a client receives is, at every moment and whatever fails, a prefix of the frames the writer
  decided to send, in the writer's order; at most the channel's eight batches and the one in the sender's
  hand are still on the way while the sender runs.
\<close>

theorem client_receives_prefix:
  assumes "session s rs evs now as w v p"
  shows "\<exists>rest. sent w = delivered p @ rest \<and>
    (\<not> sender_done p \<longrightarrow> rest = in_hand p @ concat (outbound p) \<and> length (outbound p) \<le> sendQueueDepth)"
proof -
  have "pipe_inv sendQueueDepth p" "accepted p = sent w"
    using assms pipe_run_inv by (auto simp: session_def)
  then show ?thesis unfolding pipe_inv_def by (metis same_append_eq)
qed

text \<open>
  C5. A Subscribe call that ends with OK while the client is connected kept its promise: the client had
  half-closed its side cleanly, every frame the writer sent was delivered, and the CatchupComplete frames
  the client received answer exactly the Mutates it sent, each once.
\<close>

theorem clean_end_answers_all:
  assumes "session s rs evs now as w (Return None) p" and "\<not> ctx_done p" and "0 \<le> maxPendingBytes s"
  shows "delivered p = sent w \<and>
    (\<exists>reqs err later. rs = map Received reqs @ RecvErr err # later \<and> recvErr err = None \<and>
      mset (completes (delivered p)) = mset (mutate_ids reqs))"
proof -
  have st: "stream s evs now = (w, Return None)" and nd: "EvStreamDone \<notin> set evs" "\<not> dropped w"
    using assms(1,2) by (auto simp: session_def)
  have d: "delivered p = sent w"
    using assms(1,2) clean_return_delivers [of sendQueueDepth as p] by (simp add: session_def)
  obtain w1 e where s1: "send s (startedFrame s) (initial_writer\<lparr>lastActivity := now\<rparr>) = (w1, e)" by fastforce
  then have w1: "send s (startedFrame s) (initial_writer\<lparr>lastActivity := now\<rparr>) = (w1, None)" and run: "run s evs w1 = (w, Return None)"
    using st by (cases e; simp add: stream_def or_return_def)+
  have t: "talk w1 = ([], False)"
    using w1 talk_basic(1) [of s "startedFrame s" "initial_writer\<lparr>lastActivity := now\<rparr>"] by (simp add: talk_def initial_writer_def)
  obtain pre post where pre: "evs = pre @ EvRequestClosed None # post" "\<forall>ev \<in> set pre. \<forall>e. ev \<noteq> EvRequestClosed e"
    "waves w = []" "answered w = mutate_ids (requests pre)"
    using run_clean_return [OF run nd(1)] t by (auto simp: talk_def)
  obtain n where "take n (frame_reader rs) = filter from_reader pre @ EvRequestClosed None # filter from_reader post"
    using assms(1) pre(1) by (auto simp: session_def from_reader_def)
  then obtain err later where rs: "rs = map Received (requests pre) @ RecvErr err # later" "recvErr err = None"
    using frame_reader_closed pre(2) by blast
  have "answers w" using stream_ok_stream [OF st _ assms(3)] by (simp add: stream_ok_def clean_def)
  then have "mset (answered w) = mset (completes (sent w))" using nd(2) pre(3) by (simp add: answers_def flying_def)
  then show ?thesis using d rs pre(4) by metis
qed


text \<open>A session: one group is added at cursor 1, its history is replayed, and the client half-closes.\<close>

definition test_frames :: "frame list list" where
  "test_frames = [[Started 30000], [Messages [test_group_msg 7 2, test_group_msg 7 3] [] 5],
     [TopicsLive [[0, 7]], CatchupComplete 5]]"

definition test_recv :: "recv list" where
  "test_recv = [Received (ReqMutate \<lparr>mt_MutateId = 5, mt_Adds = [\<lparr>ma_Topic = [0, 7], ma_IdCursor = 1\<rparr>], mt_Removes = [],
     mt_HistoryOnly = False\<rparr>), RecvErr RecvEOF]"

definition test_session_events :: "event list" where
  "test_session_events = [test_mutate 5 [([0, 7], 1)] [] False, test_history 0 [test_group_msg 7 2, test_group_msg 7 3],
     EvBatch (done_batch 0), EvRequestClosed None]"

definition test_schedule :: "pipe_action list" where
  "test_schedule = [HandOver (test_frames ! 0), Take, HandOver (test_frames ! 1), Send None, HandOver (test_frames ! 2),
     Take, BeginFlush, Send None, Take, Send None, Send None, Exit, FlushDone]"

lemma test_session:
  "\<exists>w p. session test_cfg test_recv test_session_events 0 test_schedule w (Return None) p \<and>
     sent w = concat test_frames \<and> delivered p = concat test_frames \<and> \<not> ctx_done p \<and> sender_done p"
proof -
  let ?r = "stream test_cfg test_session_events 0"
  let ?p = "the (pipe_run sendQueueDepth test_schedule initial_pipe)"
  have w: "snd ?r = Return None" "sent (fst ?r) = concat test_frames" "\<not> dropped (fst ?r)" by code_simp+
  have p: "pipe_run sendQueueDepth test_schedule initial_pipe \<noteq> None" "accepted ?p = concat test_frames"
    "delivered ?p = concat test_frames" "phase ?p = Returned None" "\<not> ctx_done ?p" "sender_done ?p" by code_simp+
  have "filter from_reader test_session_events = take 2 (frame_reader test_recv)"
    by (simp add: test_session_events_def test_recv_def test_mutate_def test_history_def from_reader_def recvErr_def)
  moreover have "EvStreamDone \<notin> set test_session_events"
    by (simp add: test_session_events_def test_mutate_def test_history_def)
  ultimately have "session test_cfg test_recv test_session_events 0 test_schedule (fst ?r) (Return None) ?p"
    unfolding session_def using w p by (intro conjI exI [of _ 2]) (simp_all add: prod_eq_iff)
  then show ?thesis using w p by blast
qed

lemma test_running_session:
  "\<exists>w p. session test_cfg test_recv (take 2 test_session_events) 0 (take 3 test_schedule) w Continue p \<and>
     sent w = concat (take 2 test_frames) \<and> delivered p = [] \<and> \<not> sender_done p"
proof -
  let ?r = "stream test_cfg (take 2 test_session_events) 0"
  let ?p = "the (pipe_run sendQueueDepth (take 3 test_schedule) initial_pipe)"
  have w: "snd ?r = Continue" "sent (fst ?r) = concat (take 2 test_frames)" "\<not> dropped (fst ?r)" by code_simp+
  have p: "pipe_run sendQueueDepth (take 3 test_schedule) initial_pipe \<noteq> None" "accepted ?p = concat (take 2 test_frames)"
    "delivered ?p = []" "phase ?p = Running" "\<not> sender_done ?p" by code_simp+
  have "filter from_reader (take 2 test_session_events) = take 1 (frame_reader test_recv)"
    by (simp add: test_session_events_def test_recv_def test_mutate_def test_history_def from_reader_def)
  moreover have "EvStreamDone \<notin> set (take 2 test_session_events)"
    by (simp add: test_session_events_def test_mutate_def test_history_def)
  ultimately have "session test_cfg test_recv (take 2 test_session_events) 0 (take 3 test_schedule) (fst ?r) Continue ?p"
    unfolding session_def using w p by (intro conjI exI [of _ 1]) (simp_all add: prod_eq_iff)
  then show ?thesis using w p by blast
qed

theorem client_receives_prefix_witness:
  "\<exists>p :: pipe. delivered p = [] \<and> concat (take 2 test_frames) = in_hand p @ concat (outbound p) \<and> length (outbound p) \<le> sendQueueDepth"
proof -
  obtain w p where s: "session test_cfg test_recv (take 2 test_session_events) 0 (take 3 test_schedule) w Continue p"
    "sent w = concat (take 2 test_frames)" "delivered p = []" "\<not> sender_done p"
    using test_running_session by blast
  then have "concat (take 2 test_frames) = in_hand p @ concat (outbound p)" "length (outbound p) \<le> sendQueueDepth"
    using client_receives_prefix [OF s(1)] by auto
  with s(3) show ?thesis by blast
qed

theorem clean_end_answers_all_witness:
  "\<exists>reqs err later. test_recv = map Received reqs @ RecvErr err # later \<and> recvErr err = None \<and>
     mset (completes (concat test_frames)) = mset (mutate_ids reqs)"
proof -
  obtain w p where s: "session test_cfg test_recv test_session_events 0 test_schedule w (Return None) p"
    "delivered p = concat test_frames" "\<not> ctx_done p"
    using test_session by blast
  have "0 \<le> maxPendingBytes test_cfg" by (simp add: test_cfg_def)
  from clean_end_answers_all [OF s(1,3) this] s(2) show ?thesis by metis
qed

end
