(* ===== verification/Legacy_Streams.thy ===== *)
theory Legacy_Streams
  imports Mls_Service Worker Catchup Subscribe_Topic
begin

text \<open>
  The two older server streams, SubscribeGroupMessages and SubscribeWelcomeMessages of
  pkg/mls/api/v1/service.go. Each registers a dispatcher subscription, replays history with one
  goroutine per filter that pages through the store, waits for all of them, and then forwards the
  subscription. Both share their shape, which is a \<open>legacy_lane\<close> here; they differ in the metadata of a
  message, the query, the envelopes they skip and what they return when the consumer was too slow.

  The goroutines share the marks and the stream under a lock taken per page, so a run of the history
  phase is an interleaving of page steps: a schedule of goroutine numbers, each with what the step
  met (a finished context, a database fault, the snapshot it read). \<open>sendFault n\<close> is the outcome of the
  n-th call of \<open>stream.Send\<close>.
\<close>

section \<open>Sending\<close>

record 'm legacy_stream =
  lg_marks :: "bytes \<Rightarrow> u64"
  lg_sends :: nat
  lg_delivered :: "'m list"
  lg_errChan :: "go_error list"

definition new_legacy :: "'m legacy_stream" where
  "new_legacy = \<lparr>lg_marks = (\<lambda>_. 0), lg_sends = 0, lg_delivered = [], lg_errChan = []\<rparr>"

record 'm legacy_lane =
  ll_meta :: "'m \<Rightarrow> (bytes \<times> u64) option result"
  ll_query :: "fault \<Rightarrow> bytes \<Rightarrow> PagingInfo \<Rightarrow> mls_db \<Rightarrow> ('m list \<times> PagingInfo) result"
  ll_parse :: "envelope \<Rightarrow> 'm option"
  ll_closed :: fault

fun sendToStream :: "'m legacy_lane \<Rightarrow> (nat \<Rightarrow> fault) \<Rightarrow> 'm list \<Rightarrow> 'm legacy_stream \<Rightarrow> 'm legacy_stream \<times> fault" where
  "sendToStream L sendFault [] st = (st, None)"
| "sendToStream L sendFault (msg # msgs) st =
     (case ll_meta L msg of
        Inl e \<Rightarrow> (st, Some e)
      | Inr None \<Rightarrow> sendToStream L sendFault msgs st
      | Inr (Some (k, i)) \<Rightarrow>
          if lg_marks st k < i then
            let st1 = st\<lparr>lg_marks := (lg_marks st)(k := i), lg_sends := Suc (lg_sends st)\<rparr> in
            (case sendFault (lg_sends st) of
               Some e \<Rightarrow> (st1, Some e)
             | None \<Rightarrow> sendToStream L sendFault msgs (st1\<lparr>lg_delivered := lg_delivered st1 @ [msg]\<rparr>))
          else sendToStream L sendFault msgs st)"

section \<open>History\<close>

datatype fetching = Fetching PagingInfo | Finished

record page_env =
  pg_stop :: bool
  pg_fault :: fault
  pg_db :: mls_db

definition fetch_page :: "'m legacy_lane \<Rightarrow> (nat \<Rightarrow> fault) \<Rightarrow> page_env \<Rightarrow> bytes \<Rightarrow> PagingInfo \<Rightarrow> 'm legacy_stream \<Rightarrow>
    'm legacy_stream \<times> fetching" where
  "fetch_page L sendFault env k pagingInfo st =
     (if pg_stop env then (st, Finished)
      else if lg_errChan st \<noteq> [] then (st, Finished)
      else case ll_query L (pg_fault env) k pagingInfo (pg_db env) of
             Inl e \<Rightarrow> (if is_canceled e then st else st\<lparr>lg_errChan := lg_errChan st @ [e]\<rparr>, Finished)
           | Inr (msgs, next) \<Rightarrow>
               (case sendToStream L sendFault msgs st of
                  (st1, Some e) \<Rightarrow> (st1\<lparr>lg_errChan := lg_errChan st1 @ [e]\<rparr>, Finished)
                | (st1, None) \<Rightarrow>
                    (st1, if msgs = [] \<or> pi_IdCursor next = 0 then Finished else Fetching next)))"

record legacy_filter =
  lf_key :: bytes
  lf_IdCursor :: u64

definition first_page :: "legacy_filter \<Rightarrow> PagingInfo" where
  "first_page f = \<lparr>pi_Direction = SORT_ASCENDING, pi_Limit = 0, pi_IdCursor = lf_IdCursor f\<rparr>"

definition history_step :: "'m legacy_lane \<Rightarrow> (nat \<Rightarrow> fault) \<Rightarrow> legacy_filter list \<Rightarrow> nat \<times> page_env \<Rightarrow>
    'm legacy_stream \<times> fetching list \<Rightarrow> 'm legacy_stream \<times> fetching list" where
  "history_step L sendFault filters s c =
     (case (s, c) of ((i, env), (st, fs)) \<Rightarrow>
        if length filters \<le> i then (st, fs)
        else (case fs ! i of
                Finished \<Rightarrow> (st, fs)
              | Fetching p \<Rightarrow> (case fetch_page L sendFault env (lf_key (filters ! i)) p st of (st', f) \<Rightarrow> (st', fs[i := f]))))"

definition fetchHistorical :: "'m legacy_lane \<Rightarrow> (nat \<Rightarrow> fault) \<Rightarrow> legacy_filter list \<Rightarrow> (nat \<times> page_env) list \<Rightarrow>
    'm legacy_stream \<times> fetching list" where
  "fetchHistorical L sendFault filters sched =
     foldl (\<lambda>c s. history_step L sendFault filters s c) (new_legacy, map (\<lambda>f. Fetching (first_page f)) filters) sched"

section \<open>The live loop\<close>

datatype live_event =
    LiveErr | LiveDone | LiveServiceDone | LiveCutoverTick u64 | LiveEnvelope envelope | LiveClosed

definition live_step :: "'m legacy_lane \<Rightarrow> (nat \<Rightarrow> fault) \<Rightarrow> mls_service \<Rightarrow> live_event \<Rightarrow> 'm legacy_stream \<Rightarrow>
    'm legacy_stream \<times> fault option" where
  "live_step L sendFault s ev st =
     (case ev of
        LiveErr \<Rightarrow> (case lg_errChan st of [] \<Rightarrow> (st, None) | e # es \<Rightarrow> (st\<lparr>lg_errChan := es\<rparr>, Some (Some e)))
      | LiveDone \<Rightarrow> (st, Some None)
      | LiveServiceDone \<Rightarrow> (st, Some (Some (Status Unavailable ''service is shutting down'')))
      | LiveCutoverTick now \<Rightarrow> (st, if isStreamingDisabled s now then Some (Some streaming_unavailable) else None)
      | LiveEnvelope env \<Rightarrow>
          (case ll_parse L env of
             None \<Rightarrow> (st, None)
           | Some msg \<Rightarrow> (case sendToStream L sendFault [msg] st of (st', None) \<Rightarrow> (st', None) | (st', Some e) \<Rightarrow> (st', Some (Some e))))
      | LiveClosed \<Rightarrow> (st, Some (ll_closed L)))"

text \<open>\<open>None\<close>: the stream is still open.\<close>

fun live_loop :: "'m legacy_lane \<Rightarrow> (nat \<Rightarrow> fault) \<Rightarrow> mls_service \<Rightarrow> live_event list \<Rightarrow> 'm legacy_stream \<Rightarrow>
    'm legacy_stream \<times> fault option" where
  "live_loop L sendFault s [] st = (st, None)"
| "live_loop L sendFault s (ev # evs) st =
     (case live_step L sendFault s ev st of (st', Some r) \<Rightarrow> (st', Some r) | (st', None) \<Rightarrow> live_loop L sendFault s evs st')"

section \<open>The two streams\<close>

definition group_meta :: "GroupMessage \<Rightarrow> (bytes \<times> u64) option result" where
  "group_meta m = (case m of None \<Rightarrow> Inl (Panic ''nil pointer dereference'') | Some v \<Rightarrow> Inr (Some (gm_GroupId v, gm_Id v)))"

definition welcome_meta :: "WelcomeMessage \<Rightarrow> (bytes \<times> u64) option result" where
  "welcome_meta m = (case getMetadataFromWelcomeMessage (Some m) of (isValid, k, i) \<Rightarrow> Inr (if isValid then Some (k, i) else None))"

definition group_stream_lane :: "(bytes \<Rightarrow> GroupMessage result) \<Rightarrow> GroupMessage legacy_lane" where
  "group_stream_lane unmarshal =
     \<lparr>ll_meta = group_meta,
      ll_query = (\<lambda>flt k p db. map_sum id (\<lambda>r. (qg_Messages r, qg_PagingInfo r)) (QueryGroupMessagesV1 flt k (Some p) db)),
      ll_parse = (\<lambda>env. case unmarshal (message_bytes env) of Inl _ \<Rightarrow> None | Inr m \<Rightarrow> Some m),
      ll_closed = Some (Status Aborted ''caller did not read all messages fast enough'')\<rparr>"

definition welcome_stream_lane :: "(bytes \<Rightarrow> WelcomeMessage result) \<Rightarrow> WelcomeMessage legacy_lane" where
  "welcome_stream_lane unmarshal =
     \<lparr>ll_meta = welcome_meta,
      ll_query = (\<lambda>flt k p db. map_sum id (\<lambda>r. (qw_Messages r, qw_PagingInfo r)) (QueryWelcomeMessagesV1 flt k (Some p) db)),
      ll_parse = (\<lambda>env. case Message env of None \<Rightarrow> None | Some b \<Rightarrow> (case unmarshal b of Inl _ \<Rightarrow> None | Inr m \<Rightarrow> Some m)),
      ll_closed = None\<rparr>"

text \<open>The rest of both handlers: history, and when all goroutines have finished, the live loop.\<close>

definition serve_legacy :: "'m legacy_lane \<Rightarrow> (nat \<Rightarrow> fault) \<Rightarrow> mls_service \<Rightarrow> legacy_filter list \<Rightarrow> (nat \<times> page_env) list \<Rightarrow>
    live_event list \<Rightarrow> 'm legacy_stream \<times> fault option" where
  "serve_legacy L sendFault s filters sched evs =
     (case fetchHistorical L sendFault filters sched of
        (st, fs) \<Rightarrow> if list_all (\<lambda>f. f = Finished) fs then live_loop L sendFault s evs st else (st, None))"

definition SubscribeGroupMessages :: "(bytes \<Rightarrow> GroupMessage result) \<Rightarrow> (nat \<Rightarrow> fault) \<Rightarrow> mls_service \<Rightarrow> u64 \<Rightarrow>
    legacy_filter option list \<Rightarrow> (nat \<times> page_env) list \<Rightarrow> live_event list \<Rightarrow> GroupMessage legacy_stream \<times> fault option" where
  "SubscribeGroupMessages unmarshal sendFault s now filters sched evs =
     (if isStreamingDisabled s now then (new_legacy, Some (Some streaming_unavailable))
      else if None \<in> set filters then (new_legacy, Some (Some (Panic ''nil pointer dereference'')))
      else serve_legacy (group_stream_lane unmarshal) sendFault s (map the filters) sched evs)"

definition SubscribeWelcomeMessages :: "(bytes \<Rightarrow> WelcomeMessage result) \<Rightarrow> (nat \<Rightarrow> fault) \<Rightarrow> mls_service \<Rightarrow> u64 \<Rightarrow>
    legacy_filter option list option \<Rightarrow> (nat \<times> page_env) list \<Rightarrow> live_event list \<Rightarrow> WelcomeMessage legacy_stream \<times> fault option" where
  "SubscribeWelcomeMessages unmarshal sendFault s now req sched evs =
     (if isStreamingDisabled s now then (new_legacy, Some (Some streaming_unavailable))
      else case req of
        None \<Rightarrow> (new_legacy, Some (Some (Status InvalidArgument ''request is nil'')))
      | Some filters \<Rightarrow>
          if filters = [] then (new_legacy, Some (Some (Status InvalidArgument ''no valid filters provided'')))
          else if (\<exists>f \<in> set filters. case f of None \<Rightarrow> True | Some x \<Rightarrow> lf_key x = [])
          then (new_legacy, Some (Some (Status InvalidArgument ''a filter is nil or installation key is empty'')))
          else serve_legacy (welcome_stream_lane unmarshal) sendFault s (map the filters) sched evs)"

section \<open>What one key is sent\<close>

text \<open>
  Marks only ever rise to the id of the message they let through, so what the stream sends for one
  key is the \<open>passing\<close> part, from mark 0, of everything handed to \<open>sendToStream\<close> for it.
\<close>

definition legacy_id :: "'m legacy_lane \<Rightarrow> 'm \<Rightarrow> u64" where
  "legacy_id L m = (case ll_meta L m of Inr (Some (k, i)) \<Rightarrow> i | _ \<Rightarrow> 0)"

definition of_key :: "'m legacy_lane \<Rightarrow> bytes \<Rightarrow> 'm list \<Rightarrow> 'm list" where
  "of_key L t = filter (\<lambda>m. case ll_meta L m of Inr (Some (k, i)) \<Rightarrow> k = t | _ \<Rightarrow> False)"

lemma of_key_simps [simp]: "of_key L t [] = []" "of_key L t (xs @ ys) = of_key L t xs @ of_key L t ys"
  by (simp_all add: of_key_def)

definition marked :: "'m legacy_lane \<Rightarrow> 'm legacy_stream \<Rightarrow> bool" where
  "marked L st \<longleftrightarrow> (\<forall>t. sorted_wrt (<) (map (legacy_id L) (of_key L t (lg_delivered st))) \<and>
     (\<forall>m \<in> set (of_key L t (lg_delivered st)). legacy_id L m \<le> lg_marks st t))"

lemma sendToStream_marked: "marked L st \<Longrightarrow> marked L (fst (sendToStream L sendFault msgs st))"
proof (induction msgs arbitrary: st)
  case (Cons m ms)
  show ?case
  proof (cases "ll_meta L m")
    case (Inr x)
    show ?thesis
    proof (cases x)
      case (Some ki)
      obtain k i where ki: "ki = (k, i)" by (cases ki)
      let ?st1 = "st\<lparr>lg_marks := (lg_marks st)(k := i), lg_sends := Suc (lg_sends st)\<rparr>"
      have "marked L ?st1" "marked L (?st1\<lparr>lg_delivered := lg_delivered ?st1 @ [m]\<rparr>)" if "lg_marks st k < i"
        using Cons.prems that Inr Some ki
        by (auto simp: marked_def of_key_def legacy_id_def sorted_wrt_append intro: le_less_trans order.trans [OF _ less_imp_le])
      with Cons Inr Some ki show ?thesis by (simp add: Let_def split: option.split)
    qed (use Cons Inr in simp)
  qed (use Cons in simp)
qed simp

lemma marked_errChan [simp]: "marked L (st\<lparr>lg_errChan := es\<rparr>) = marked L st"
  by (simp add: marked_def)

lemma marked_new [simp]: "marked L new_legacy"
  by (simp add: marked_def new_legacy_def)

lemma fetch_page_marked:
  assumes "marked L st" shows "marked L (fst (fetch_page L sendFault env k p st))"
proof -
  have "marked L st'" if "sendToStream L sendFault msgs st = (st', e)" for msgs st' e
    using sendToStream_marked [OF assms, of sendFault msgs] that by simp
  with assms show ?thesis
    by (auto simp: fetch_page_def split: sum.split prod.split option.split)
qed

lemma fetchHistorical_marked: "marked L (fst (fetchHistorical L sendFault filters sched))"
proof -
  have step: "marked L (fst (history_step L sendFault filters s c))" if "marked L (fst c)" for s c
  proof -
    have "marked L st'" if "fetch_page L sendFault env k p (fst c) = (st', f)" for env k p st' f
      using fetch_page_marked [of L "fst c" sendFault env k p] that \<open>marked L (fst c)\<close> by simp
    with that show ?thesis by (auto simp: history_step_def split: fetching.split prod.split)
  qed
  have "marked L (fst c) \<Longrightarrow> marked L (fst (foldl (\<lambda>c s. history_step L sendFault filters s c) c sched))" for c
    by (induction sched arbitrary: c) (simp_all add: step)
  then show ?thesis by (simp add: fetchHistorical_def)
qed

lemma live_loop_marked: "marked L st \<Longrightarrow> marked L (fst (live_loop L sendFault s evs st))"
proof (induction evs arbitrary: st)
  case (Cons ev evs)
  have "marked L (fst (live_step L sendFault s ev st))"
  proof (cases ev)
    case (LiveEnvelope env)
    have "marked L st'" if "sendToStream L sendFault [m] st = (st', e)" for m st' e
      using sendToStream_marked [OF Cons.prems, of sendFault "[m]"] that by simp
    then show ?thesis using LiveEnvelope Cons.prems by (auto simp: live_step_def split: option.split prod.split)
  qed (use Cons.prems in \<open>auto simp: live_step_def split: list.split\<close>)
  then show ?case using Cons.IH by (auto split: prod.split option.split)
qed simp

lemma serve_legacy_marked: "marked L (fst (serve_legacy L sendFault s filters sched evs))"
  using fetchHistorical_marked [of L sendFault filters sched]
  by (auto simp: serve_legacy_def intro: live_loop_marked split: prod.split)

text \<open>
  C19. Whatever the interleaving of the history goroutines, the faults they and the stream meet and
  the envelopes that arrive, the ids a legacy stream delivers for one group or one installation are
  strictly ascending: nothing is delivered twice or out of order.
\<close>

lemma legacy_streams_ascending:
  "sorted_wrt (<) (map (legacy_id (group_stream_lane ug)) (of_key (group_stream_lane ug) t
     (lg_delivered (fst (SubscribeGroupMessages ug sendFault s now gfilters sched evs))))) \<and>
   sorted_wrt (<) (map (legacy_id (welcome_stream_lane uw)) (of_key (welcome_stream_lane uw) t
     (lg_delivered (fst (SubscribeWelcomeMessages uw sendFault s now wfilters sched evs)))))"
proof -
  have "marked (group_stream_lane ug) (fst (SubscribeGroupMessages ug sendFault s now gfilters sched evs))"
    by (simp add: SubscribeGroupMessages_def serve_legacy_marked)
  moreover have "marked (welcome_stream_lane uw) (fst (SubscribeWelcomeMessages uw sendFault s now wfilters sched evs))"
    by (simp add: SubscribeWelcomeMessages_def serve_legacy_marked split: option.split)
  ultimately show ?thesis by (simp add: marked_def)
qed

section \<open>History, then live\<close>

text \<open>
  Without send faults \<open>sendToStream\<close> appends for each key what passes its mark, and moves the mark
  along.
\<close>

definition sent :: "'m legacy_lane \<Rightarrow> 'm list \<Rightarrow> 'm legacy_stream \<Rightarrow> 'm legacy_stream \<Rightarrow> bool" where
  "sent L msgs st st' \<longleftrightarrow> lg_errChan st' = lg_errChan st \<and>
     (\<forall>t. lg_marks st' t = last_mark (legacy_id L) (lg_marks st t) (of_key L t msgs) \<and>
          of_key L t (lg_delivered st') =
            of_key L t (lg_delivered st) @ passing (legacy_id L) (lg_marks st t) (of_key L t msgs))"

lemma sent_trans:
  "sent L xs st st1 \<Longrightarrow> sent L ys st1 st2 \<Longrightarrow> sent L (xs @ ys) st st2"
  by (simp add: sent_def passing_append last_mark_append)

lemma sendToStream_sent:
  assumes "\<forall>m \<in> set msgs. \<exists>k i. ll_meta L m = Inr (Some (k, i))"
  shows "\<exists>st'. sendToStream L (\<lambda>_. None) msgs st = (st', None) \<and> sent L msgs st st'"
  using assms
proof (induction msgs arbitrary: st)
  case (Cons m ms)
  then obtain k i where m: "ll_meta L m = Inr (Some (k, i))" by auto
  let ?st1 = "if lg_marks st k < i
    then st\<lparr>lg_marks := (lg_marks st)(k := i), lg_sends := Suc (lg_sends st), lg_delivered := lg_delivered st @ [m]\<rparr>
    else st"
  have step: "sent L [m] st ?st1" using m by (auto simp: sent_def of_key_def legacy_id_def)
  from Cons obtain st' where st': "sendToStream L (\<lambda>_. None) ms ?st1 = (st', None)" "sent L ms ?st1 st'" by fastforce
  have "sendToStream L (\<lambda>_. None) (m # ms) st = (st', None)" using m st'(1) by (auto simp: Let_def split: if_splits)
  with sent_trans [OF step st'(2)] show ?case by auto
qed (simp add: sent_def)

text \<open>
  The contract between a stream and the paging method it reads history from: without faults the
  query is the paging method, and a converted row carries its row's topic and id. What one
  goroutine has sent is then the rows of its topic above its cursor, as far as its pages went.
\<close>

locale legacy_source = paged_log rows key topic nxt conv query
  for rows :: "mls_db \<Rightarrow> 'r list" and key topic nxt conv
    and query :: "bytes \<Rightarrow> PagingInfo \<Rightarrow> mls_db \<Rightarrow> ('m list \<times> PagingInfo) result" +
  fixes L :: "'m legacy_lane"
  assumes lane_query: "ll_query L None t p db = query t p db"
    and query_returns: "t \<noteq> [] \<Longrightarrow> query t p db \<noteq> Inl e"
    and lane_meta: "conv r = Some m \<Longrightarrow> ll_meta L m = Inr (Some (topic r, go_uint64 (key r)))"
begin

abbreviation converted :: "'r list \<Rightarrow> 'm list" where
  "converted rs \<equiv> List.map_filter conv rs"

definition due :: "legacy_filter \<Rightarrow> 'r list \<Rightarrow> 'r list" where
  "due f rs = remaining key topic (lf_key f) (uint (lf_IdCursor f)) rs"

definition sound_page :: "page_env \<Rightarrow> bool" where
  "sound_page env \<longleftrightarrow> \<not> pg_stop env \<and> pg_fault env = None \<and>
     log_ids_ok key (rows (pg_db env)) (nxt (pg_db env)) \<and> (\<forall>r \<in> set (rows (pg_db env)). conv r \<noteq> None)"

lemma converted_meta: "\<forall>m \<in> set (converted rs). \<exists>k i. ll_meta L m = Inr (Some (k, i))"
  using lane_meta by (auto simp: map_filter_def)

lemma of_key_converted [simp]: "of_key L t (converted rs) = converted (filter (\<lambda>r. topic r = t) rs)"
  using lane_meta by (induction rs) (auto simp: of_key_def List.map_filter_simps split: option.split)

lemma converted_append [simp]: "converted (xs @ ys) = converted xs @ converted ys"
  by (simp add: map_filter_def)

lemma remaining_topic: "\<forall>r \<in> set (remaining key topic t c rs). topic r = t"
  by (simp add: remaining_def)

lemma fetch_page_sound:
  assumes env: "sound_page env" and t: "t \<noteq> []" and e: "lg_errChan st = []"
    and p: "pi_Direction p = SORT_ASCENDING" "0 \<le> paging_idCursor (Some p)"
  obtains (short) st' where "fetch_page L (\<lambda>_. None) env t p st = (st', Finished)"
      "sent L (converted (remaining key topic t (paging_idCursor (Some p)) (rows (pg_db env)))) st st'"
    | (full) st' page p' where "fetch_page L (\<lambda>_. None) env t p st = (st', Fetching p')" "sent L (converted page) st st'"
      "page \<noteq> []" "pi_Direction p' = SORT_ASCENDING" "paging_idCursor (Some p) < paging_idCursor (Some p')"
      "paging_idCursor (Some p') = key (last page)" "last page \<in> set (rows (pg_db env))"
      "remaining key topic t (paging_idCursor (Some p)) (rows (pg_db env)) =
         page @ remaining key topic t (paging_idCursor (Some p')) (rows (pg_db env))"
proof -
  have ok: "log_ids_ok key (rows (pg_db env)) (nxt (pg_db env))" and conv: "\<forall>r \<in> set (rows (pg_db env)). conv r \<noteq> None"
    using env by (auto simp: sound_page_def)
  show thesis
  proof (cases "query t p (pg_db env)")
    case (Inl err)
    then show thesis using query_returns [OF t] by simp
  next
    case (Inr mp)
    obtain ms p' where mp: "mp = (ms, p')" by (cases mp)
    with Inr have q: "query t p (pg_db env) = Inr (ms, p')" by simp
    have page: "fetch_page L (\<lambda>_. None) env t p st = (st', if ms = [] \<or> pi_IdCursor p' = 0 then Finished else Fetching p')"
      if "sendToStream L (\<lambda>_. None) ms st = (st', None)" for st'
      using that q env e by (simp add: fetch_page_def sound_page_def lane_query)
    from page_step [OF ok t p(1) refl p(2) q] show thesis
    proof cases
      case a: 1
      obtain st' where "sendToStream L (\<lambda>_. None) ms st = (st', None)" "sent L ms st st'"
        using sendToStream_sent [of ms L st] converted_meta a(2) by metis
      with a page show thesis by (intro short) auto
    next
      case b: (2 pg)
      obtain st' where st': "sendToStream L (\<lambda>_. None) ms st = (st', None)" "sent L ms st st'"
        using sendToStream_sent [of ms L st] converted_meta b(2) by metis
      have "ms \<noteq> []" using b(1,2,8) conv by (auto simp: map_filter_def filter_empty_conv intro!: bexI [of _ "last pg"])
      with b page [OF st'(1)] st'(2) show thesis by (intro full) auto
    qed
  qed
qed

text \<open>
  The state of one goroutine: what it has read so far, against any later state \<open>db\<close> of the table.
\<close>

definition goroutine :: "legacy_filter \<Rightarrow> page_env list \<Rightarrow> nat \<Rightarrow> fetching \<Rightarrow> 'r list \<Rightarrow> bool" where
  "goroutine f envs n g h \<longleftrightarrow> (\<forall>r \<in> set h. topic r = lf_key f) \<and>
     (case g of
        Finished \<Rightarrow> \<exists>env \<in> set envs. h = due f (rows (pg_db env))
      | Fetching p \<Rightarrow> pi_Direction p = SORT_ASCENDING \<and> 0 \<le> paging_idCursor (Some p) \<and> n \<le> length h \<and>
          (\<forall>db. log_ids_ok key (rows db) (nxt db) \<longrightarrow> (\<forall>env \<in> set envs. prefix (rows (pg_db env)) (rows db)) \<longrightarrow>
             due f (rows db) = h @ remaining key topic (lf_key f) (paging_idCursor (Some p)) (rows db)))"

lemma goroutine_more:
  "goroutine f envs n g h \<Longrightarrow> goroutine f (envs @ [env]) n g h"
  by (auto simp: goroutine_def split: fetching.splits)

lemma remaining_extends:
  assumes "remaining key topic t c rs = page @ remaining key topic t c' rs" and "c < c'"
    and "c' = key (last page)" "last page \<in> set rs" and "prefix rs rs'" "ascending key rs'"
  shows "remaining key topic t c rs' = page @ remaining key topic t c' rs'"
proof -
  obtain zs where zs: "rs' = rs @ zs" using assms(5) by (auto simp: prefix_def)
  with assms(2-6) have "remaining key topic t c zs = remaining key topic t c' zs"
    by (fastforce simp: remaining_def intro: filter_cong)
  with zs assms(1) show ?thesis by (simp add: remaining_def)
qed

lemma goroutine_full:
  assumes g: "goroutine f envs n (Fetching p) h" and env: "sound_page env"
    and chain: "\<forall>e \<in> set envs. prefix (rows (pg_db e)) (rows (pg_db env))"
    and page: "page \<noteq> []" "pi_Direction p' = SORT_ASCENDING" "paging_idCursor (Some p) < paging_idCursor (Some p')"
      "paging_idCursor (Some p') = key (last page)" "last page \<in> set (rows (pg_db env))"
      "remaining key topic (lf_key f) (paging_idCursor (Some p)) (rows (pg_db env)) =
         page @ remaining key topic (lf_key f) (paging_idCursor (Some p')) (rows (pg_db env))"
  shows "goroutine f (envs @ [env]) (Suc n) (Fetching p') (h @ page)"
proof -
  have "\<forall>r \<in> set page. topic r = lf_key f"
    using page(6) remaining_topic [of "lf_key f" "paging_idCursor (Some p)" "rows (pg_db env)"] by auto
  moreover have "due f (rows db) = (h @ page) @ remaining key topic (lf_key f) (paging_idCursor (Some p')) (rows db)"
    if "log_ids_ok key (rows db) (nxt db)" "\<forall>e \<in> set (envs @ [env]). prefix (rows (pg_db e)) (rows db)" for db
    using g that remaining_extends [OF page(6,3,4,5), of "rows db"] log_ids_okD(1)
    by (auto simp: goroutine_def)
  moreover have "Suc n \<le> length (h @ page)" using g page(1) by (cases page) (auto simp: goroutine_def)
  ultimately show ?thesis using g page(2,3) by (auto simp: goroutine_def)
qed

lemma goroutine_short:
  assumes g: "goroutine f envs n (Fetching p) h" and env: "sound_page env"
    and chain: "\<forall>e \<in> set envs. prefix (rows (pg_db e)) (rows (pg_db env))"
  shows "goroutine f (envs @ [env]) m Finished
    (h @ remaining key topic (lf_key f) (paging_idCursor (Some p)) (rows (pg_db env)))"
  using assms remaining_topic [of "lf_key f" "paging_idCursor (Some p)" "rows (pg_db env)"]
  by (auto simp: goroutine_def sound_page_def)

definition history_inv :: "legacy_filter list \<Rightarrow> (nat \<times> page_env) list \<Rightarrow> 'm legacy_stream \<times> fetching list \<Rightarrow> (nat \<Rightarrow> 'r list) \<Rightarrow> bool" where
  "history_inv filters sched c H \<longleftrightarrow> length (snd c) = length filters \<and> lg_errChan (fst c) = [] \<and>
     (\<forall>i < length filters.
        of_key L (lf_key (filters ! i)) (lg_delivered (fst c)) = passing (legacy_id L) 0 (converted (H i)) \<and>
        lg_marks (fst c) (lf_key (filters ! i)) = last_mark (legacy_id L) 0 (converted (H i)) \<and>
        goroutine (filters ! i) (map snd sched) (length (filter (\<lambda>s. fst s = i) sched)) (snd c ! i) (H i))"

text \<open>One page step of goroutine \<open>i\<close> that sends the rows \<open>page\<close>.\<close>

lemma history_inv_send:
  assumes inv: "history_inv filters sched (st, fs) H" and d: "distinct (map lf_key filters)" and i: "i < length filters"
    and s: "sent L (converted page) st st'"
    and g: "goroutine (filters ! i) (map snd sched @ [env]) (Suc (length (filter (\<lambda>s. fst s = i) sched))) f (H i @ page)"
  shows "history_inv filters (sched @ [(i, env)]) (st', fs[i := f]) (H(i := H i @ page))"
proof -
  have top: "\<forall>r \<in> set page. topic r = lf_key (filters ! i)"
    using g by (simp add: goroutine_def)
  have keys: "filter (\<lambda>r. topic r = lf_key (filters ! j)) page = (if j = i then page else [])"
    if "j < length filters" for j
  proof (cases "j = i")
    case False
    then have "lf_key (filters ! j) \<noteq> lf_key (filters ! i)" using d i that by (simp add: distinct_conv_nth)
    with False top show ?thesis by (auto simp: filter_empty_conv)
  qed (use top in \<open>simp add: filter_id_conv\<close>)
  show ?thesis unfolding history_inv_def
  proof (intro conjI allI impI)
    fix j assume j: "j < length filters"
    have old: "of_key L (lf_key (filters ! j)) (lg_delivered st) = passing (legacy_id L) 0 (converted (H j))"
      "lg_marks st (lf_key (filters ! j)) = last_mark (legacy_id L) 0 (converted (H j))"
      "goroutine (filters ! j) (map snd sched) (length (filter (\<lambda>s. fst s = j) sched)) (fs ! j) (H j)"
      "length fs = length filters"
      using inv j by (auto simp: history_inv_def)
    show "of_key L (lf_key (filters ! j)) (lg_delivered (fst (st', fs[i := f]))) =
        passing (legacy_id L) 0 (converted ((H(i := H i @ page)) j))"
      using s old keys [OF j] by (simp add: sent_def passing_append List.map_filter_simps)
    show "lg_marks (fst (st', fs[i := f])) (lf_key (filters ! j)) =
        last_mark (legacy_id L) 0 (converted ((H(i := H i @ page)) j))"
      using s old keys [OF j] by (simp add: sent_def last_mark_append List.map_filter_simps)
    show "goroutine (filters ! j) (map snd (sched @ [(i, env)])) (length (filter (\<lambda>s. fst s = j) (sched @ [(i, env)])))
        (snd (st', fs[i := f]) ! j) ((H(i := H i @ page)) j)"
      using g goroutine_more [OF old(3)] old(4) j by (cases "j = i") simp_all
  qed (use inv s in \<open>auto simp: history_inv_def sent_def\<close>)
qed

lemma fetchHistorical_inv:
  assumes d: "distinct (map lf_key filters)" and f: "\<forall>f \<in> set filters. lf_key f \<noteq> [] \<and> uint (lf_IdCursor f) < 2 ^ 63"
    and ok: "\<forall>s \<in> set sched. sound_page (snd s)"
    and chain: "sorted_wrt (\<lambda>e e'. prefix (rows (pg_db e)) (rows (pg_db e'))) (map snd sched)"
  shows "\<exists>H. history_inv filters sched (fetchHistorical L (\<lambda>_. None) filters sched) H"
  using ok chain
proof (induction sched rule: rev_induct)
  case Nil
  have "paging_idCursor (Some (first_page (filters ! i))) = uint (lf_IdCursor (filters ! i))" if "i < length filters" for i
    using f that by (simp add: paging_idCursor_def first_page_def go_int64_small)
  then have "history_inv filters [] (fetchHistorical L (\<lambda>_. None) filters []) (\<lambda>_. [])"
    by (auto simp: history_inv_def fetchHistorical_def new_legacy_def goroutine_def due_def first_page_def List.map_filter_simps)
  then show ?case by blast
next
  case (snoc s sched)
  let ?run = "\<lambda>sched. fetchHistorical L (\<lambda>_. None) filters sched"
  obtain i env where s: "s = (i, env)" by (cases s)
  obtain st fs where run: "?run sched = (st, fs)" by (cases "?run sched")
  from snoc obtain H where inv: "history_inv filters sched (st, fs) H" unfolding run by (auto simp: sorted_wrt_append)
  have env: "sound_page env" and before: "\<forall>e \<in> set (map snd sched). prefix (rows (pg_db e)) (rows (pg_db env))"
    using snoc.prems s by (auto simp: sorted_wrt_append)
  have next_run: "?run (sched @ [s]) = history_step L (\<lambda>_. None) filters (i, env) (st, fs)"
    using run s by (simp add: fetchHistorical_def)
  have stay: ?case if "?run (sched @ [s]) = (st, fs)" "i < length filters \<Longrightarrow> fs ! i = Finished"
  proof -
    have "history_inv filters (sched @ [s]) (st, fs) H"
      unfolding history_inv_def
    proof (intro conjI allI impI)
      fix j assume j: "j < length filters"
      have "goroutine (filters ! j) (map snd sched) (length (filter (\<lambda>s. fst s = j) sched)) (fs ! j) (H j)"
        using inv j by (simp add: history_inv_def)
      from goroutine_more [OF this, of env]
      show "goroutine (filters ! j) (map snd (sched @ [s])) (length (filter (\<lambda>s. fst s = j) (sched @ [s]))) (snd (st, fs) ! j) (H j)"
        using that(2) j s by (cases "j = i") (auto simp: goroutine_def)
    qed (use inv in \<open>auto simp: history_inv_def\<close>)
    with that(1) show ?thesis by auto
  qed
  show ?case
  proof (cases "i < length filters")
    case False
    then show ?thesis using next_run by (intro stay) (simp_all add: history_step_def)
  next
    case i: True
    show ?thesis
    proof (cases "fs ! i")
      case Finished
      with i next_run show ?thesis by (intro stay) (simp_all add: history_step_def)
    next
      case (Fetching p)
      let ?t = "lf_key (filters ! i)"
      have g: "goroutine (filters ! i) (map snd sched) (length (filter (\<lambda>s. fst s = i) sched)) (Fetching p) (H i)"
        using inv i Fetching by (auto simp: history_inv_def)
      have p: "pi_Direction p = SORT_ASCENDING" "0 \<le> paging_idCursor (Some p)" using g by (auto simp: goroutine_def)
      have st: "lg_errChan st = []" and t: "?t \<noteq> []" using inv f i by (auto simp: history_inv_def)
      have step: "?run (sched @ [s]) = (st', fs[i := g'])" if "fetch_page L (\<lambda>_. None) env ?t p st = (st', g')" for st' g'
        using that i Fetching next_run by (simp add: history_step_def)
      from fetch_page_sound [OF env t st p] show ?thesis
      proof cases
        case short: (1 st')
        from history_inv_send [OF inv d i short(2) goroutine_short [OF g env before]] step [OF short(1)]
        show ?thesis using s by auto
      next
        case full: (2 st' page p')
        from history_inv_send [OF inv d i full(2) goroutine_full [OF g env before full(3-8)]] step [OF full(1)]
        show ?thesis using s by auto
      qed
    qed
  qed
qed

end

subsection \<open>Live messages after history\<close>

lemma last_mark_last:
  "sorted_wrt (<) (map ident ms) \<Longrightarrow> \<forall>m \<in> set ms. c < ident m \<Longrightarrow>
     last_mark ident c ms = (if ms = [] then c else ident (last ms))"
proof (induction ms arbitrary: c)
  case (Cons m ms)
  then have "last_mark ident (ident m) ms = (if ms = [] then ident m else ident (last ms))" by simp
  moreover have "\<not> ident m \<le> c" using Cons.prems by (simp add: not_le)
  ultimately show ?case by simp
qed simp

lemma passing_subset: "set (passing ident c ms) \<subseteq> set ms"
  by (induction ms arbitrary: c) auto

context legacy_source
begin

abbreviation row_id :: "'r \<Rightarrow> u64" where
  "row_id r \<equiv> go_uint64 (key r)"

lemma row_id_less:
  assumes "log_ids_ok key rs n" "r \<in> set rs" "r' \<in> set rs"
  shows "row_id r < row_id r' \<longleftrightarrow> key r < key r'" and "0 < row_id r"
    and "(c :: u64) < row_id r \<longleftrightarrow> uint c < key r"
  using log_ids_ok_uint [OF assms(1)] log_ids_okD(2) [OF assms(1)] assms(2,3)
  by (simp_all add: word_less_def)

lemma row_id_sorted:
  assumes "log_ids_ok key rs n" and xs: "ascending key xs" "set xs \<subseteq> set rs"
  shows "sorted_wrt (<) (map row_id xs)"
proof -
  have "sorted_wrt (\<lambda>r r'. key r < key r') xs" using xs(1) by (simp add: ascending_def sorted_wrt_map)
  then show ?thesis unfolding sorted_wrt_map
    by (rule sorted_wrt_mono_rel [rotated]) (use row_id_less(1) [OF assms(1)] xs(2) in auto)
qed

lemma passing_converted:
  "\<forall>r \<in> set rs. conv r \<noteq> None \<Longrightarrow> passing (legacy_id L) c (converted rs) = converted (passing row_id c rs)"
  using lane_meta by (induction rs arbitrary: c) (fastforce simp: List.map_filter_simps legacy_id_def)+

lemma filter_converted:
  "\<forall>r \<in> set rs. c < row_id r \<longleftrightarrow> P r \<Longrightarrow> filter (\<lambda>m. c < legacy_id L m) (converted rs) = converted (filter P rs)"
proof (induction rs)
  case (Cons r rs)
  then show ?case using lane_meta by (cases "conv r") (auto simp: List.map_filter_simps legacy_id_def)
qed (simp add: List.map_filter_simps)

text \<open>
  History up to a snapshot, and live rows from a position at or before it, are the rows above the
  cursor; only a live row at or below the cursor can come in addition.
\<close>

lemma history_live_tiles:
  assumes ok: "log_ids_ok key (S @ a @ b) n" and c: "c = uint (lf_IdCursor f)"
  shows "filter (\<lambda>r. c < key r) (passing row_id 0 (due f (S @ a) @ filter (\<lambda>r. topic r = lf_key f) (a @ b))) =
    due f (S @ a @ b)"
proof -
  let ?H = "due f (S @ a)" and ?L = "filter (\<lambda>r. topic r = lf_key f) (a @ b)" and ?all = "S @ a @ b"
  have asc: "ascending key ?all" using log_ids_okD(1) [OF ok] .
  have sub: "set ?H \<subseteq> set ?all" "set ?L \<subseteq> set ?all" by (auto simp: due_def remaining_def)
  have ascH: "ascending key ?H" and ascL: "ascending key ?L"
    using asc by (auto simp: due_def remaining_def simp del: filter_append)
  have sH: "sorted_wrt (<) (map row_id ?H)" and sL: "sorted_wrt (<) (map row_id ?L)"
    using row_id_sorted [OF ok ascH sub(1)] row_id_sorted [OF ok ascL sub(2)] .
  have pos: "\<forall>r \<in> set ?H. 0 < row_id r" using row_id_less(2) [OF ok] sub(1) by blast
  have HH: "passing row_id 0 ?H = ?H" using passing_sorted [OF sH] pos by (simp add: filter_id_conv)
  have mark: "last_mark row_id 0 ?H = (if ?H = [] then 0 else row_id (last ?H))" by (rule last_mark_last [OF sH pos])
  have run: "passing row_id 0 (?H @ ?L) = ?H @ filter (\<lambda>r. last_mark row_id 0 ?H < row_id r) ?L"
    unfolding passing_append HH using passing_sorted [OF sL] by simp
  have rest: "filter (\<lambda>r. last_mark row_id 0 ?H < row_id r \<and> c < key r) ?L = due f b"
  proof -
    have tail: "c < key r \<and> last_mark row_id 0 ?H < row_id r \<longleftrightarrow> r \<in> set b \<and> c < key r"
      if r: "r \<in> set ?L" for r
    proof (cases "r \<in> set b")
      case True
      have "last_mark row_id 0 ?H < row_id r"
      proof (cases "?H = []")
        case False
        then have "last ?H \<in> set ?H" by simp
        then have "last ?H \<in> set (S @ a)" by (auto simp: due_def remaining_def)
        with asc True have "key (last ?H) < key r" "last ?H \<in> set ?all" "r \<in> set ?all" by auto
        with False show ?thesis unfolding mark using row_id_less(1) [OF ok] by simp
      qed (use mark row_id_less(2) [OF ok] r in auto)
      with True show ?thesis by simp
    next
      case False
      then have a: "r \<in> set a" using r by auto
      have "\<not> last_mark row_id 0 ?H < row_id r" if "c < key r"
      proof -
        have "r \<in> set ?H" using a r that c by (auto simp: due_def remaining_def)
        then have ne: "?H \<noteq> []" by auto
        have "key r \<le> key (last ?H)"
          using ascending_last [OF ascH \<open>r \<in> set ?H\<close>] .
        moreover have "last ?H \<in> set ?all" "r \<in> set ?all" using a last_in_set [OF ne] by (auto simp: due_def remaining_def)
        ultimately show ?thesis unfolding mark using row_id_less(1) [OF ok] ne by (simp add: not_less)
      qed
      with False show ?thesis by blast
    qed
    have out: "r \<notin> set b" if "r \<in> set a" for r using that asc by (auto dest: ascending_distinct)
    have "filter (\<lambda>r. last_mark row_id 0 ?H < row_id r \<and> c < key r) ?L = filter (\<lambda>r. r \<in> set b \<and> c < key r) ?L"
      using tail by (intro filter_cong) (blast intro: refl)+
    also have "\<dots> = due f b" using out c by (auto simp: due_def remaining_def filter_empty_conv intro: filter_cong)
    finally show ?thesis .
  qed
  have split: "filter P (h @ filter Q l) = filter P h @ filter (\<lambda>r. Q r \<and> P r) l" for P Q and h l :: "'r list" by simp
  have "filter (\<lambda>r. c < key r) ?H = ?H" unfolding filter_id_conv using c by (auto simp: due_def remaining_def)
  then have "filter (\<lambda>r. c < key r) (passing row_id 0 (?H @ ?L)) = ?H @ due f b"
    unfolding run split rest by simp
  then show ?thesis by (simp add: due_def remaining_def)
qed

lemma live_loop_sent:
  assumes "\<forall>r \<in> set rs. \<exists>m. conv r = Some m \<and> ll_parse L (enc r) = Some m"
  shows "\<exists>st'. live_loop L (\<lambda>_. None) s (map (\<lambda>r. LiveEnvelope (enc r)) rs) st = (st', None) \<and> sent L (converted rs) st st'"
  using assms
proof (induction rs arbitrary: st)
  case (Cons r rs)
  then obtain m where m: "conv r = Some m" "ll_parse L (enc r) = Some m" by auto
  obtain st1 where st1: "sendToStream L (\<lambda>_. None) [m] st = (st1, None)" "sent L [m] st st1"
    using sendToStream_sent [of "[m]" L st] lane_meta [OF m(1)] by auto
  from Cons obtain st' where "live_loop L (\<lambda>_. None) s (map (\<lambda>r. LiveEnvelope (enc r)) rs) st1 = (st', None)"
    "sent L (converted rs) st1 st'" by fastforce
  with st1 m sent_trans [OF st1(2)] show ?case by (auto simp: live_step_def List.map_filter_simps)
qed (simp add: sent_def List.map_filter_simps)

lemma delivery_complete:
  assumes d: "distinct (map lf_key filters)" and f: "\<forall>f \<in> set filters. lf_key f \<noteq> [] \<and> uint (lf_IdCursor f) < 2 ^ 63"
    and ok: "\<forall>s \<in> set sched. sound_page (snd s)"
    and chain: "sorted_wrt (\<lambda>x y. prefix (rows x) (rows y)) (start # map (\<lambda>s. pg_db (snd s)) sched @ [final])"
    and final: "log_ids_ok key (rows final) (nxt final)" "\<forall>r \<in> set (rows final). conv r \<noteq> None"
    and live: "live = filter (\<lambda>r. topic r \<in> lf_key ` set filters) (drop (length (rows start)) (rows final))"
    and parse: "\<forall>r \<in> set live. ll_parse L (enc r) = conv r"
    and enough: "\<forall>i < length filters. length (rows final) < length (filter (\<lambda>s. fst s = i) sched)"
  shows "\<exists>st. serve_legacy L (\<lambda>_. None) svc filters sched (map (\<lambda>r. LiveEnvelope (enc r)) live) = (st, None) \<and>
    (\<forall>f \<in> set filters. filter (\<lambda>m. lf_IdCursor f < legacy_id L m) (of_key L (lf_key f) (lg_delivered st)) =
       converted (due f (rows final)))"
proof -
  have snaps: "sorted_wrt (\<lambda>e e'. prefix (rows (pg_db e)) (rows (pg_db e'))) (map snd sched)"
    using chain by (simp add: sorted_wrt_append sorted_wrt_map)
  obtain st fs where run: "fetchHistorical L (\<lambda>_. None) filters sched = (st, fs)"
    by (cases "fetchHistorical L (\<lambda>_. None) filters sched")
  from fetchHistorical_inv [OF d f ok snaps] obtain H where inv: "history_inv filters sched (st, fs) H"
    unfolding run by blast
  have fin: "fs ! i = Finished \<and> (\<exists>env \<in> snd ` set sched. H i = due (filters ! i) (rows (pg_db env)))"
    if i: "i < length filters" for i
  proof (cases "fs ! i")
    case Finished
    then show ?thesis using inv i by (auto simp: history_inv_def goroutine_def)
  next
    case (Fetching p)
    have upto: "\<forall>env \<in> set (map snd sched). prefix (rows (pg_db env)) (rows final)"
      using chain by (auto simp: sorted_wrt_append)
    have "due (filters ! i) (rows final) = H i @ remaining key topic (lf_key (filters ! i)) (paging_idCursor (Some p)) (rows final)"
      "length (filter (\<lambda>s. fst s = i) sched) \<le> length (H i)"
      using inv i Fetching final(1) upto by (auto simp: history_inv_def goroutine_def)
    moreover have "length (due (filters ! i) (rows final)) \<le> length (rows final)" by (simp add: due_def remaining_def)
    ultimately have "length (filter (\<lambda>s. fst s = i) sched) \<le> length (rows final)" by simp
    with enough i show ?thesis by force
  qed
  have len: "length fs = length filters" using inv by (simp add: history_inv_def)
  have all: "list_all (\<lambda>f. f = Finished) fs" using fin len by (simp add: list_all_length)
  obtain ab where T: "rows final = rows start @ ab" using chain by (auto simp: prefix_def)
  have sub: "set live \<subseteq> set (rows final)" using T live by auto
  with parse final(2) have "\<forall>r \<in> set live. \<exists>m. conv r = Some m \<and> ll_parse L (enc r) = Some m" by force
  from live_loop_sent [OF this, of svc st] obtain st' where
    st': "live_loop L (\<lambda>_. None) svc (map (\<lambda>r. LiveEnvelope (enc r)) live) st = (st', None)" "sent L (converted live) st st'"
    by blast
  have "filter (\<lambda>m. lf_IdCursor f < legacy_id L m) (of_key L (lf_key f) (lg_delivered st')) = converted (due f (rows final))"
    if "f \<in> set filters" for f
  proof -
    from that obtain i where i: "i < length filters" "f = filters ! i" by (metis in_set_conv_nth)
    from fin [OF i(1)] i obtain env where env: "env \<in> snd ` set sched" "H i = due f (rows (pg_db env))" by auto
    have pre: "prefix (rows start) (rows (pg_db env))" "prefix (rows (pg_db env)) (rows final)"
      using chain env(1) by (auto simp: sorted_wrt_append)
    then obtain a b where ab': "rows (pg_db env) = rows start @ a" "rows final = rows start @ a @ b"
      by (auto simp: prefix_def)
    have L: "filter (\<lambda>r. topic r = lf_key f) live = filter (\<lambda>r. topic r = lf_key f) (a @ b)"
      using live ab' that by (auto intro!: arg_cong2 [of _ _ _ _ "(@)"] filter_cong)
    let ?rs = "H i @ filter (\<lambda>r. topic r = lf_key f) live"
    have in_T: "set ?rs \<subseteq> set (rows final)" using env(2) ab' sub by (auto simp: due_def remaining_def)
    then have some: "\<forall>r \<in> set ?rs. conv r \<noteq> None" using final(2) by blast
    have "of_key L (lf_key f) (lg_delivered st') = passing (legacy_id L) 0 (converted ?rs)"
      using inv i st'(2) by (simp add: history_inv_def sent_def passing_append)
    also have "\<dots> = converted (passing row_id 0 ?rs)" by (rule passing_converted [OF some])
    finally have del: "of_key L (lf_key f) (lg_delivered st') = converted (passing row_id 0 ?rs)" .
    have "set (passing row_id 0 rs) \<subseteq> set rs" for rs and c :: u64
      by (rule passing_subset)
    then have "filter (\<lambda>m. lf_IdCursor f < legacy_id L m) (converted (passing row_id 0 ?rs)) =
        converted (filter (\<lambda>r. uint (lf_IdCursor f) < key r) (passing row_id 0 ?rs))"
      using in_T row_id_less(3) [OF final(1)] by (intro filter_converted) blast
    then show ?thesis using del history_live_tiles [OF final(1) [unfolded ab'] refl, of f] env(2) ab' L by simp
  qed
  moreover have "serve_legacy L (\<lambda>_. None) svc filters sched (map (\<lambda>r. LiveEnvelope (enc r)) live) = (st', None)"
    using run all st'(1) by (simp add: serve_legacy_def)
  ultimately show ?thesis by blast
qed

end

subsection \<open>Group messages\<close>

lemma group_lane_simps [simp]:
  "ll_meta (group_stream_lane u) = group_meta" "ll_query (group_stream_lane u) None t p db = group_page_query t p db"
  "ll_parse (group_stream_lane u) env = (case u (message_bytes env) of Inl _ \<Rightarrow> None | Inr m \<Rightarrow> Some m)"
  by (simp_all add: group_stream_lane_def group_page_query_def)

lemma welcome_lane_simps [simp]:
  "ll_meta (welcome_stream_lane u) = welcome_meta" "ll_query (welcome_stream_lane u) None t p db = welcome_page_query t p db"
  "ll_parse (welcome_stream_lane u) env =
     (case Message env of None \<Rightarrow> None | Some b \<Rightarrow> (case u b of Inl _ \<Rightarrow> None | Inr m \<Rightarrow> Some m))"
  by (simp_all add: welcome_stream_lane_def welcome_page_query_def)

interpretation gstream: legacy_source group_messages gr_ID gr_GroupID group_messages_seq
  "\<lambda>r. Some (group_message_proto r)" group_page_query "group_stream_lane u" for u
  by unfold_locales (auto simp: group_page_query_def group_meta_def group_message_proto_def QueryGroupMessagesV1_def
      QueryGroupMessagesWithCursorAsc_def QueryGroupMessagesWithCursorDesc_def QueryGroupMessages_def Let_def split: if_splits)

interpretation wstream: legacy_source welcome_messages wr_ID wr_InstallationKey welcome_messages_seq
  welcome_message_proto welcome_page_query "welcome_stream_lane u" for u
  by unfold_locales (auto simp: welcome_page_query_def welcome_meta_def welcome_message_proto_def QueryWelcomeMessagesV1_def
      QueryWelcomeMessagesWithCursorAsc_def QueryWelcomeMessagesWithCursorDesc_def QueryWelcomeMessages_def Let_def split: if_splits)

lemma of_key_group: "t \<noteq> [] \<Longrightarrow> of_key (group_stream_lane u) t = filter (\<lambda>m. GetGroupId m = t)"
  by (auto simp: of_key_def group_meta_def GetGroupId_def split: option.split intro!: ext filter_cong)

lemma legacy_id_group [simp]: "legacy_id (group_stream_lane u) = GetId"
  by (auto simp: legacy_id_def group_meta_def GetId_def split: option.split)

text \<open>A snapshot a group page can be read from without trouble.\<close>

definition group_page_ok :: "page_env \<Rightarrow> bool" where
  "group_page_ok env \<longleftrightarrow> \<not> pg_stop env \<and> pg_fault env = None \<and>
     log_ids_ok gr_ID (group_messages (pg_db env)) (group_messages_seq (pg_db env))"

lemma group_envs_decode:
  assumes "\<forall>r \<in> set rs. \<exists>b. marshal (group_message_proto r) = Inr b \<and> unmarshal b = Inr (group_message_proto r)"
  shows "\<exists>enc. envs_of (group_envelope marshal) rs = map enc rs \<and>
    (\<forall>r \<in> set rs. unmarshal (message_bytes (enc r)) = Inr (group_message_proto r))"
proof -
  define enc where "enc r = (case group_envelope marshal r of Inr (Some e) \<Rightarrow> e)" for r
  have "envs_of (group_envelope marshal) rs = map enc rs"
    using assms by (induction rs) (auto simp: envs_of_def List.map_filter_simps group_envelope_def enc_def)
  moreover have "\<forall>r \<in> set rs. unmarshal (message_bytes (enc r)) = Inr (group_message_proto r)"
    using assms by (auto simp: enc_def group_envelope_def message_bytes_def)
  ultimately show ?thesis by blast
qed


definition test_log :: "int \<Rightarrow> mls_db" where
  "test_log n = empty_db\<lparr>group_messages := map (\<lambda>i. test_group_row i [7]) [1..n], group_messages_seq := n + 1\<rparr>"

definition test_page :: "int \<Rightarrow> page_env" where
  "test_page n = \<lparr>pg_stop = False, pg_fault = None, pg_db = test_log n\<rparr>"


subsection \<open>Where the streams fall short\<close>

text \<open>
  The cursor of a filter bounds the history only: marks start at 0, so a live message at or below
  the cursor is delivered again when nothing above the cursor was.
\<close>

lemma live_below_cursor_redelivered:
  assumes "ll_meta L m = Inr (Some (k, i))" and "ll_parse L env = Some m" and "lg_marks st k = 0" and "0 < i"
  shows "lg_delivered (fst (live_step L (\<lambda>_. None) s (LiveEnvelope env) st)) = lg_delivered st @ [m]"
  using assms by (simp add: live_step_def)

text \<open>
  A full page whose rows are all of an unknown type converts to no message, which the welcome stream
  takes for the end of the history, whatever follows the page.
\<close>

lemma unknown_page_ends_history:
  assumes "log_ids_ok wr_ID (welcome_messages (pg_db env)) n" and "k \<noteq> []" and "pg_fault env = None"
    and "\<forall>r \<in> set (take (nat (paging_pageSize (Some p))) (page_rows wr_ID (\<lambda>r. wr_InstallationKey r = k)
          (paging_sortDesc (Some p)) (paging_idCursor (Some p)) (welcome_messages (pg_db env)))). welcome_message_proto r = None"
  shows "fetch_page (welcome_stream_lane u) sendFault env k p st = (st, Finished)"
proof -
  have none: "List.map_filter f xs = []" if "\<forall>x \<in> set xs. f x = None" for f and xs :: "WelcomeMessageRow list"
    using that by (induction xs) (simp_all add: List.map_filter_simps)
  show ?thesis
    using none [OF assms(4)] assms(3)
    by (simp add: fetch_page_def welcome_stream_lane_def QueryWelcomeMessagesV1_eq [OF assms(1,2)])
qed

end
