(* ===== verification/Rate_Limiter.thy ===== *)
theory Rate_Limiter
  imports Prelude
begin

text \<open>
  The token bucket rate limiter (pkg/ratelimiter). Time is \<open>int\<close>, in nanoseconds; token counts, limits
  and costs are \<open>uint16\<close>, as in the code, and wrap where the code lets them. Each operation takes the
  instants \<open>time.Now\<close> returned to it. \<open>int(d.Minutes())\<close> is the number of whole minutes in \<open>d\<close>,
  which the float computation of the code yields for intervals of up to several weeks.

  The two bucket maps are association lists, since they are iterated. An entry is updated under its
  own mutex; the theorems on single entries hold for every sequence of refills and spends, hence for
  every interleaving of concurrent calls.
\<close>

section \<open>Entries\<close>

definition minute :: int where "minute = 60000000000"

definition DEFAULT_PRIORITY_MULTIPLIER :: u16 where "DEFAULT_PRIORITY_MULTIPLIER = 2"
definition PUBLISH_PRIORITY_MULTIPLIER :: u16 where "PUBLISH_PRIORITY_MULTIPLIER = 4"
definition DEFAULT_RATE_PER_MINUTE :: u16 where "DEFAULT_RATE_PER_MINUTE = 4000"
definition DEFAULT_MAX_TOKENS :: u16 where "DEFAULT_MAX_TOKENS = 20000"
definition PUBLISH_RATE_PER_MINUTE :: u16 where "PUBLISH_RATE_PER_MINUTE = 600"
definition PUBLISH_MAX_TOKENS :: u16 where "PUBLISH_MAX_TOKENS = 3000"
definition MAX_UINT_16 :: int where "MAX_UINT_16 = 65535"

datatype LimitType = DEFAULT | PUBLISH

record Entry =
  lastSeen :: int
  tokens :: u16

record Limit =
  MaxTokens :: u16
  RatePerMinute :: u16

definition minUint16 :: "u16 \<Rightarrow> u16 \<Rightarrow> u16" where
  "minUint16 x y = (if x \<le> y then x else y)"

definition Refill :: "Limit \<Rightarrow> u16 \<Rightarrow> int \<Rightarrow> Entry \<Rightarrow> Entry" where
  "Refill l multiplier now entry =
     (let ratePerMinute = RatePerMinute l * multiplier;
          maxTokens = MaxTokens l * multiplier;
          sinceLastSeen = now - lastSeen entry
      in if 0 < sinceLastSeen then
           let additional = uint ratePerMinute * (sinceLastSeen div minute);
               additionalTokens = (if MAX_UINT_16 < additional + uint (tokens entry)
                                   then MAX_UINT_16 - uint (tokens entry) else additional)
           in entry\<lparr>lastSeen := now, tokens := minUint16 (tokens entry + word_of_int additionalTokens) maxTokens\<rparr>
         else entry)"

definition spend_tokens :: "u16 \<Rightarrow> Entry \<Rightarrow> Entry option" where
  "spend_tokens cost entry = (if tokens entry < cost then None else Some (entry\<lparr>tokens := tokens entry - cost\<rparr>))"

section \<open>Buckets\<close>

type_synonym buckets = "(string \<times> Entry) list"

definition set_entry :: "string \<Rightarrow> Entry \<Rightarrow> buckets \<Rightarrow> buckets" where
  "set_entry b e bs = map (\<lambda>(k, x). if k = b then (k, e) else (k, x)) bs"

definition getAndRefill :: "string \<Rightarrow> Limit \<Rightarrow> u16 \<Rightarrow> bool \<Rightarrow> int \<Rightarrow> buckets \<Rightarrow> (buckets \<times> Entry) option" where
  "getAndRefill bucket limit multiplier createIfMissing now bs =
     (case map_of bs bucket of
        None \<Rightarrow>
          if \<not> createIfMissing then None
          else let e = \<lparr>lastSeen = now, tokens = MaxTokens limit * multiplier\<rparr> in Some (bs @ [(bucket, e)], e)
      | Some entry \<Rightarrow> let e = Refill limit multiplier now entry in Some (set_entry bucket e bs, e))"

definition deleteExpired :: "int \<Rightarrow> int \<Rightarrow> buckets \<Rightarrow> buckets \<times> nat" where
  "deleteExpired expiresAfter now bs =
     (let kept = filter (\<lambda>(k, e). \<not> expiresAfter < now - lastSeen e) bs in (kept, length bs - length kept))"

section \<open>The limiter\<close>

record limiter =
  newBuckets :: buckets
  oldBuckets :: buckets
  PriorityMultiplier :: u16
  PublishPriorityMultiplier :: u16
  Limits :: "LimitType \<Rightarrow> Limit"

definition NewTokenBucketRateLimiter :: limiter where
  "NewTokenBucketRateLimiter = \<lparr>newBuckets = [], oldBuckets = [], PriorityMultiplier = DEFAULT_PRIORITY_MULTIPLIER,
     PublishPriorityMultiplier = PUBLISH_PRIORITY_MULTIPLIER,
     Limits = (\<lambda>t. case t of
       DEFAULT \<Rightarrow> \<lparr>MaxTokens = DEFAULT_MAX_TOKENS, RatePerMinute = DEFAULT_RATE_PER_MINUTE\<rparr>
     | PUBLISH \<Rightarrow> \<lparr>MaxTokens = PUBLISH_MAX_TOKENS, RatePerMinute = PUBLISH_RATE_PER_MINUTE\<rparr>)\<rparr>"

definition multiplier_of :: "limiter \<Rightarrow> LimitType \<Rightarrow> bool \<Rightarrow> u16" where
  "multiplier_of rl limitType isPriority =
     (if isPriority then if limitType = PUBLISH then PublishPriorityMultiplier rl else PriorityMultiplier rl else 1)"

definition fillAndReturnEntry :: "LimitType \<Rightarrow> string \<Rightarrow> bool \<Rightarrow> int \<Rightarrow> limiter \<Rightarrow> limiter \<times> Entry" where
  "fillAndReturnEntry limitType bucket isPriority now rl =
     (let limit = Limits rl limitType; multiplier = multiplier_of rl limitType isPriority in
      case getAndRefill bucket limit multiplier False now (oldBuckets rl) of
        Some (bs, e) \<Rightarrow> (rl\<lparr>oldBuckets := bs\<rparr>, e)
      | None \<Rightarrow>
          (case getAndRefill bucket limit multiplier True now (newBuckets rl) of
             Some (bs, e) \<Rightarrow> (rl\<lparr>newBuckets := bs\<rparr>, e)
           | None \<Rightarrow> (rl, \<lparr>lastSeen = now, tokens = 0\<rparr>)))"

text \<open>The entry is shared by reference: what is spent is spent in the map that holds it.\<close>

definition put_entry :: "string \<Rightarrow> Entry \<Rightarrow> limiter \<Rightarrow> limiter" where
  "put_entry b e rl =
     (if map_of (oldBuckets rl) b \<noteq> None then rl\<lparr>oldBuckets := set_entry b e (oldBuckets rl)\<rparr>
      else rl\<lparr>newBuckets := set_entry b e (newBuckets rl)\<rparr>)"

definition Spend :: "LimitType \<Rightarrow> string \<Rightarrow> u16 \<Rightarrow> bool \<Rightarrow> int \<Rightarrow> limiter \<Rightarrow> limiter \<times> go_error option" where
  "Spend limitType bucket cost isPriority now rl =
     (let (rl', entry) = fillAndReturnEntry limitType bucket isPriority now rl in
      case spend_tokens cost entry of
        None \<Rightarrow> (rl', Some (Err (''exceeds rate limit '' @ bucket)))
      | Some entry' \<Rightarrow> (put_entry bucket entry' rl', None))"

definition sweepAndSwap :: "int \<Rightarrow> int \<Rightarrow> limiter \<Rightarrow> limiter \<times> nat" where
  "sweepAndSwap expiresAfter now rl =
     (let (old, deletedEntries) = deleteExpired expiresAfter now (oldBuckets rl)
      in (rl\<lparr>newBuckets := old, oldBuckets := newBuckets rl\<rparr>, deletedEntries))"

section \<open>Single entries\<close>

datatype entry_op = Touch int | Take u16

text \<open>The entry after a sequence of refills and spends, and the tokens granted.\<close>

fun entry_run :: "Limit \<Rightarrow> u16 \<Rightarrow> entry_op list \<Rightarrow> Entry \<Rightarrow> Entry \<times> int" where
  "entry_run l mult [] e = (e, 0)"
| "entry_run l mult (Touch now # ops) e = entry_run l mult ops (Refill l mult now e)"
| "entry_run l mult (Take c # ops) e =
     (case spend_tokens c e of
        None \<Rightarrow> entry_run l mult ops e
      | Some e' \<Rightarrow> (case entry_run l mult ops e' of (e'', n) \<Rightarrow> (e'', uint c + n)))"

lemma uint_refill:
  fixes t :: u16
  assumes "0 \<le> n" and "n + uint t \<le> 65535"
  shows "uint (t + word_of_int n) = uint t + n"
proof -
  have n: "0 \<le> n" "n < 65536" using assms uint_ge_0 [of t] by linarith+
  have "uint (t + word_of_int n) = (uint t + n) mod 65536"
    unfolding uint_word_ariths(1) uint_word_of_int by (simp add: mod_add_right_eq)
  then show ?thesis using assms uint_ge_0 [of t] by (simp add: mod_pos_pos_trivial)
qed

lemma minUint16_eq: "minUint16 = min"
  by (auto simp: minUint16_def min_def fun_eq_iff)

lemma uint_min: "uint (min a b) = min (uint a) (uint b)"
  by (simp add: min_def word_le_def)

lemma Refill_lastSeen: "lastSeen (Refill l m now e) = max (lastSeen e) now"
  by (simp add: Refill_def Let_def)

text \<open>The tokens after a refill, as integers: the clamp at 65535 makes the addition exact.\<close>

lemma Refill_tokens:
  "uint (tokens (Refill l m now e)) =
     (if lastSeen e < now
      then min (min (uint (tokens e) + uint (RatePerMinute l * m) * ((now - lastSeen e) div minute)) 65535) (uint (MaxTokens l * m))
      else uint (tokens e))"
proof (cases "lastSeen e < now")
  case True
  let ?a = "uint (RatePerMinute l * m) * ((now - lastSeen e) div minute)"
  have a: "0 \<le> ?a" using True by (simp add: minute_def pos_imp_zdiv_nonneg_iff)
  have t: "uint (tokens e) \<le> 65535" using uint_lt2p [of "tokens e"] by simp
  let ?n = "if 65535 < ?a + uint (tokens e) then 65535 - uint (tokens e) else ?a"
  have "uint (tokens e + word_of_int ?n) = uint (tokens e) + ?n"
    by (rule uint_refill) (use a t in \<open>simp_all split: if_splits\<close>)
  moreover have "tokens (Refill l m now e) = min (tokens e + word_of_int ?n) (MaxTokens l * m)"
    using True by (simp add: Refill_def Let_def minUint16_eq MAX_UINT_16_def)
  ultimately have "uint (tokens (Refill l m now e)) = min (uint (tokens e) + ?n) (uint (MaxTokens l * m))"
    by (simp only: uint_min)
  also have "uint (tokens e) + ?n = min (uint (tokens e) + ?a) 65535" by (simp add: min_def)
  finally show ?thesis using True by simp
qed (simp add: Refill_def)

lemma spend_tokens_eq:
  "spend_tokens c e = Some e' \<longleftrightarrow> c \<le> tokens e \<and> e' = e\<lparr>tokens := tokens e - c\<rparr>"
  by (auto simp: spend_tokens_def)

lemma spend_tokens_uint:
  "spend_tokens c e = Some e' \<Longrightarrow> uint (tokens e') = uint (tokens e) - uint c \<and> lastSeen e' = lastSeen e"
  by (auto simp: spend_tokens_eq uint_minus_simple_alt [symmetric] word_le_def uint_sub_if')

lemma div_add_le: "0 < (m :: int) \<Longrightarrow> 0 \<le> a \<Longrightarrow> 0 \<le> b \<Longrightarrow> a div m + b div m \<le> (a + b) div m"
  by (simp add: div_add1_eq [of a b m] pos_imp_zdiv_nonneg_iff)

lemma entry_run_Take:
  assumes "entry_run l m (Take c # ops) e = (e', n)"
  obtains "entry_run l m ops e = (e', n)"
    | e1 n1 where "spend_tokens c e = Some e1" "entry_run l m ops e1 = (e', n1)" "n = uint c + n1"
  using assms by (auto split: option.splits prod.splits)

text \<open>
  C26. The limiter keeps its rate: whatever a client and the scheduler do, the tokens ever granted from a
  bucket entry plus the tokens left in it are at most the tokens it started with plus the rate for the
  whole minutes between its first and last refill, for refills and spends of any number of concurrent
  calls in any order, clock readings out of order included. It never holds more than the limit
  once refilled.
\<close>

theorem granted_within_rate:
  assumes "entry_run l m ops e = (e', granted)"
  shows "granted + uint (tokens e') \<le>
      uint (tokens e) + uint (RatePerMinute l * m) * ((lastSeen e' - lastSeen e) div minute) \<and>
    lastSeen e \<le> lastSeen e' \<and> (tokens e \<le> MaxTokens l * m \<longrightarrow> tokens e' \<le> MaxTokens l * m)"
  using assms
proof (induction ops arbitrary: e granted)
  case (Cons op ops)
  let ?r = "uint (RatePerMinute l * m)"
  show ?case
  proof (cases op)
    case (Touch now)
    let ?e = "Refill l m now e"
    have ih: "granted + uint (tokens e') \<le> uint (tokens ?e) + ?r * ((lastSeen e' - lastSeen ?e) div minute)"
      "lastSeen ?e \<le> lastSeen e'" "tokens ?e \<le> MaxTokens l * m \<longrightarrow> tokens e' \<le> MaxTokens l * m"
      using Cons.IH [of ?e granted] Cons.prems Touch by simp_all
    have seen: "lastSeen e \<le> lastSeen ?e" by (simp add: Refill_lastSeen)
    have "uint (tokens ?e) \<le> uint (tokens e) + ?r * ((lastSeen ?e - lastSeen e) div minute)"
      by (simp add: Refill_tokens Refill_lastSeen min_le_iff_disj)
    moreover have "?r * ((lastSeen ?e - lastSeen e) div minute) + ?r * ((lastSeen e' - lastSeen ?e) div minute) \<le>
        ?r * ((lastSeen e' - lastSeen e) div minute)"
      using div_add_le [of minute "lastSeen ?e - lastSeen e" "lastSeen e' - lastSeen ?e"] seen ih(2)
      by (simp add: minute_def distrib_left [symmetric] mult_left_mono)
    moreover have "tokens e \<le> MaxTokens l * m \<longrightarrow> tokens ?e \<le> MaxTokens l * m"
      by (simp add: word_le_def Refill_tokens)
    ultimately show ?thesis using ih seen by linarith
  next
    case (Take c)
    from Cons.prems [unfolded Take] show ?thesis
    proof (cases rule: entry_run_Take)
      case 1
      then show ?thesis using Cons.IH by blast
    next
      case (2 e1 n1)
      have "uint (tokens e1) = uint (tokens e) - uint c" "lastSeen e1 = lastSeen e" "tokens e1 \<le> tokens e"
        using spend_tokens_uint [OF 2(1)] uint_ge_0 [of c] by (simp_all add: word_le_def)
      then show ?thesis using Cons.IH [OF 2(2)] 2(3) by auto
    qed
  qed
qed simp

theorem granted_within_rate_witness:
  "uint (300 :: u16) + uint (tokens (fst (entry_run \<lparr>MaxTokens = 400, RatePerMinute = 10\<rparr> 1 [Take 300, Take 300, Touch (5 * minute)]
       \<lparr>lastSeen = 0, tokens = 400\<rparr>))) \<le> 450"
proof -
  let ?r = "entry_run \<lparr>MaxTokens = 400, RatePerMinute = 10\<rparr> 1 [Take 300, Take 300, Touch (5 * minute)] \<lparr>lastSeen = 0, tokens = 400\<rparr>"
  have r: "?r = (fst ?r, 300)" "lastSeen (fst ?r) = 5 * minute"
    by (simp_all add: spend_tokens_def Refill_lastSeen minute_def)
  from granted_within_rate [OF r(1)] r(2) show ?thesis by (simp add: minute_def)
qed

text \<open>Refills less than a minute after the previous one.\<close>

fun busy :: "int \<Rightarrow> entry_op list \<Rightarrow> bool" where
  "busy since [] = True"
| "busy since (Take c # ops) = busy since ops"
| "busy since (Touch now # ops) = (now < since + minute \<and> busy (max since now) ops)"

text \<open>
  C39. A client that is never idle for a minute is never refilled: \<open>Refill\<close> moves \<open>lastSeen\<close> on every call
  and drops the fraction of a minute, so as long as the calls on an entry are less than a minute
  apart, everything it is ever granted comes out of the tokens it started with, however
  long that lasts.
\<close>

theorem busy_bucket_never_refills:
  assumes "entry_run l m ops e = (e', granted)" and "busy (lastSeen e) ops"
  shows "granted + uint (tokens e') \<le> uint (tokens e)"
  using assms
proof (induction ops arbitrary: e granted)
  case (Cons op ops)
  show ?case
  proof (cases op)
    case (Touch now)
    have "(now - lastSeen e) div minute = 0" if "lastSeen e < now"
      using Cons.prems(2) that Touch by (simp add: minute_def div_pos_pos_trivial)
    then have "uint (tokens (Refill l m now e)) \<le> uint (tokens e)" by (simp add: Refill_tokens min_le_iff_disj)
    then show ?thesis using Cons.IH [of "Refill l m now e" granted] Cons.prems Touch by (simp add: Refill_lastSeen)
  next
    case (Take c)
    from Cons.prems(1) [unfolded Take] show ?thesis
    proof (cases rule: entry_run_Take)
      case 1
      then show ?thesis using Cons.IH Cons.prems(2) Take by simp
    next
      case (2 e1 n1)
      then show ?thesis using Cons.IH [OF 2(2)] Cons.prems(2) Take spend_tokens_uint [OF 2(1)] by simp
    qed
  qed
qed simp

theorem busy_bucket_never_refills_witness:
  "let r = entry_run \<lparr>MaxTokens = 400, RatePerMinute = 10\<rparr> 1 (concat (map (\<lambda>i. [Touch (int i * 59000000000), Take 200]) [0..<6]))
       \<lparr>lastSeen = 0, tokens = 400\<rparr>
   in snd r = 400 \<and> lastSeen (fst r) = 295000000000 \<and> snd r + uint (tokens (fst r)) \<le> 400"
proof -
  let ?ops = "concat (map (\<lambda>i. [Touch (int i * 59000000000), Take 200]) [0..<6])"
  let ?r = "entry_run \<lparr>MaxTokens = 400, RatePerMinute = 10\<rparr> 1 ?ops \<lparr>lastSeen = 0, tokens = 400\<rparr>"
  have r: "snd ?r = 400" "lastSeen (fst ?r) = 295000000000" by code_simp+
  have b: "busy (lastSeen \<lparr>lastSeen = 0, tokens = 400\<rparr>) ?ops" by code_simp
  have "?r = (fst ?r, snd ?r)" by simp
  from busy_bucket_never_refills [OF this b] have "snd ?r + uint (tokens (fst ?r)) \<le> 400" by simp
  then show ?thesis unfolding Let_def using r by blast
qed

section \<open>The limiter against a single map\<close>

text \<open>A run of the limiter: calls of \<open>Spend\<close> and sweeps of the janitor, with the time of each.\<close>

datatype limiter_op = SpendOp LimitType string u16 bool | SweepOp

fun limiter_run :: "int \<Rightarrow> (int \<times> limiter_op) list \<Rightarrow> limiter \<Rightarrow> limiter \<times> go_error option list" where
  "limiter_run expiresAfter [] rl = (rl, [])"
| "limiter_run expiresAfter ((now, SweepOp) # ops) rl = limiter_run expiresAfter ops (fst (sweepAndSwap expiresAfter now rl))"
| "limiter_run expiresAfter ((now, SpendOp t b c p) # ops) rl =
     (let (rl1, err) = Spend t b c p now rl; (rl2, errs) = limiter_run expiresAfter ops rl1 in (rl2, err # errs))"

text \<open>The reference: one map of buckets, from which nothing is ever deleted.\<close>

definition fill :: "Limit \<Rightarrow> u16 \<Rightarrow> int \<Rightarrow> Entry option \<Rightarrow> Entry" where
  "fill l m now x = (case x of None \<Rightarrow> \<lparr>lastSeen = now, tokens = MaxTokens l * m\<rparr> | Some e \<Rightarrow> Refill l m now e)"

fun plain_run :: "limiter \<Rightarrow> (int \<times> limiter_op) list \<Rightarrow> (string \<Rightarrow> Entry option) \<Rightarrow> go_error option list" where
  "plain_run rl [] f = []"
| "plain_run rl ((now, SweepOp) # ops) f = plain_run rl ops f"
| "plain_run rl ((now, SpendOp t b c p) # ops) f =
     (let e = fill (Limits rl t) (multiplier_of rl t p) now (f b) in
      case spend_tokens c e of
        None \<Rightarrow> Some (Err (''exceeds rate limit '' @ b)) # plain_run rl ops (f(b := Some e))
      | Some e' \<Rightarrow> None # plain_run rl ops (f(b := Some e')))"

definition entry_of :: "limiter \<Rightarrow> string \<Rightarrow> Entry option" where
  "entry_of rl b = (case map_of (oldBuckets rl) b of None \<Rightarrow> map_of (newBuckets rl) b | Some e \<Rightarrow> Some e)"

definition limiter_inv :: "limiter \<Rightarrow> bool" where
  "limiter_inv rl \<longleftrightarrow> distinct (map fst (oldBuckets rl @ newBuckets rl))"

definition same_limits :: "limiter \<Rightarrow> limiter \<Rightarrow> bool" where
  "same_limits rl rl' \<longleftrightarrow> Limits rl' = Limits rl \<and> multiplier_of rl' = multiplier_of rl"

lemma set_entry_simps [simp]:
  "map fst (set_entry b e bs) = map fst bs" "map_of (set_entry b e bs) k = (if k = b \<and> map_of bs b \<noteq> None then Some e else map_of bs k)"
  by (induction bs) (auto simp: set_entry_def)

lemma fst_set_entry [simp]: "fst ` set (set_entry b e bs) = fst ` set bs"
  by (metis set_entry_simps(1) set_map)

lemma fillAndReturnEntry_spec:
  assumes "limiter_inv rl" and "fillAndReturnEntry t b p now rl = (rl', e)"
  shows "e = fill (Limits rl t) (multiplier_of rl t p) now (entry_of rl b) \<and> entry_of rl' = (entry_of rl)(b := Some e) \<and>
    limiter_inv rl' \<and> same_limits rl rl'"
proof (cases "map_of (oldBuckets rl) b")
  case (Some x)
  then have "e = Refill (Limits rl t) (multiplier_of rl t p) now x" "rl' = rl\<lparr>oldBuckets := set_entry b e (oldBuckets rl)\<rparr>"
    using assms(2) by (auto simp: fillAndReturnEntry_def getAndRefill_def Let_def)
  then show ?thesis using assms(1) Some
    by (simp add: fill_def entry_of_def limiter_inv_def same_limits_def multiplier_of_def fun_eq_iff split: option.split)
next
  case none: None
  show ?thesis
  proof (cases "map_of (newBuckets rl) b")
    case (Some x)
    then have "e = Refill (Limits rl t) (multiplier_of rl t p) now x" "rl' = rl\<lparr>newBuckets := set_entry b e (newBuckets rl)\<rparr>"
      using assms(2) none by (auto simp: fillAndReturnEntry_def getAndRefill_def Let_def)
    then show ?thesis using assms(1) none Some
      by (simp add: fill_def entry_of_def limiter_inv_def same_limits_def multiplier_of_def fun_eq_iff split: option.split)
  next
    case None
    have keys: "b \<notin> fst ` set (oldBuckets rl)" "b \<notin> fst ` set (newBuckets rl)"
      using none None by (simp_all add: map_of_eq_None_iff)
    have "e = \<lparr>lastSeen = now, tokens = MaxTokens (Limits rl t) * multiplier_of rl t p\<rparr>"
      "rl' = rl\<lparr>newBuckets := newBuckets rl @ [(b, e)]\<rparr>"
      using assms(2) none None by (auto simp: fillAndReturnEntry_def getAndRefill_def Let_def)
    then show ?thesis using assms(1) none None keys
      by (simp add: fill_def entry_of_def limiter_inv_def same_limits_def multiplier_of_def fun_eq_iff map_add_def split: option.split)
  qed
qed

lemma put_entry_spec:
  assumes "limiter_inv rl" and "entry_of rl b \<noteq> None"
  shows "entry_of (put_entry b e rl) = (entry_of rl)(b := Some e) \<and> limiter_inv (put_entry b e rl) \<and> same_limits rl (put_entry b e rl)"
  using assms
  by (cases "map_of (oldBuckets rl) b")
    (simp_all add: put_entry_def entry_of_def limiter_inv_def same_limits_def multiplier_of_def fun_eq_iff split: option.split)

lemma Spend_spec:
  assumes "limiter_inv rl" and "Spend t b c p now rl = (rl', err)"
  defines "e \<equiv> fill (Limits rl t) (multiplier_of rl t p) now (entry_of rl b)"
  shows "err = (if tokens e < c then Some (Err (''exceeds rate limit '' @ b)) else None)"
    and "entry_of rl' = (entry_of rl)(b := Some (if tokens e < c then e else e\<lparr>tokens := tokens e - c\<rparr>))"
    and "limiter_inv rl'" and "same_limits rl rl'"
proof -
  obtain rl1 e1 where f: "fillAndReturnEntry t b p now rl = (rl1, e1)" by fastforce
  note fs = fillAndReturnEntry_spec [OF assms(1) f]
  have e: "e1 = e" using fs by (simp add: e_def)
  note ps = put_entry_spec [of rl1 b "e\<lparr>tokens := tokens e - c\<rparr>"]
  have r: "(rl', err) = (if tokens e < c then (rl1, Some (Err (''exceeds rate limit '' @ b)))
      else (put_entry b (e\<lparr>tokens := tokens e - c\<rparr>) rl1, None))"
    using assms(2) f e by (cases "tokens e < c") (simp_all add: Spend_def spend_tokens_def)
  show "err = (if tokens e < c then Some (Err (''exceeds rate limit '' @ b)) else None)"
    using r by (simp split: if_splits)
  show "entry_of rl' = (entry_of rl)(b := Some (if tokens e < c then e else e\<lparr>tokens := tokens e - c\<rparr>))"
    using r fs ps e by (auto split: if_splits)
  show "limiter_inv rl'" using r fs ps by (auto split: if_splits)
  show "same_limits rl rl'" using r fs ps by (auto simp: same_limits_def split: if_splits)
qed

lemma map_of_filter_values:
  "distinct (map fst bs) \<Longrightarrow> map_of (filter (\<lambda>(k, e). P e) bs) b =
     (case map_of bs b of None \<Rightarrow> None | Some e \<Rightarrow> if P e then Some e else None)"
proof (induction bs)
  case (Cons x bs)
  obtain k e where x: "x = (k, e)" by (cases x)
  have "map_of bs k = None" using Cons.prems x by (simp add: map_of_eq_None_iff)
  then show ?case using Cons x by auto
qed simp

lemma sweepAndSwap_spec:
  assumes "limiter_inv rl"
  shows "entry_of (fst (sweepAndSwap expiresAfter now rl)) b = entry_of rl b \<or>
      entry_of (fst (sweepAndSwap expiresAfter now rl)) b = None \<and> (\<exists>e. entry_of rl b = Some e \<and> expiresAfter < now - lastSeen e)"
    and "limiter_inv (fst (sweepAndSwap expiresAfter now rl))" and "same_limits rl (fst (sweepAndSwap expiresAfter now rl))"
proof -
  let ?kept = "filter (\<lambda>(k, e). \<not> expiresAfter < now - lastSeen e) (oldBuckets rl)"
  have rl': "fst (sweepAndSwap expiresAfter now rl) = rl\<lparr>newBuckets := ?kept, oldBuckets := newBuckets rl\<rparr>"
    by (simp add: sweepAndSwap_def deleteExpired_def Let_def)
  have kept: "map_of ?kept b = (case map_of (oldBuckets rl) b of None \<Rightarrow> None
      | Some e \<Rightarrow> if \<not> expiresAfter < now - lastSeen e then Some e else None)"
    by (rule map_of_filter_values) (use assms in \<open>simp add: limiter_inv_def\<close>)
  have "map_of (oldBuckets rl) b = None \<or> map_of (newBuckets rl) b = None"
    using assms by (auto simp: limiter_inv_def map_of_eq_None_iff)
  then show "entry_of (fst (sweepAndSwap expiresAfter now rl)) b = entry_of rl b \<or>
      entry_of (fst (sweepAndSwap expiresAfter now rl)) b = None \<and> (\<exists>e. entry_of rl b = Some e \<and> expiresAfter < now - lastSeen e)"
    unfolding rl' entry_of_def using kept by (auto split: option.splits)
  have "fst ` set ?kept \<subseteq> fst ` set (oldBuckets rl)" by auto
  then show "limiter_inv (fst (sweepAndSwap expiresAfter now rl))"
    unfolding rl' limiter_inv_def using assms by (auto simp: limiter_inv_def distinct_map_filter)
  show "same_limits rl (fst (sweepAndSwap expiresAfter now rl))"
    unfolding rl' by (simp add: same_limits_def multiplier_of_def fun_eq_iff)
qed

text \<open>Expiry is slow enough: an entry that may be deleted would be refilled to its limit anyway.\<close>

definition full_after :: "int \<Rightarrow> limiter \<Rightarrow> bool" where
  "full_after expiresAfter rl \<longleftrightarrow>
     (\<forall>t p. uint (MaxTokens (Limits rl t) * multiplier_of rl t p) \<le>
       uint (RatePerMinute (Limits rl t) * multiplier_of rl t p) * (expiresAfter div minute))"

lemma fill_expired:
  assumes "uint (MaxTokens l * m) \<le> uint (RatePerMinute l * m) * (expiresAfter div minute)"
    and "expiresAfter < now - lastSeen e" and "0 \<le> expiresAfter"
  shows "fill l m now (Some e) = fill l m now None"
proof -
  have "expiresAfter div minute \<le> (now - lastSeen e) div minute"
    using assms(2) by (intro zdiv_mono1) (simp_all add: minute_def)
  then have "uint (RatePerMinute l * m) * (expiresAfter div minute) \<le> uint (RatePerMinute l * m) * ((now - lastSeen e) div minute)"
    by (simp add: mult_left_mono)
  then have "uint (MaxTokens l * m) \<le> uint (tokens e) + uint (RatePerMinute l * m) * ((now - lastSeen e) div minute)"
    using assms(1) uint_ge_0 [of "tokens e"] by linarith
  moreover have "uint (MaxTokens l * m) \<le> 65535" using uint_lt2p [of "MaxTokens l * m"] by simp
  ultimately have "uint (tokens (Refill l m now e)) = uint (MaxTokens l * m)"
    unfolding Refill_tokens using assms(2,3) by simp
  then have "tokens (Refill l m now e) = MaxTokens l * m" by (simp only: word_uint_eq_iff)
  moreover have "lastSeen (Refill l m now e) = now" using assms(2,3) by (simp add: Refill_lastSeen)
  ultimately show ?thesis unfolding fill_def by simp
qed

definition agree :: "int \<Rightarrow> int \<Rightarrow> (string \<Rightarrow> Entry option) \<Rightarrow> (string \<Rightarrow> Entry option) \<Rightarrow> bool" where
  "agree expiresAfter now f g \<longleftrightarrow> (\<forall>b. f b = g b \<or> f b = None \<and> (\<exists>e. g b = Some e \<and> expiresAfter < now - lastSeen e))"

lemma agree_later: "agree x now f g \<Longrightarrow> now \<le> now' \<Longrightarrow> agree x now' f g"
  unfolding agree_def by (meson diff_right_mono less_le_trans)

lemma agree_update: "agree x now f g \<Longrightarrow> agree x now (f(b := Some e)) (g(b := Some e))"
  by (simp add: agree_def)

lemma limiter_run_plain:
  assumes "full_after expiresAfter rl0" and "0 \<le> expiresAfter" and "same_limits rl0 rl" and "limiter_inv rl"
    and "agree expiresAfter T (entry_of rl) f" and "sorted (T # map fst ops)"
  shows "snd (limiter_run expiresAfter ops rl) = plain_run rl0 ops f"
  using assms(3-)
proof (induction ops arbitrary: rl f T)
  case (Cons x ops)
  obtain now op where x: "x = (now, op)" by (cases x)
  have ag: "agree expiresAfter now (entry_of rl) f" using agree_later [OF Cons.prems(3)] Cons.prems(4) x by simp
  have srt: "sorted (now # map fst ops)" using Cons.prems(4) x by simp
  have lim: "Limits rl = Limits rl0" "multiplier_of rl = multiplier_of rl0" using Cons.prems(1) by (simp_all add: same_limits_def)
  show ?case
  proof (cases op)
    case SweepOp
    let ?rl = "fst (sweepAndSwap expiresAfter now rl)"
    note sw = sweepAndSwap_spec [OF Cons.prems(2), of expiresAfter now]
    have "agree expiresAfter now (entry_of ?rl) f"
      unfolding agree_def
    proof
      fix b show "entry_of ?rl b = f b \<or> entry_of ?rl b = None \<and> (\<exists>e. f b = Some e \<and> expiresAfter < now - lastSeen e)"
        using sw(1) [of b] ag [unfolded agree_def, rule_format, of b] by auto
    qed
    moreover have "same_limits rl0 ?rl" using sw(3) lim by (simp add: same_limits_def)
    ultimately show ?thesis using Cons.IH [OF _ sw(2) _ srt] x SweepOp by simp
  next
    case (SpendOp t b c p)
    obtain rl1 err where s: "Spend t b c p now rl = (rl1, err)" by fastforce
    let ?e = "fill (Limits rl0 t) (multiplier_of rl0 t p) now (f b)"
    have "fill (Limits rl0 t) (multiplier_of rl0 t p) now (entry_of rl b) = ?e"
    proof (cases "entry_of rl b = f b")
      case False
      then obtain e where "entry_of rl b = None" "f b = Some e" "expiresAfter < now - lastSeen e"
        using ag by (auto simp: agree_def)
      then show ?thesis
        using fill_expired [of "Limits rl0 t" "multiplier_of rl0 t p" expiresAfter now e] assms(1,2)
        unfolding full_after_def by simp
    qed simp
    note sp = Spend_spec [OF Cons.prems(2) s, unfolded lim this]
    have "same_limits rl0 rl1" using sp(4) lim by (simp add: same_limits_def)
    moreover have "agree expiresAfter now (entry_of rl1)
        (f(b := Some (if tokens ?e < c then ?e else ?e\<lparr>tokens := tokens ?e - c\<rparr>)))"
      unfolding sp(2) by (rule agree_update [OF ag])
    ultimately have "snd (limiter_run expiresAfter ops rl1) =
        plain_run rl0 ops (f(b := Some (if tokens ?e < c then ?e else ?e\<lparr>tokens := tokens ?e - c\<rparr>)))"
      using Cons.IH [OF _ sp(3) _ srt] by blast
    then show ?thesis using x SpendOp s sp(1)
      by (cases "tokens ?e < c") (simp_all add: Let_def split_def spend_tokens_def)
  qed
qed simp

text \<open>
  C25. The janitor is invisible: with the configured limits and any expiry of five minutes or more (the
  server uses an hour), the outcomes of all Spend calls are those of a limiter that never deletes a
  bucket, whenever the sweeps happen and however the two maps are swapped, since an entry idle for
  long enough to be deleted would have been refilled to its limit.
\<close>

theorem janitor_transparent:
  assumes "5 * minute \<le> expiresAfter" and "sorted (map fst ops)"
  shows "snd (limiter_run expiresAfter ops NewTokenBucketRateLimiter) =
    plain_run NewTokenBucketRateLimiter ops (\<lambda>_. None)"
proof -
  let ?rl = NewTokenBucketRateLimiter
  have "5 * minute div minute \<le> expiresAfter div minute" using assms(1) by (intro zdiv_mono1) (simp_all add: minute_def)
  then have "5 \<le> expiresAfter div minute" by (simp add: minute_def)
  then have le: "n * 5 \<le> n * (expiresAfter div minute)" if "0 \<le> n" for n using that by (rule mult_left_mono)
  have "full_after expiresAfter ?rl"
    unfolding full_after_def
  proof (intro allI)
    fix t p
    have "uint (MaxTokens (Limits ?rl t) * multiplier_of ?rl t p) \<le> uint (RatePerMinute (Limits ?rl t) * multiplier_of ?rl t p) * 5"
      by (cases t; cases p; simp add: NewTokenBucketRateLimiter_def multiplier_of_def DEFAULT_MAX_TOKENS_def
        DEFAULT_RATE_PER_MINUTE_def PUBLISH_MAX_TOKENS_def PUBLISH_RATE_PER_MINUTE_def DEFAULT_PRIORITY_MULTIPLIER_def
        PUBLISH_PRIORITY_MULTIPLIER_def)
    then show "uint (MaxTokens (Limits ?rl t) * multiplier_of ?rl t p) \<le>
        uint (RatePerMinute (Limits ?rl t) * multiplier_of ?rl t p) * (expiresAfter div minute)"
      using le [of "uint (RatePerMinute (Limits ?rl t) * multiplier_of ?rl t p)"] by simp
  qed
  moreover have "same_limits ?rl ?rl" "limiter_inv ?rl" "agree expiresAfter (Min (insert 0 (set (map fst ops)))) (entry_of ?rl) (\<lambda>_. None)"
    by (simp_all add: same_limits_def limiter_inv_def agree_def entry_of_def NewTokenBucketRateLimiter_def)
  moreover have "sorted (Min (insert 0 (set (map fst ops))) # map fst ops)" using assms(2) by (auto intro: Min_le)
  moreover have "0 \<le> expiresAfter" using assms(1) by (simp add: minute_def)
  ultimately show ?thesis using limiter_run_plain by blast
qed

theorem janitor_transparent_witness:
  "snd (limiter_run (60 * minute) [(0, SpendOp PUBLISH ''R1PUB'' 3000 False), (1, SpendOp PUBLISH ''R1PUB'' 1 False), (2, SweepOp),
      (61 * minute, SweepOp), (62 * minute, SpendOp PUBLISH ''R1PUB'' 3000 False)] NewTokenBucketRateLimiter) =
    [None, Some (Err ''exceeds rate limit R1PUB''), None]"
proof -
  let ?ops = "[(0, SpendOp PUBLISH ''R1PUB'' 3000 False), (1, SpendOp PUBLISH ''R1PUB'' 1 False), (2, SweepOp),
    (61 * minute, SweepOp), (62 * minute, SpendOp PUBLISH ''R1PUB'' 3000 False)]"
  have "5 * minute \<le> 60 * minute" "sorted (map fst ?ops)" by (simp_all add: minute_def)
  from janitor_transparent [OF this] have "snd (limiter_run (60 * minute) ?ops NewTokenBucketRateLimiter) =
    plain_run NewTokenBucketRateLimiter ?ops (\<lambda>_. None)" .
  also have "\<dots> = [None, Some (Err ''exceeds rate limit R1PUB''), None]" by code_simp
  finally show ?thesis .
qed

end
