(* ===== verification/Gateway.thy ===== *)
theory Gateway
  imports Rate_Limiter
begin

text \<open>
  What stands before every handler: the client version gate (pkg/api/gating.go,
  pkg/api/message/v1/context/context.go), the IP allow list (pkg/authz) and the rate limit
  interceptor (pkg/api/interceptor.go, pkg/utils/ip.go), in the order pkg/api/server.go chains them.
  \<open>semver.IsValid\<close> and \<open>semver.Compare\<close> are parameters, as is the environment variable \<open>ENV\<close>. Of a
  context only the metadata (\<open>None\<close> when it has none) and the peer address are read. Metadata values
  are ASCII, so \<open>strings.TrimSpace\<close> strips the ASCII white space.
\<close>

section \<open>Permissions\<close>

datatype Permission = Unspecified | AllowAll | Priority | Denied

definition Permission_String :: "Permission \<Rightarrow> string" where
  "Permission_String p = (case p of AllowAll \<Rightarrow> ''allow_all'' | Priority \<Rightarrow> ''priority'' | Denied \<Rightarrow> ''denied''
     | Unspecified \<Rightarrow> ''unspecified'')"

definition permissionFromString :: "string \<Rightarrow> Permission" where
  "permissionFromString s =
     (if s = ''allow_all'' then AllowAll else if s = ''priority'' then Priority else if s = ''denied'' then Denied
      else Unspecified)"

record IPAddress =
  ip_ID :: int
  ip_IPAddress :: string
  ip_DeletedAt :: "int option"
  ip_Permission :: string

record allow_list =
  permissions :: "string \<Rightarrow> Permission option"

definition GetPermission :: "allow_list \<Rightarrow> string \<Rightarrow> Permission" where
  "GetPermission d ipAddress = (case permissions d ipAddress of None \<Rightarrow> Unspecified | Some p \<Rightarrow> p)"

text \<open>The query's rows come in any order; the map is built by overwriting.\<close>

definition loadPermissions :: "IPAddress list result \<Rightarrow> allow_list \<Rightarrow> allow_list \<times> go_error option" where
  "loadPermissions scan d =
     (case scan of
        Inl e \<Rightarrow> (d, Some e)
      | Inr rows \<Rightarrow> (d\<lparr>permissions := foldl (\<lambda>m r. m(ip_IPAddress r := Some (permissionFromString (ip_Permission r)))) (\<lambda>_. None) rows\<rparr>, None))"

definition live_ips :: "IPAddress list \<Rightarrow> IPAddress list" where
  "live_ips rows = filter (\<lambda>r. ip_DeletedAt r = None) rows"

text \<open>One tick of \<open>listenForChanges\<close>: a failed load is logged and the old map kept.\<close>

definition refresh_permissions :: "IPAddress list result \<Rightarrow> allow_list \<Rightarrow> allow_list" where
  "refresh_permissions scan d = fst (loadPermissions scan d)"

section \<open>Request contexts\<close>

record request_context =
  metadata :: "(string \<Rightarrow> string list) option"
  peer_addr :: "string option"

definition md_get :: "request_context \<Rightarrow> string \<Rightarrow> string list" where
  "md_get ctx k = (case metadata ctx of None \<Rightarrow> [] | Some md \<Rightarrow> md k)"

definition first_part :: "char \<Rightarrow> string \<Rightarrow> string" where
  "first_part sep s = takeWhile (\<lambda>c. c \<noteq> sep) s"

definition is_space :: "char \<Rightarrow> bool" where
  "is_space c \<longleftrightarrow> c \<in> {CHR '' '', CHR 0x09, CHR 0x0A, CHR 0x0B, CHR 0x0C, CHR 0x0D}"

definition TrimSpace :: "string \<Rightarrow> string" where
  "TrimSpace s = rev (dropWhile is_space (rev (dropWhile is_space s)))"

definition ClientIPFromContext :: "request_context \<Rightarrow> string" where
  "ClientIPFromContext ctx =
     (case md_get ctx ''x-forwarded-for'' of
        [] \<Rightarrow> (case peer_addr ctx of Some a \<Rightarrow> first_part (CHR '':'') a | None \<Rightarrow> [])
      | v # vals \<Rightarrow> TrimSpace (first_part (CHR '','') v))"

section \<open>The version gate\<close>

record requesterInfo =
  AppName :: string
  AppVersion :: string
  ClientName :: string
  ClientVersion :: string
  IsSupportedClient :: bool
  LibxmtpVersion :: string

record gate_env =
  ENV :: string
  semver_IsValid :: "string \<Rightarrow> bool"
  semver_Compare :: "string \<Rightarrow> string \<Rightarrow> int"

definition parseVersionHeaderValue :: "string list \<Rightarrow> string \<times> string \<times> string" where
  "parseVersionHeaderValue vals =
     (case vals of
        [] \<Rightarrow> ([], [], [])
      | full # rest \<Rightarrow>
          let name = first_part (CHR ''/'') full; tail = dropWhile (\<lambda>c. c \<noteq> CHR ''/'') full
          in (name, if tail = [] then [] else first_part (CHR ''/'') (tl tail), full))"

definition isSupportedClient :: "gate_env \<Rightarrow> string \<Rightarrow> bool" where
  "isSupportedClient g libxmtpVersion =
     (if ENV g \<noteq> ''production'' then True
      else
        let v = (if libxmtpVersion = [] \<or> hd libxmtpVersion \<noteq> CHR ''v'' then CHR ''v'' # libxmtpVersion else libxmtpVersion)
        in if \<not> semver_IsValid g v then True else 0 \<le> semver_Compare g v ''v1.1.5'')"

definition NewRequesterInfo :: "gate_env \<Rightarrow> request_context \<Rightarrow> requesterInfo" where
  "NewRequesterInfo g ctx =
     (if metadata ctx = None
      then \<lparr>AppName = [], AppVersion = [], ClientName = [], ClientVersion = [], IsSupportedClient = False, LibxmtpVersion = []\<rparr>
      else
        let (an, _, av) = parseVersionHeaderValue (md_get ctx ''x-app-version'');
            (cn, _, cv) = parseVersionHeaderValue (md_get ctx ''x-client-version'');
            (_, _, lv) = parseVersionHeaderValue (md_get ctx ''x-libxmtp-version'')
        in \<lparr>AppName = an, AppVersion = av, ClientName = cn, ClientVersion = cv,
            IsSupportedClient = isSupportedClient g lv, LibxmtpVersion = lv\<rparr>)"

definition IS_GATING_ENABLED :: bool where "IS_GATING_ENABLED = True"

definition gate :: "gate_env \<Rightarrow> request_context \<Rightarrow> go_error option" where
  "gate g ctx =
     (let ri = NewRequesterInfo g ctx in
      if IS_GATING_ENABLED \<and> \<not> IsSupportedClient ri
      then Some (Status Unimplemented (''unsupported libxmtp version '' @ LibxmtpVersion ri)) else None)"

section \<open>The rate limit interceptor\<close>

text \<open>The request types the interceptor tells apart, with the number of their elements.\<close>

datatype api_request =
    RegisterInstallationRequest | UploadKeyPackageRequest | PublishIdentityUpdateRequest
  | SendWelcomeMessagesRequest nat | SendGroupMessagesRequest nat | PublishRequest nat | BatchQueryRequest nat
  | OtherRequest

definition request_cost :: "api_request \<Rightarrow> nat \<times> LimitType" where
  "request_cost req =
     (case req of
        RegisterInstallationRequest \<Rightarrow> (1, PUBLISH) | UploadKeyPackageRequest \<Rightarrow> (1, PUBLISH)
      | PublishIdentityUpdateRequest \<Rightarrow> (1, PUBLISH) | SendWelcomeMessagesRequest n \<Rightarrow> (n, PUBLISH)
      | SendGroupMessagesRequest n \<Rightarrow> (n, PUBLISH) | PublishRequest n \<Rightarrow> (n, PUBLISH)
      | BatchQueryRequest n \<Rightarrow> (n, DEFAULT) | OtherRequest \<Rightarrow> (1, DEFAULT))"

definition LimitType_String :: "LimitType \<Rightarrow> string" where
  "LimitType_String t = (case t of DEFAULT \<Rightarrow> ''DEF'' | PUBLISH \<Rightarrow> ''PUB'')"

definition bucket_name :: "bool \<Rightarrow> string \<Rightarrow> LimitType \<Rightarrow> string" where
  "bucket_name isPriority ip t = (if isPriority then ''P'' else ''R'') @ ip @ LimitType_String t"

definition applyLimits :: "allow_list \<Rightarrow> request_context \<Rightarrow> api_request \<Rightarrow> int \<Rightarrow> limiter \<Rightarrow> limiter \<times> go_error option" where
  "applyLimits ipAllowList ctx req now rl =
     (let addr = ClientIPFromContext ctx;
          ip = (if addr = [] then ''ip_unknown'' else addr);
          p = GetPermission ipAllowList ip;
          isPriority = (p = Priority)
      in if p = Denied then (rl, Some (Status PermissionDenied ''request blocked''))
         else if p = AllowAll then (rl, None)
         else
           let (cost, limitType) = request_cost req;
               (rl', err) = Spend limitType (bucket_name isPriority ip limitType) (word_of_int (int cost)) isPriority now rl
           in (rl', case err of None \<Rightarrow> None | Some e \<Rightarrow>
                 Some (Status ResourceExhausted (case e of Err m \<Rightarrow> m | _ \<Rightarrow> []))))"

text \<open>The chain of the unary interceptors around a handler.\<close>

definition serve :: "gate_env \<Rightarrow> allow_list \<Rightarrow> request_context \<Rightarrow> api_request \<Rightarrow> int \<Rightarrow> limiter \<times> 's \<Rightarrow> ('s \<Rightarrow> 's \<times> 'a result) \<Rightarrow>
    (limiter \<times> 's) \<times> 'a result" where
  "serve g al ctx req now st handler =
     (case gate g ctx of
        Some e \<Rightarrow> (st, Inl e)
      | None \<Rightarrow>
          (case applyLimits al ctx req now (fst st) of
             (rl, Some e) \<Rightarrow> ((rl, snd st), Inl e)
           | (rl, None) \<Rightarrow> (case handler (snd st) of (s', r) \<Rightarrow> ((rl, s'), r))))"

section \<open>Properties\<close>

lemma load_fold:
  assumes "distinct (map ip_IPAddress rows)"
  shows "foldl (\<lambda>m r. m(ip_IPAddress r := Some (permissionFromString (ip_Permission r)))) m rows ip =
    (case map_of (map (\<lambda>r. (ip_IPAddress r, permissionFromString (ip_Permission r))) rows) ip of None \<Rightarrow> m ip | Some p \<Rightarrow> Some p)"
  using assms
proof (induction rows arbitrary: m)
  case (Cons r rows)
  have "map_of (map (\<lambda>r. (ip_IPAddress r, permissionFromString (ip_Permission r))) rows) (ip_IPAddress r) = None"
    using Cons.prems by (auto simp: map_of_eq_None_iff)
  then show ?case using Cons by auto
qed simp

text \<open>After a load, an address has the permission of its live row (there is at most one, by the unique index).\<close>

lemma loadPermissions_row:
  assumes "distinct (map ip_IPAddress (live_ips rows))" and "r \<in> set (live_ips rows)"
  shows "GetPermission (refresh_permissions (Inr (live_ips rows)) d) (ip_IPAddress r) = permissionFromString (ip_Permission r)"
proof -
  have "map_of (map (\<lambda>r. (ip_IPAddress r, permissionFromString (ip_Permission r))) (live_ips rows)) (ip_IPAddress r) =
      Some (permissionFromString (ip_Permission r))"
    using assms by (intro map_of_is_SomeI) (auto simp: comp_def)
  then show ?thesis by (simp add: GetPermission_def refresh_permissions_def loadPermissions_def load_fold [OF assms(1)])
qed

text \<open>
  The migration that creates the table names the value 'deny' for blocked addresses; the code only
  knows 'denied', so such a row does not block.
\<close>

lemma deny_rows_do_not_block: "permissionFromString ''deny'' = Unspecified"
  by (simp add: permissionFromString_def)

lemma bucket_name_inject: "bucket_name p ip t = bucket_name p' ip' t' \<longleftrightarrow> p = p' \<and> ip = ip' \<and> t = t'"
proof
  assume eq: "bucket_name p ip t = bucket_name p' ip' t'"
  have "length (LimitType_String t) = 3" for t by (cases t) (simp_all add: LimitType_String_def)
  then have "(if p then ''P'' else ''R'') @ ip = (if p' then ''P'' else ''R'') @ ip' \<and> LimitType_String t = LimitType_String t'"
    using eq append_eq_append_conv [of "LimitType_String t" "LimitType_String t'"] by (auto simp: bucket_name_def)
  then show "p = p' \<and> ip = ip' \<and> t = t'"
    by (cases t; cases t') (auto simp: LimitType_String_def split: if_splits)
qed simp

definition client_ip :: "request_context \<Rightarrow> string" where
  "client_ip ctx = (if ClientIPFromContext ctx = [] then ''ip_unknown'' else ClientIPFromContext ctx)"

text \<open>What the interceptor looks at for a request: the priority of the client, its bucket, the cost, the refilled entry.\<close>

definition has_priority :: "allow_list \<Rightarrow> request_context \<Rightarrow> bool" where
  "has_priority al ctx = (GetPermission al (client_ip ctx) = Priority)"

definition bucket_of :: "allow_list \<Rightarrow> request_context \<Rightarrow> api_request \<Rightarrow> string" where
  "bucket_of al ctx req = bucket_name (has_priority al ctx) (client_ip ctx) (snd (request_cost req))"

definition charge :: "api_request \<Rightarrow> u16" where
  "charge req = word_of_int (int (fst (request_cost req)))"

definition refilled :: "allow_list \<Rightarrow> request_context \<Rightarrow> api_request \<Rightarrow> int \<Rightarrow> limiter \<Rightarrow> Entry" where
  "refilled al ctx req now rl = (let t = snd (request_cost req) in
     fill (Limits rl t) (multiplier_of rl t (has_priority al ctx)) now (entry_of rl (bucket_of al ctx req)))"

definition metered :: "allow_list \<Rightarrow> request_context \<Rightarrow> bool" where
  "metered al ctx \<longleftrightarrow> GetPermission al (client_ip ctx) \<in> {Unspecified, Priority}"

lemma serve_metered:
  assumes "limiter_inv rl" and "gate g ctx = None" and "metered al ctx"
  shows "\<exists>rl'. limiter_inv rl' \<and> same_limits rl rl' \<and>
    (if tokens (refilled al ctx req now rl) < charge req
     then serve g al ctx req now (rl, s) handler =
         ((rl', s), Inl (Status ResourceExhausted (''exceeds rate limit '' @ bucket_of al ctx req))) \<and>
       entry_of rl' = (entry_of rl)(bucket_of al ctx req := Some (refilled al ctx req now rl))
     else serve g al ctx req now (rl, s) handler = ((rl', fst (handler s)), snd (handler s)) \<and>
       entry_of rl' = (entry_of rl)(bucket_of al ctx req := Some ((refilled al ctx req now rl)
         \<lparr>tokens := tokens (refilled al ctx req now rl) - charge req\<rparr>)))"
proof -
  obtain n t where nt: "request_cost req = (n, t)" by fastforce
  let ?b = "bucket_of al ctx req" and ?e = "refilled al ctx req now rl" and ?c = "charge req"
  let ?p = "has_priority al ctx"
  obtain rl' err where sp: "Spend t ?b ?c ?p now rl = (rl', err)" by fastforce
  have e: "fill (Limits rl t) (multiplier_of rl t ?p) now (entry_of rl ?b) = ?e" by (simp add: refilled_def nt Let_def)
  note spec = Spend_spec [OF assms(1) sp, unfolded e]
  have p: "GetPermission al (client_ip ctx) \<noteq> Denied" "GetPermission al (client_ip ctx) \<noteq> AllowAll"
    using assms(3) by (auto simp: metered_def)
  have "applyLimits al ctx req now rl =
      (rl', case err of None \<Rightarrow> None | Some x \<Rightarrow> Some (Status ResourceExhausted (case x of Err m \<Rightarrow> m | _ \<Rightarrow> [])))"
    using p sp nt unfolding applyLimits_def client_ip_def [symmetric] Let_def
    by (simp add: has_priority_def bucket_of_def charge_def)
  then show ?thesis
    using spec assms(2) by (intro exI [of _ rl']) (auto simp: serve_def split_def)
qed


definition test_gate :: gate_env where
  "test_gate = \<lparr>ENV = ''dev'', semver_IsValid = (\<lambda>_. False), semver_Compare = (\<lambda>_ _. 0)\<rparr>"

definition test_ctx :: request_context where
  "test_ctx = \<lparr>metadata = Some (\<lambda>k. if k = ''x-forwarded-for'' then ['' 1.2.3.4, 5.6.7.8''] else []), peer_addr = None\<rparr>"

lemma test_ctx_facts:
  "gate test_gate test_ctx = None" "metered \<lparr>permissions = \<lambda>_. None\<rparr> test_ctx"
  "bucket_of \<lparr>permissions = \<lambda>_. None\<rparr> test_ctx (SendGroupMessagesRequest 4000) = ''R1.2.3.4PUB''"
  "tokens (refilled \<lparr>permissions = \<lambda>_. None\<rparr> test_ctx (SendGroupMessagesRequest 4000) 7 NewTokenBucketRateLimiter) <
     charge (SendGroupMessagesRequest 4000)"
  by code_simp+

lemma limiter_inv_new: "limiter_inv NewTokenBucketRateLimiter"
  by (simp add: limiter_inv_def NewTokenBucketRateLimiter_def)


text \<open>
  The interceptor converts the number of messages to 16 bits before it charges it: a batch of a
  multiple of 65536 messages is free, and is served however empty the client's bucket is.
\<close>

theorem oversized_batch_is_free:
  assumes "limiter_inv rl" and "gate g ctx = None" and "metered al ctx"
  shows "snd (serve g al ctx (SendGroupMessagesRequest (65536 * n)) now (rl, s) handler) = snd (handler s)"
proof -
  have z: "(65536 :: u16) = 0" by simp
  have "(word_of_int (int (65536 * n)) :: u16) = 65536 * of_nat n" by simp
  then have "(word_of_int (int (65536 * n)) :: u16) = 0" unfolding z by simp
  then have zero: "charge (SendGroupMessagesRequest (65536 * n)) = 0" by (simp add: charge_def request_cost_def)
  show ?thesis using serve_metered [OF assms, of "SendGroupMessagesRequest (65536 * n)" now s handler] unfolding zero by auto
qed

theorem oversized_batch_is_free_witness:
  "snd (serve test_gate \<lparr>permissions = \<lambda>_. None\<rparr> test_ctx (SendGroupMessagesRequest (65536 * 1)) 7 (NewTokenBucketRateLimiter, 0 :: nat)
      (\<lambda>n. (n + 1, Inr n))) = Inr 0"
  using oversized_batch_is_free [OF limiter_inv_new test_ctx_facts(1,2), of 1 7 "0 :: nat" "\<lambda>n. (n + 1, Inr n)"] by simp

end
