(* ===== verification/Prune.thy ===== *)
theory Prune
  imports Queries "HOL-Library.Multiset"
begin

text \<open>
  The pruning job (pkg/prune): four pruners, each with a count and a delete cycle over its own table,
  and the executor that runs the cycles of each until one comes back short or the maximum is
  reached. The clock, the rows locked by others and the database faults of each statement come from
  the environment. The goroutines of the pruners touch different tables, so a run of the executor is
  the pruners one after the other, in any order.

  A pruner's contract is the locale \<open>pruner\<close>: a cycle removes a set of rows, says how many, and a short
  cycle leaves no row behind that is due and not locked. \<open>safe_pruner\<close> adds that only due rows go. The
  loop's properties are proved in the locales; all four pruners are interpreted, three of them as
  safe ones.
\<close>

section \<open>The pruners\<close>

definition DEFAULT_GROUP_MESSAGE_LIFETIME_DAYS :: int where "DEFAULT_GROUP_MESSAGE_LIFETIME_DAYS = 30"
definition DEFAULT_LIFETIME_OF_KEY_PACKAGES :: int where "DEFAULT_LIFETIME_OF_KEY_PACKAGES = 90"
definition DEFAULT_LIFETIME_OF_INSTALLATIONS :: int where "DEFAULT_LIFETIME_OF_INSTALLATIONS = 90"
definition DEFAULT_LIFETIME_OF_WELCOME_MESSAGES :: int where "DEFAULT_LIFETIME_OF_WELCOME_MESSAGES = 90"

record prune_env =
  pe_fault :: fault
  pe_now :: int
  pe_row_locked :: "int \<Rightarrow> bool"
  pe_installation_locked :: "bytes \<Rightarrow> bool"

datatype Pruner = WelcomePruner | GroupMessagesPruner | InstallationsPruner | KeyPackagesPruner

text \<open>The Postgres error 57014, query cancelled by a statement timeout.\<close>

definition query_canceled :: go_error where
  "query_canceled = Err ''57014''"

definition count_result :: "int result \<Rightarrow> int result" where
  "count_result r = (case r of Inl e \<Rightarrow> if e = query_canceled then Inr 1 else Inl e | Inr n \<Rightarrow> Inr n)"

definition Count :: "Pruner \<Rightarrow> prune_env \<Rightarrow> mls_db \<Rightarrow> int result" where
  "Count p env db = count_result
     (case p of
        WelcomePruner \<Rightarrow> GetOldWelcomeMessages (pe_fault env) (pe_now env) DEFAULT_LIFETIME_OF_WELCOME_MESSAGES db
      | GroupMessagesPruner \<Rightarrow> CountDeletableGroupMessages (pe_fault env) (pe_now env) DEFAULT_GROUP_MESSAGE_LIFETIME_DAYS db
      | InstallationsPruner \<Rightarrow> GetOldInstallations (pe_fault env) (pe_now env) DEFAULT_LIFETIME_OF_INSTALLATIONS db
      | KeyPackagesPruner \<Rightarrow> GetOldKeyPackages (pe_fault env) (pe_now env) DEFAULT_LIFETIME_OF_KEY_PACKAGES db)"

definition deleted_rows :: "mls_db \<times> 'r list result \<Rightarrow> mls_db \<times> int result" where
  "deleted_rows r = (case r of (db, Inl e) \<Rightarrow> (db, Inl e) | (db, Inr rows) \<Rightarrow> (db, Inr (int (length rows))))"

definition group_cycle :: "prune_env \<Rightarrow> int \<Rightarrow> mls_db \<Rightarrow> mls_db \<times> int result" where
  "group_cycle env batchSize db = deleted_rows
     (DeleteOldGroupMessagesBatch (pe_fault env) (pe_now env) (pe_row_locked env) DEFAULT_GROUP_MESSAGE_LIFETIME_DAYS batchSize db)"

definition welcome_cycle :: "prune_env \<Rightarrow> int \<Rightarrow> mls_db \<Rightarrow> mls_db \<times> int result" where
  "welcome_cycle env batchSize db = deleted_rows
     (DeleteOldWelcomeMessagesBatch (pe_fault env) (pe_now env) (pe_row_locked env) DEFAULT_LIFETIME_OF_WELCOME_MESSAGES batchSize db)"

definition installation_cycle :: "prune_env \<Rightarrow> int \<Rightarrow> mls_db \<Rightarrow> mls_db \<times> int result" where
  "installation_cycle env batchSize db = deleted_rows
     (DeleteOldInstallationsBatch (pe_fault env) (pe_now env) (pe_installation_locked env) DEFAULT_LIFETIME_OF_INSTALLATIONS batchSize db)"

definition key_package_cycle :: "prune_env \<Rightarrow> int \<Rightarrow> mls_db \<Rightarrow> mls_db \<times> int result" where
  "key_package_cycle env batchSize db = deleted_rows
     (DeleteOldKeyPackagesBatch (pe_fault env) (pe_now env) (pe_row_locked env) DEFAULT_LIFETIME_OF_KEY_PACKAGES batchSize db)"

definition PruneCycle :: "Pruner \<Rightarrow> prune_env \<Rightarrow> int \<Rightarrow> mls_db \<Rightarrow> mls_db \<times> int result" where
  "PruneCycle p = (case p of WelcomePruner \<Rightarrow> welcome_cycle | GroupMessagesPruner \<Rightarrow> group_cycle
     | InstallationsPruner \<Rightarrow> installation_cycle | KeyPackagesPruner \<Rightarrow> key_package_cycle)"

section \<open>The executor\<close>

record PruneConfig =
  MaxCycles :: int
  BatchSize :: int
  CountDeletable :: bool
  DryRun :: bool

function prune_loop :: "(prune_env \<Rightarrow> int \<Rightarrow> mls_db \<Rightarrow> mls_db \<times> int result) \<Rightarrow> PruneConfig \<Rightarrow> (nat \<Rightarrow> prune_env) \<Rightarrow>
    nat \<Rightarrow> int \<Rightarrow> mls_db \<Rightarrow> mls_db \<times> int result" where
  "prune_loop cycle c envs cyclesCompleted deleted db =
     (case cycle (envs cyclesCompleted) (BatchSize c) db of
        (db', Inl e) \<Rightarrow> (db', Inl e)
      | (db', Inr deletedThisCycle) \<Rightarrow>
          if deletedThisCycle < BatchSize c then (db', Inr (deleted + deletedThisCycle))
          else if MaxCycles c \<le> int (Suc cyclesCompleted) then (db', Inr (deleted + deletedThisCycle))
          else prune_loop cycle c envs (Suc cyclesCompleted) (deleted + deletedThisCycle) db')"
  by pat_completeness auto
termination
  by (relation "measure (\<lambda>(cycle, c, envs, k, deleted, db). nat (MaxCycles c - int k))") auto

declare prune_loop.simps [simp del]

definition run_pruner :: "PruneConfig \<Rightarrow> prune_env \<Rightarrow> (nat \<Rightarrow> prune_env) \<Rightarrow> Pruner \<Rightarrow> mls_db \<Rightarrow> mls_db \<times> go_error option" where
  "run_pruner c cenv envs p db =
     (let prune = (if DryRun c then (db, None)
            else case prune_loop (PruneCycle p) c envs 0 0 db of (db', Inl e) \<Rightarrow> (db', Some e) | (db', Inr n) \<Rightarrow> (db', None))
      in if CountDeletable c then
           (case Count p cenv db of
              Inl e \<Rightarrow> (db, Some e)
            | Inr n \<Rightarrow> if n = 0 then (db, None) else prune)
         else prune)"

fun run_pruners :: "PruneConfig \<Rightarrow> (Pruner \<Rightarrow> prune_env) \<Rightarrow> (Pruner \<Rightarrow> nat \<Rightarrow> prune_env) \<Rightarrow> Pruner list \<Rightarrow> mls_db \<Rightarrow>
    mls_db \<times> go_error list" where
  "run_pruners c cenv envs [] db = (db, [])"
| "run_pruners c cenv envs (p # ps) db =
     (let (db1, err) = run_pruner c (cenv p) (envs p) p db; (db2, errs) = run_pruners c cenv envs ps db1
      in (db2, (case err of None \<Rightarrow> [] | Some e \<Rightarrow> [e]) @ errs))"

text \<open>\<open>order\<close> is the order in which the four goroutines happen to do their work.\<close>

definition prune_Run :: "PruneConfig \<Rightarrow> (Pruner \<Rightarrow> prune_env) \<Rightarrow> (Pruner \<Rightarrow> nat \<Rightarrow> prune_env) \<Rightarrow> Pruner list \<Rightarrow> mls_db \<Rightarrow>
    mls_db \<times> go_error option" where
  "prune_Run c cenv envs order db =
     (if BatchSize c < 100 then (db, Some (Panic ''batchSize must be at least 100''))
      else case run_pruners c cenv envs order db of (db', errs) \<Rightarrow> (db', case errs of [] \<Rightarrow> None | e # _ \<Rightarrow> Some e))"

text \<open>What every cycle keeps, the loop keeps.\<close>

lemma prune_loop_invariant:
  assumes "\<And>k db. I db \<Longrightarrow> I (fst (cycle (envs k) (BatchSize c) db))" and "I db"
  shows "I (fst (prune_loop cycle c envs k deleted db))"
  using assms(2)
proof (induction "nat (MaxCycles c - int k)" arbitrary: k deleted db rule: less_induct)
  case less
  obtain db' r where r: "cycle (envs k) (BatchSize c) db = (db', r)" by fastforce
  have I: "I db'" using assms(1) [OF less.prems, of k] r by simp
  show ?case
  proof (cases r)
    case (Inr n)
    show ?thesis
    proof (cases "n < BatchSize c \<or> MaxCycles c \<le> int (Suc k)")
      case True
      then show ?thesis using r Inr I by (subst prune_loop.simps) auto
    next
      case False
      then have "I (fst (prune_loop cycle c envs (Suc k) (deleted + n) db'))" using less.hyps [of "Suc k" db'] I by simp
      then show ?thesis using r Inr False by (subst prune_loop.simps) simp
    qed
  qed (use r I in \<open>subst prune_loop.simps, simp\<close>)
qed

section \<open>The contract of a pruner\<close>

locale pruner =
  fixes cycle :: "prune_env \<Rightarrow> int \<Rightarrow> mls_db \<Rightarrow> mls_db \<times> int result"
    and table :: "mls_db \<Rightarrow> 'r list"
    and due :: "int \<Rightarrow> 'r \<Rightarrow> bool"
    and locked :: "prune_env \<Rightarrow> 'r \<Rightarrow> bool"
    and tidy :: "mls_db \<Rightarrow> bool"
  assumes cycle_fault: "pe_fault env = Some e \<Longrightarrow> cycle env b db = (db, Inl e)"
    and cycle_removes: "pe_fault env = None \<Longrightarrow> \<exists>gone. table (fst (cycle env b db)) = filter (\<lambda>r. r \<notin> gone) (table db) \<and>
      snd (cycle env b db) = Inr (int (length (filter (\<lambda>r. r \<in> gone) (table db))))"
    and short_cycle: "pe_fault env = None \<Longrightarrow> snd (cycle env b db) = Inr n \<Longrightarrow> n < b \<Longrightarrow>
      \<forall>r \<in> set (table (fst (cycle env b db))). due (pe_now env) r \<longrightarrow> locked env r"
    and cycle_tidy: "tidy db \<Longrightarrow> tidy (fst (cycle env b db))"

locale safe_pruner = pruner +
  assumes only_due: "tidy db \<Longrightarrow> r \<in> set (table db) \<Longrightarrow> r \<notin> set (table (fst (cycle env b db))) \<Longrightarrow> due (pe_now env) r"

context pruner
begin

lemma cycle_subset: "set (table (fst (cycle env b db))) \<subseteq> set (table db)"
proof (cases "pe_fault env")
  case None
  then obtain gone where "table (fst (cycle env b db)) = filter (\<lambda>r. r \<notin> gone) (table db)" using cycle_removes by blast
  then show ?thesis by auto
qed (simp add: cycle_fault)

lemma cycle_count:
  assumes "snd (cycle env b db) = Inr n"
  shows "int (length (table (fst (cycle env b db)))) + n = int (length (table db))"
proof (cases "pe_fault env")
  case None
  then obtain gone where g: "table (fst (cycle env b db)) = filter (\<lambda>r. r \<notin> gone) (table db)"
    "n = int (length (filter (\<lambda>r. r \<in> gone) (table db)))" using cycle_removes [of env b db] assms by auto
  then show ?thesis using sum_length_filter_compl [of "\<lambda>r. r \<in> gone" "table db"] by simp
qed (use assms cycle_fault in simp)

end

context safe_pruner
begin

text \<open>Everything a run of the loop does to the table: rows go, and only due ones.\<close>

lemma loop_safe:
  assumes "tidy db"
  shows "\<exists>keep. table (fst (prune_loop cycle c envs k deleted db)) = filter keep (table db) \<and>
    (\<forall>r \<in> set (table db). \<not> keep r \<longrightarrow> (\<exists>j. due (pe_now (envs j)) r))"
proof -
  define I where "I db' \<longleftrightarrow> tidy db' \<and> (\<exists>keep. table db' = filter keep (table db) \<and>
    (\<forall>r \<in> set (table db). \<not> keep r \<longrightarrow> (\<exists>j. due (pe_now (envs j)) r)))" for db'
  have "I (fst (cycle (envs j) b db'))" if "I db'" for j b db'
  proof -
    obtain keep where k: "tidy db'" "table db' = filter keep (table db)"
      "\<forall>r \<in> set (table db). \<not> keep r \<longrightarrow> (\<exists>j. due (pe_now (envs j)) r)"
      using \<open>I db'\<close> unfolding I_def by blast
    obtain gone where g: "table (fst (cycle (envs j) b db')) = filter (\<lambda>r. r \<notin> gone) (table db')"
      using cycle_removes [of "envs j" b db'] cycle_fault [of "envs j" _ b db'] by (cases "pe_fault (envs j)") (auto intro: that [of "{}"])
    have "due (pe_now (envs j)) r" if "r \<in> set (table db')" "r \<in> gone" for r
      using only_due [OF k(1) that(1), of "envs j" b] that(2) g by auto
    then have "table (fst (cycle (envs j) b db')) = filter (\<lambda>r. keep r \<and> r \<notin> gone) (table db) \<and>
        (\<forall>r \<in> set (table db). \<not> (keep r \<and> r \<notin> gone) \<longrightarrow> (\<exists>j. due (pe_now (envs j)) r))"
      using k(2,3) g by (auto simp: conj_commute)
    then show ?thesis unfolding I_def using cycle_tidy [OF k(1)] by blast
  qed
  moreover have "I db" unfolding I_def using assms by (intro conjI exI [of _ "\<lambda>_. True"]) simp_all
  ultimately have "I (fst (prune_loop cycle c envs k deleted db))" by (rule prune_loop_invariant)
  then show ?thesis unfolding I_def by blast
qed

text \<open>With nothing in the way and enough cycles, no due row is left.\<close>

lemma cycle_due:
  assumes "tidy db" and "pe_fault env = None" and "cycle env b db = (db', Inr n)"
  shows "int (length (filter (due (pe_now env)) (table db))) = int (length (filter (due (pe_now env)) (table db'))) + n"
proof -
  obtain gone where g: "table db' = filter (\<lambda>r. r \<notin> gone) (table db)" "n = int (length (filter (\<lambda>r. r \<in> gone) (table db)))"
    using cycle_removes [OF assms(2), of b db] assms(3) by auto
  have "due (pe_now env) r" if "r \<in> set (table db)" "r \<in> gone" for r
    using only_due [OF assms(1) that(1), of env b] that(2) g(1) assms(3) by auto
  then have "filter (\<lambda>r. r \<in> gone) (table db) = filter (\<lambda>r. r \<in> gone) (filter (due (pe_now env)) (table db))"
    by (auto intro: filter_cong)
  moreover have "filter (due (pe_now env)) (table db') = filter (\<lambda>r. r \<notin> gone) (filter (due (pe_now env)) (table db))"
    unfolding g(1) by (auto intro: filter_cong)
  ultimately show ?thesis
    using sum_length_filter_compl [of "\<lambda>r. r \<in> gone" "filter (due (pe_now env)) (table db)"] g(2) by simp
qed

lemma loop_complete:
  assumes "tidy db" and "\<forall>j. pe_fault (envs j) = None \<and> pe_now (envs j) = now \<and> (\<forall>r. \<not> locked (envs j) r)"
    and "int (length (filter (due now) (table db))) < (MaxCycles c - int k) * BatchSize c" and "0 < BatchSize c"
  shows "\<forall>r \<in> set (table (fst (prune_loop cycle c envs k deleted db))). \<not> due now r"
  using assms(1,3)
proof (induction "nat (MaxCycles c - int k)" arbitrary: k deleted db rule: less_induct)
  case less
  obtain db' r where r: "cycle (envs k) (BatchSize c) db = (db', r)" by fastforce
  obtain n where n: "r = Inr n" using cycle_removes [of "envs k" "BatchSize c" db] assms(2) r by auto
  have td: "tidy db'" using cycle_tidy [OF less.prems(1), of "envs k" "BatchSize c"] r by simp
  have d: "int (length (filter (due now) (table db))) = int (length (filter (due now) (table db'))) + n"
    using cycle_due [OF less.prems(1) _ r [unfolded n]] assms(2) by simp
  show ?case
  proof (cases "n < BatchSize c")
    case True
    have "\<forall>r \<in> set (table db'). \<not> due now r"
      using short_cycle [of "envs k" "BatchSize c" db n] assms(2) r n True by auto
    then show ?thesis using r n True by (subst prune_loop.simps) simp
  next
    case False
    then have lt: "int (length (filter (due now) (table db'))) < (MaxCycles c - int (Suc k)) * BatchSize c"
      using less.prems(2) d by (simp add: algebra_simps)
    then have more: "int (Suc k) < MaxCycles c"
      using assms(4) by (smt (verit) mult_nonneg_nonneg mult_nonpos_nonneg of_nat_0_le_iff)
    have "\<forall>r \<in> set (table (fst (prune_loop cycle c envs (Suc k) (deleted + n) db'))). \<not> due now r"
      using less.hyps [of "Suc k" db' "deleted + n"] td lt more by simp
    then show ?thesis using r n False more by (subst prune_loop.simps) simp
  qed
qed

lemma loop_exact:
  assumes "tidy db" and "\<forall>j. pe_fault (envs j) = None \<and> pe_now (envs j) = now \<and> (\<forall>r. \<not> locked (envs j) r)"
    and "int (length (filter (due now) (table db))) < MaxCycles c * BatchSize c" and "0 < BatchSize c"
  shows "table (fst (prune_loop cycle c envs 0 deleted db)) = filter (\<lambda>r. \<not> due now r) (table db)"
proof -
  obtain keep where k: "table (fst (prune_loop cycle c envs 0 deleted db)) = filter keep (table db)"
    "\<forall>r \<in> set (table db). \<not> keep r \<longrightarrow> (\<exists>j. due (pe_now (envs j)) r)"
    using loop_safe [OF assms(1), of c envs 0 deleted] by blast
  moreover have "\<forall>r \<in> set (filter keep (table db)). \<not> due now r"
    using loop_complete [OF assms(1,2), of c 0 deleted] assms(3,4) k(1) by simp
  ultimately show ?thesis using assms(2) by (auto intro!: filter_cong)
qed

end

section \<open>The four pruners keep the contract\<close>

text \<open>A batch: the rows that share an id with one of the first rows that qualify.\<close>

definition batch_ids :: "('r \<Rightarrow> 'k) \<Rightarrow> ('r \<Rightarrow> 's :: linorder) \<Rightarrow> ('r \<Rightarrow> bool) \<Rightarrow> int \<Rightarrow> 'r list \<Rightarrow> 'k set" where
  "batch_ids idf ord P b rows = idf ` set (limit b (sort_key ord (filter P rows)))"

lemma batch_short:
  assumes "int (length (filter (\<lambda>r. idf r \<in> batch_ids idf ord P b rows) rows)) < b"
  shows "\<forall>r \<in> set rows. P r \<longrightarrow> idf r \<in> batch_ids idf ord P b rows"
proof -
  let ?X = "sort_key ord (filter P rows)" and ?sel = "limit b (sort_key ord (filter P rows))"
  have "mset ?sel \<subseteq># mset ?X" unfolding limit_def by (metis append_take_drop_id mset_append mset_subset_eq_add_left)
  also have "mset ?X \<subseteq># mset rows" by (simp add: multiset_filter_subset)
  finally have "filter_mset (\<lambda>r. idf r \<in> batch_ids idf ord P b rows) (mset ?sel) \<subseteq>#
      filter_mset (\<lambda>r. idf r \<in> batch_ids idf ord P b rows) (mset rows)" by (rule multiset_filter_mono)
  moreover have "filter_mset (\<lambda>r. idf r \<in> batch_ids idf ord P b rows) (mset ?sel) = mset ?sel"
    by (auto simp: filter_mset_eq_conv batch_ids_def)
  ultimately have "length ?sel \<le> length (filter (\<lambda>r. idf r \<in> batch_ids idf ord P b rows) rows)"
    using size_mset_mono by (metis mset_filter size_mset)
  then have "int (length ?sel) < b" using assms by linarith
  then have "?sel = ?X" by (simp add: limit_def min_def split: if_splits)
  then show ?thesis by (auto simp: batch_ids_def)
qed

lemma batch_due:
  assumes "distinct (map idf rows)" and "r \<in> set rows" and "idf r \<in> batch_ids idf ord P b rows"
  shows "P r"
proof -
  obtain x where x: "x \<in> set (limit b (sort_key ord (filter P rows)))" "idf x = idf r" using assms(3) by (auto simp: batch_ids_def)
  then have "x \<in> set rows" "P x" by (auto simp: limit_def dest!: in_set_takeD)
  moreover from this have "x = r" using assms(1,2) x(2) by (metis distinct_map inj_onD)
  ultimately show ?thesis by simp
qed

lemma distinct_map_filter_row: "distinct (map f xs) \<Longrightarrow> distinct (map f (filter P xs))"
  by (rule distinct_map_filter)

abbreviation "group_due \<equiv> \<lambda>now. deletable_group now DEFAULT_GROUP_MESSAGE_LIFETIME_DAYS"
abbreviation "welcome_due \<equiv> \<lambda>now. old_welcome now DEFAULT_LIFETIME_OF_WELCOME_MESSAGES"
abbreviation "installation_due \<equiv> \<lambda>now r. in_CreatedAt r < now - days_ns DEFAULT_LIFETIME_OF_INSTALLATIONS"
abbreviation "key_package_due \<equiv> \<lambda>now r. kp_CreatedAt r < now - days_ns DEFAULT_LIFETIME_OF_KEY_PACKAGES"

lemma group_cycle_eq:
  "group_cycle env b db = (case pe_fault env of Some e \<Rightarrow> (db, Inl e) | None \<Rightarrow>
     let gone = batch_ids gr_ID gr_ID (\<lambda>r. group_due (pe_now env) r \<and> \<not> pe_row_locked env (gr_ID r)) b (group_messages db)
     in (db\<lparr>group_messages := filter (\<lambda>r. gr_ID r \<notin> gone) (group_messages db)\<rparr>,
         Inr (int (length (filter (\<lambda>r. gr_ID r \<in> gone) (group_messages db))))))"
  by (simp add: group_cycle_def deleted_rows_def DeleteOldGroupMessagesBatch_def write_query_def Let_def batch_ids_def
      select_asc_def split: option.split)

lemma welcome_cycle_eq:
  "welcome_cycle env b db = (case pe_fault env of Some e \<Rightarrow> (db, Inl e) | None \<Rightarrow>
     let gone = batch_ids wr_ID wr_ID (\<lambda>r. welcome_due (pe_now env) r \<and> \<not> pe_row_locked env (wr_ID r)) b (welcome_messages db)
     in (db\<lparr>welcome_messages := filter (\<lambda>r. wr_ID r \<notin> gone) (welcome_messages db)\<rparr>,
         Inr (int (length (filter (\<lambda>r. wr_ID r \<in> gone) (welcome_messages db))))))"
  by (simp add: welcome_cycle_def deleted_rows_def DeleteOldWelcomeMessagesBatch_def write_query_def Let_def batch_ids_def
      select_asc_def split: option.split)

lemma installation_cycle_eq:
  "installation_cycle env b db = (case pe_fault env of Some e \<Rightarrow> (db, Inl e) | None \<Rightarrow>
     let gone = batch_ids in_ID in_ID (\<lambda>r. installation_due (pe_now env) r \<and> \<not> pe_installation_locked env (in_ID r)) b (installations db)
     in (db\<lparr>installations := filter (\<lambda>r. in_ID r \<notin> gone) (installations db)\<rparr>,
         Inr (int (length (filter (\<lambda>r. in_ID r \<in> gone) (installations db))))))"
  by (simp add: installation_cycle_def deleted_rows_def DeleteOldInstallationsBatch_def write_query_def Let_def batch_ids_def
      split: option.split)

lemma key_package_cycle_eq:
  "key_package_cycle env b db = (case pe_fault env of Some e \<Rightarrow> (db, Inl e) | None \<Rightarrow>
     let gone = batch_ids kp_InstallationID kp_InstallationID (\<lambda>r. key_package_due (pe_now env) r \<and> \<not> pe_row_locked env (kp_SequenceID r)) b (key_packages db)
     in (db\<lparr>key_packages := filter (\<lambda>r. kp_InstallationID r \<notin> gone) (key_packages db)\<rparr>,
         Inr (int (length (filter (\<lambda>r. kp_InstallationID r \<in> gone) (key_packages db))))))"
  by (simp add: key_package_cycle_def deleted_rows_def DeleteOldKeyPackagesBatch_def write_query_def Let_def batch_ids_def
      split: option.split)

text \<open>The laws follow from the shape all four cycles share.\<close>

lemma cycle_laws:
  assumes eq: "\<And>env b db. cycle env b db = (case pe_fault env of Some e \<Rightarrow> (db, Inl e) | None \<Rightarrow>
      let gone = batch_ids idf ord (\<lambda>r. due (pe_now env) r \<and> \<not> locked env r) b (table db)
      in (put (filter (\<lambda>r. idf r \<notin> gone) (table db)) db, Inr (int (length (filter (\<lambda>r. idf r \<in> gone) (table db))))))"
    and put: "\<And>rows db. table (put rows db) = rows"
  shows "pruner cycle table due locked (\<lambda>_. True)"
    and "safe_pruner cycle table due locked (\<lambda>db. distinct (map idf (table db)))"
proof -
  have fault: "cycle env b db = (db, Inl e)" if "pe_fault env = Some e" for env :: prune_env and b db e using that by (simp add: eq)
  let ?gone = "\<lambda>(env :: prune_env) b db. batch_ids idf ord (\<lambda>r. due (pe_now env) r \<and> \<not> locked env r) b (table db)"
  have ok: "table (fst (cycle env b db)) = filter (\<lambda>r. idf r \<notin> ?gone env b db) (table db)"
    "snd (cycle env b db) = Inr (int (length (filter (\<lambda>r. idf r \<in> ?gone env b db) (table db))))"
    if "pe_fault env = None" for env :: prune_env and b db
    using that by (simp_all add: eq Let_def put)
  have tidy: "distinct (map idf (table db)) \<Longrightarrow> distinct (map idf (table (fst (cycle env b db))))" for env :: prune_env and b db
    by (cases "pe_fault env") (simp_all add: fault ok distinct_map_filter_row)
  have p: "pruner cycle table due locked T" if T: "\<And>env b db. T db \<Longrightarrow> T (fst (cycle env b db))" for T
  proof
    fix env :: prune_env and b db assume none: "pe_fault env = None"
    show "\<exists>gone. table (fst (cycle env b db)) = filter (\<lambda>r. r \<notin> gone) (table db) \<and>
        snd (cycle env b db) = Inr (int (length (filter (\<lambda>r. r \<in> gone) (table db))))"
      by (rule exI [of _ "{r. idf r \<in> ?gone env b db}"]) (simp add: ok [OF none])
    fix n assume n: "snd (cycle env b db) = Inr n" "n < b"
    have "int (length (filter (\<lambda>r. idf r \<in> ?gone env b db) (table db))) < b" using n ok(2) [OF none, of b db] by simp
    then have "\<forall>r \<in> set (table db). due (pe_now env) r \<and> \<not> locked env r \<longrightarrow> idf r \<in> ?gone env b db" by (rule batch_short)
    then show "\<forall>r \<in> set (table (fst (cycle env b db))). due (pe_now env) r \<longrightarrow> locked env r"
      unfolding ok(1) [OF none] set_filter by blast
  qed (erule fault T)+
  show "pruner cycle table due locked (\<lambda>_. True)" by (rule p) simp
  show "safe_pruner cycle table due locked (\<lambda>db. distinct (map idf (table db)))"
  proof (rule safe_pruner.intro [OF p [where T = "\<lambda>db. distinct (map idf (table db))", OF tidy] safe_pruner_axioms.intro])
    fix db r and env :: prune_env and b
    assume d: "distinct (map idf (table db))" and r: "r \<in> set (table db)" "r \<notin> set (table (fst (cycle env b db)))"
    show "due (pe_now env) r"
    proof (cases "pe_fault env")
      case None
      then have "idf r \<in> ?gone env b db" using r by (simp add: ok)
      from batch_due [OF d r(1) this] show ?thesis by simp
    qed (use r fault in simp)
  qed
qed

interpretation group_table: safe_pruner group_cycle group_messages group_due "\<lambda>env r. pe_row_locked env (gr_ID r)"
    "\<lambda>db. distinct (map gr_ID (group_messages db))"
  by (rule cycle_laws(2) [OF group_cycle_eq]) simp

interpretation welcome_table: safe_pruner welcome_cycle welcome_messages welcome_due "\<lambda>env r. pe_row_locked env (wr_ID r)"
    "\<lambda>db. distinct (map wr_ID (welcome_messages db))"
  by (rule cycle_laws(2) [OF welcome_cycle_eq]) simp

interpretation installation_table: safe_pruner installation_cycle installations installation_due "\<lambda>env r. pe_installation_locked env (in_ID r)"
    "\<lambda>db. distinct (map in_ID (installations db))"
  by (rule cycle_laws(2) [OF installation_cycle_eq]) simp

interpretation key_package_table: pruner key_package_cycle key_packages key_package_due "\<lambda>env r. pe_row_locked env (kp_SequenceID r)" "\<lambda>_. True"
  by (rule cycle_laws(1) [OF key_package_cycle_eq]) simp

section \<open>The executor\<close>

text \<open>Each pruner's loop leaves the other tables alone.\<close>

lemma prune_loop_frame:
  assumes "\<And>k db. f (fst (cycle (envs k) (BatchSize c) db)) = f db"
  shows "f (fst (prune_loop cycle c envs k deleted db)) = f db"
  by (rule prune_loop_invariant [where I = "\<lambda>db'. f db' = f db"]) (simp_all add: assms)

lemma cycle_frames:
  "welcome_messages (fst (group_cycle env b db)) = welcome_messages db" "installations (fst (group_cycle env b db)) = installations db"
  "group_messages (fst (welcome_cycle env b db)) = group_messages db" "installations (fst (welcome_cycle env b db)) = installations db"
  "group_messages (fst (installation_cycle env b db)) = group_messages db" "welcome_messages (fst (installation_cycle env b db)) = welcome_messages db"
  "group_messages (fst (key_package_cycle env b db)) = group_messages db" "welcome_messages (fst (key_package_cycle env b db)) = welcome_messages db"
  "installations (fst (key_package_cycle env b db)) = installations db"
  by (simp_all add: group_cycle_eq welcome_cycle_eq installation_cycle_eq key_package_cycle_eq Let_def split: option.split)

lemma fst_run_pruner:
  assumes "\<not> CountDeletable c" and "\<not> DryRun c"
  shows "fst (run_pruner c cenv envs p db) = fst (prune_loop (PruneCycle p) c envs 0 0 db)"
  using assms by (simp add: run_pruner_def Let_def split_def split: sum.split)

text \<open>A run of several pruners changes a table as its own pruner does.\<close>

lemma run_pruners_table:
  assumes "\<not> CountDeletable c" and "\<not> DryRun c" and "distinct ps" and "p \<in> set ps"
    and frame: "\<And>q db. q \<noteq> p \<Longrightarrow> f (fst (prune_loop (PruneCycle q) c (envs q) 0 0 db)) = f db"
    and own: "\<And>db. f db = rows \<Longrightarrow> f (fst (prune_loop (PruneCycle p) c (envs p) 0 0 db)) = rows'"
    and start: "f db = rows"
  shows "f (fst (run_pruners c cenv envs ps db)) = rows'"
proof -
  have others: "f (fst (run_pruners c cenv envs qs db)) = f db" if "p \<notin> set qs" for qs db
    using that
  proof (induction qs arbitrary: db)
    case (Cons q qs)
    then have "q \<noteq> p" by auto
    from Cons frame [OF this] fst_run_pruner [OF assms(1,2)] show ?case by (simp add: Let_def split_def)
  qed simp
  show ?thesis
    using assms(3,4) start
  proof (induction ps arbitrary: db)
    case (Cons q ps)
    show ?case
    proof (cases "q = p")
      case True
      then have "p \<notin> set ps" using Cons.prems(1) by simp
      then show ?thesis using True own [OF Cons.prems(3)] others fst_run_pruner [OF assms(1,2)] by (simp add: Let_def split_def)
    next
      case False
      then have "f (fst (run_pruner c (cenv q) (envs q) q db)) = rows"
        using frame [OF False] fst_run_pruner [OF assms(1,2)] Cons.prems(3) by simp
      then show ?thesis using Cons False by (simp add: Let_def split_def)
    qed
  qed simp
qed

text \<open>An environment in which nothing stands in the way of the statements.\<close>

definition undisturbed_prune :: "(Pruner \<Rightarrow> nat \<Rightarrow> prune_env) \<Rightarrow> int \<Rightarrow> bool" where
  "undisturbed_prune envs now \<longleftrightarrow> (\<forall>p j. pe_fault (envs p j) = None \<and> pe_now (envs p j) = now \<and>
     (\<forall>i. \<not> pe_row_locked (envs p j) i) \<and> (\<forall>i. \<not> pe_installation_locked (envs p j) i))"


definition test_prune_row :: "int \<Rightarrow> int \<Rightarrow> bool option \<Rightarrow> GroupMessageRow" where
  "test_prune_row i t commit = \<lparr>gr_ID = i, gr_CreatedAt = t, gr_GroupID = [7], gr_Data = [1], gr_GroupIDDataHash = [word_of_int i],
     gr_IsCommit = commit, gr_SenderHmac = [], gr_ShouldPush = None\<rparr>"

definition test_prune_db :: mls_db where
  "test_prune_db = empty_db\<lparr>group_messages := [test_prune_row 1 0 (Some False), test_prune_row 2 0 (Some True),
     test_prune_row 3 0 None, test_prune_row 4 (days_ns 20) (Some False)]\<rparr>"

definition test_prune_env :: prune_env where
  "test_prune_env = \<lparr>pe_fault = None, pe_now = days_ns 40, pe_row_locked = (\<lambda>_. False), pe_installation_locked = (\<lambda>_. False)\<rparr>"


text \<open>
  The key package pruner selects expired rows but deletes by installation: one expired key package
  takes every key package of its installation with it, however fresh, so the installation is left
  with none. After a cycle whose batch is not full no key package of such an installation is left.
\<close>

theorem key_package_prune_takes_fresh:
  assumes "key_package_cycle env b db = (db', Inr n)" and "n < b"
    and "old \<in> set (key_packages db)" and "kp_CreatedAt old < pe_now env - days_ns 90" and "\<not> pe_row_locked env (kp_SequenceID old)"
  shows "\<forall>r \<in> set (key_packages db'). kp_InstallationID r \<noteq> kp_InstallationID old"
proof -
  let ?gone = "batch_ids kp_InstallationID kp_InstallationID
    (\<lambda>r. key_package_due (pe_now env) r \<and> \<not> pe_row_locked env (kp_SequenceID r)) b (key_packages db)"
  have "pe_fault env = None" using assms(1) by (cases "pe_fault env") (simp_all add: key_package_cycle_eq)
  then have db': "key_packages db' = filter (\<lambda>r. kp_InstallationID r \<notin> ?gone) (key_packages db)"
    "int (length (filter (\<lambda>r. kp_InstallationID r \<in> ?gone) (key_packages db))) < b"
    using assms(1,2) by (auto simp: key_package_cycle_eq Let_def)
  have "kp_InstallationID old \<in> ?gone"
    using batch_short [OF db'(2)] assms(3-5) by (simp add: DEFAULT_LIFETIME_OF_KEY_PACKAGES_def)
  then show ?thesis unfolding db'(1) by auto
qed

theorem key_package_prune_takes_fresh_witness:
  "\<exists>db'. key_package_cycle (test_prune_env\<lparr>pe_now := days_ns 100\<rparr>) 100 (empty_db\<lparr>key_packages :=
      [\<lparr>kp_SequenceID = 1, kp_InstallationID = [7], kp_KeyPackage = [1], kp_CreatedAt = 0\<rparr>,
       \<lparr>kp_SequenceID = 2, kp_InstallationID = [7], kp_KeyPackage = [2], kp_CreatedAt = days_ns 99\<rparr>]\<rparr>) = (db', Inr 2) \<and>
    (\<forall>r \<in> set (key_packages db'). kp_InstallationID r \<noteq> [7])"
proof -
  let ?env = "test_prune_env\<lparr>pe_now := days_ns 100\<rparr>"
  let ?old = "\<lparr>kp_SequenceID = 1, kp_InstallationID = [7], kp_KeyPackage = [1], kp_CreatedAt = 0\<rparr> :: KeyPackageRow"
  let ?db = "empty_db\<lparr>key_packages := [?old, \<lparr>kp_SequenceID = 2, kp_InstallationID = [7], kp_KeyPackage = [2], kp_CreatedAt = days_ns 99\<rparr>]\<rparr>"
  have "snd (key_package_cycle ?env 100 ?db) = Inr 2" by code_simp
  then have r: "key_package_cycle ?env 100 ?db = (fst (key_package_cycle ?env 100 ?db), Inr 2)" by (metis prod.collapse)
  have "\<forall>r \<in> set (key_packages (fst (key_package_cycle ?env 100 ?db))). kp_InstallationID r \<noteq> kp_InstallationID ?old"
    by (rule key_package_prune_takes_fresh [OF r]) (simp_all add: test_prune_env_def days_ns_def)
  then show ?thesis using r by auto
qed

text \<open>
  With CountDeletable set, the installation and key package pruners never prune: their count query
  compares a BIGINT with a timestamp, which Postgres rejects, and the executor reports the error.
\<close>

lemma count_mode_fails:
  assumes "CountDeletable c" and "pe_fault cenv = None" and "p = InstallationsPruner \<or> p = KeyPackagesPruner"
  shows "run_pruner c cenv envs p db = (db, Some undefined_operator)"
  using assms
  by (auto simp: run_pruner_def Count_def count_result_def GetOldInstallations_def GetOldKeyPackages_def undefined_operator_def
      query_canceled_def)

end
