(* ===== verification/Backfill.thy ===== *)
theory Backfill
  imports Store Validation
begin

text \<open>
  The backfillers of pkg/mls/store: one classifies stored group messages as commits or not with the
  validation service, in batches under its payload limit; the other appends the key packages of
  installations to the key package log. Each is modelled as its cycle, one transaction; between
  cycles the goroutine only sleeps. \<open>msgSize\<close> is \<open>proto.Size\<close> of a group message input with the given data,
  and \<open>client\<close> the remote validation service. A statement that fails inside a transaction also makes
  the commit fail in Postgres, which is a commit fault of the environment.
\<close>

section \<open>Classifying group messages\<close>

record BackfillGroupMessage =
  bf_ID :: int
  bf_Data :: bytes
  bf_IsCommit :: bool

definition maxPayloadSize :: int where
  "maxPayloadSize = 4 * 1024 * 1024"

type_synonym validator = "bytes list \<Rightarrow> GroupMessageResponse list result"

definition backfill_input :: "BackfillGroupMessage \<Rightarrow> GroupMessageInput" where
  "backfill_input m = Some \<lparr>gmi_Data = bf_Data m, gmi_SenderHmac = [], gmi_ShouldPush = False\<rparr>"

definition classifyMessageBatch :: "validator \<Rightarrow> BackfillGroupMessage list \<Rightarrow> BackfillGroupMessage list result" where
  "classifyMessageBatch client messages =
     (case ValidateGroupMessages client (map backfill_input messages) of
        Inl e \<Rightarrow> Inl (Status Internal ''failed to validate group message'')
      | Inr results \<Rightarrow>
          if length results \<noteq> length messages then Inl (Status Internal ''unexpected number of results'')
          else Inr (map (\<lambda>(m, r). m\<lparr>bf_IsCommit := vg_IsCommit r\<rparr>) (zip messages results)))"

fun classify_loop :: "(bytes \<Rightarrow> int) \<Rightarrow> validator \<Rightarrow> BackfillGroupMessage list \<Rightarrow> BackfillGroupMessage list \<Rightarrow> int \<Rightarrow>
    BackfillGroupMessage list \<Rightarrow> BackfillGroupMessage list result" where
  "classify_loop msgSize client batchedOutput currentBatch currentBatchSize [] =
     (if currentBatch \<noteq> [] then
        (case classifyMessageBatch client currentBatch of
           Inl e \<Rightarrow> Inl e
         | Inr checked \<Rightarrow> Inr (batchedOutput @ checked))
      else Inr batchedOutput)"
| "classify_loop msgSize client batchedOutput currentBatch currentBatchSize (message # messages) =
     (let messageSize = msgSize (bf_Data message) in
      if maxPayloadSize < messageSize then Inl (Status InvalidArgument ''message too large'')
      else if maxPayloadSize < currentBatchSize + messageSize then
        (case classifyMessageBatch client currentBatch of
           Inl e \<Rightarrow> Inl e
         | Inr checked \<Rightarrow> classify_loop msgSize client (batchedOutput @ checked) [message] messageSize messages)
      else classify_loop msgSize client batchedOutput (currentBatch @ [message]) (currentBatchSize + messageSize) messages)"

definition classifyMessages :: "(bytes \<Rightarrow> int) \<Rightarrow> validator \<Rightarrow> BackfillGroupMessage list \<Rightarrow> BackfillGroupMessage list result" where
  "classifyMessages msgSize client messages = classify_loop msgSize client [] [] 0 messages"

text \<open>The updates of one cycle; a failed update is logged and the loop goes on.\<close>

fun update_loop :: "(nat \<Rightarrow> fault) \<Rightarrow> nat \<Rightarrow> BackfillGroupMessage list \<Rightarrow> mls_db \<Rightarrow> mls_db" where
  "update_loop flt i [] db = db"
| "update_loop flt i (m # ms) db = update_loop flt (Suc i) ms (fst (UpdateIsCommitStatus (flt i) (Some (bf_IsCommit m)) (bf_ID m) db))"

definition is_commit_tx :: "(bytes \<Rightarrow> int) \<Rightarrow> validator \<Rightarrow> fault \<Rightarrow> (int \<Rightarrow> bool) \<Rightarrow> (nat \<Rightarrow> fault) \<Rightarrow> mls_db \<Rightarrow> mls_db \<times> unit result" where
  "is_commit_tx msgSize client sel locked flt db =
     (case SelectEnvelopesForIsCommitBackfill sel locked db of
        Inl e \<Rightarrow> (db, Inl e)
      | Inr ids \<Rightarrow>
          if ids = [] then (db, Inr ())
          else
            (case classifyMessages msgSize client (map (\<lambda>(i, d). \<lparr>bf_ID = i, bf_Data = d, bf_IsCommit = False\<rparr>) ids) of
               Inl e \<Rightarrow> (db, Inl e)
             | Inr classified \<Rightarrow> (update_loop flt 0 classified db, Inr ())))"

definition is_commit_cycle :: "(bytes \<Rightarrow> int) \<Rightarrow> validator \<Rightarrow> fault \<Rightarrow> fault \<Rightarrow> fault \<Rightarrow> (int \<Rightarrow> bool) \<Rightarrow> (nat \<Rightarrow> fault) \<Rightarrow> mls_db \<Rightarrow>
    mls_db \<times> unit result" where
  "is_commit_cycle msgSize client bf cf sel locked flt db = RunInTx bf cf (is_commit_tx msgSize client sel locked flt) db"

section \<open>Appending installations\<close>

fun append_loop :: "(nat \<Rightarrow> fault) \<Rightarrow> (nat \<Rightarrow> fault) \<Rightarrow> nat \<Rightarrow> (bytes \<times> bytes \<times> int) list \<Rightarrow> mls_db \<Rightarrow> mls_db \<times> unit result" where
  "append_loop f1 f2 i [] db = (db, Inr ())"
| "append_loop f1 f2 i ((ID, KeyPackage, CreatedAt) # ins) db =
     (case InsertKeyPackage (f1 i) ID KeyPackage CreatedAt db of
        (db1, Inl e) \<Rightarrow> (db1, Inl e)
      | (db1, Inr _) \<Rightarrow>
          (case UpdateIsAppendedStatus (f2 i) (Some True) ID db1 of
             (db2, Inl e) \<Rightarrow> (db2, Inl e)
           | (db2, Inr _) \<Rightarrow> append_loop f1 f2 (Suc i) ins db2))"

definition installations_tx :: "fault \<Rightarrow> (bytes \<Rightarrow> bool) \<Rightarrow> (nat \<Rightarrow> fault) \<Rightarrow> (nat \<Rightarrow> fault) \<Rightarrow> mls_db \<Rightarrow> mls_db \<times> unit result" where
  "installations_tx sel locked f1 f2 db =
     (case SelectInstallationsToBackfill sel locked db of
        Inl e \<Rightarrow> (db, Inl e)
      | Inr ins \<Rightarrow> if ins = [] then (db, Inr ()) else append_loop f1 f2 0 ins db)"

definition installations_cycle :: "fault \<Rightarrow> fault \<Rightarrow> fault \<Rightarrow> (bytes \<Rightarrow> bool) \<Rightarrow> (nat \<Rightarrow> fault) \<Rightarrow> (nat \<Rightarrow> fault) \<Rightarrow> mls_db \<Rightarrow>
    mls_db \<times> unit result" where
  "installations_cycle bf cf sel locked f1 f2 db = RunInTx bf cf (installations_tx sel locked f1 f2) db"

section \<open>Batching\<close>

text \<open>The batches the loop sends, and their sizes.\<close>

fun payload_batches :: "(bytes \<Rightarrow> int) \<Rightarrow> BackfillGroupMessage list \<Rightarrow> int \<Rightarrow> BackfillGroupMessage list \<Rightarrow> BackfillGroupMessage list list" where
  "payload_batches msgSize cur n [] = (if cur = [] then [] else [cur])"
| "payload_batches msgSize cur n (m # ms) =
     (let k = msgSize (bf_Data m) in
      if maxPayloadSize < n + k then cur # payload_batches msgSize [m] k ms else payload_batches msgSize (cur @ [m]) (n + k) ms)"

definition payload :: "(bytes \<Rightarrow> int) \<Rightarrow> BackfillGroupMessage list \<Rightarrow> int" where
  "payload msgSize ms = sum_list (map (\<lambda>m. msgSize (bf_Data m)) ms)"

lemma payload_batches_concat: "concat (payload_batches msgSize cur n ms) = cur @ ms"
  by (induction ms arbitrary: cur n) (simp_all add: Let_def)

lemma payload_batches_bounded:
  assumes "\<forall>m \<in> set ms. msgSize (bf_Data m) \<le> maxPayloadSize" and "payload msgSize cur \<le> maxPayloadSize"
  shows "\<forall>b \<in> set (payload_batches msgSize cur (payload msgSize cur) ms). payload msgSize b \<le> maxPayloadSize"
  using assms
proof (induction ms arbitrary: cur)
  case (Cons m ms)
  have "payload msgSize (cur @ [m]) = payload msgSize cur + msgSize (bf_Data m)" "payload msgSize [m] = msgSize (bf_Data m)"
    by (simp_all add: payload_def)
  then show ?case using Cons.IH [of "cur @ [m]"] Cons.IH [of "[m]"] Cons.prems by (auto simp: Let_def)
qed simp

text \<open>A service that judges each payload on its own, as \<open>verdict\<close> says, and accepts it.\<close>

definition judges :: "validator \<Rightarrow> (bytes \<Rightarrow> bool) \<Rightarrow> bool" where
  "judges client verdict \<longleftrightarrow> (\<forall>ps. \<exists>rs. client ps = Inr rs \<and> length rs = length ps \<and> list_all vr_IsOk rs \<and> map vr_IsCommit rs = map verdict ps)"

definition classified_by :: "(bytes \<Rightarrow> bool) \<Rightarrow> BackfillGroupMessage \<Rightarrow> BackfillGroupMessage" where
  "classified_by verdict m = m\<lparr>bf_IsCommit := verdict (bf_Data m)\<rparr>"

lemma classifyMessageBatch_judged:
  assumes "judges client verdict"
  shows "classifyMessageBatch client ms = Inr (map (classified_by verdict) ms)"
proof -
  let ?ps = "map bf_Data ms"
  obtain rs where rs: "client ?ps = Inr rs" "length rs = length ?ps" "list_all vr_IsOk rs" "map vr_IsCommit rs = map verdict ?ps"
    using assms unfolding judges_def by blast
  have "makeValidateGroupMessagesRequest (map backfill_input ms) = Inr ?ps"
    by (induction ms) (simp_all add: backfill_input_def)
  moreover have "group_message_results rs = Inr (map (\<lambda>r. \<lparr>vg_GroupId = vr_GroupId r, vg_IsCommit = vr_IsCommit r\<rparr>) rs)"
    using rs(3) group_message_results_Inr by blast
  moreover have "map (\<lambda>(m, r). m\<lparr>bf_IsCommit := vg_IsCommit r\<rparr>) (zip ms (map (\<lambda>r. \<lparr>vg_GroupId = vr_GroupId r, vg_IsCommit = vr_IsCommit r\<rparr>) rs)) =
      map (classified_by verdict) ms"
    using rs(2,4)
  proof (induction ms arbitrary: rs)
    case (Cons m ms)
    then show ?case by (cases rs) (auto simp: classified_by_def)
  qed simp
  ultimately show ?thesis using rs(1,2) by (simp add: classifyMessageBatch_def ValidateGroupMessages_def)
qed

lemma classify_loop_judged:
  assumes "judges client verdict" and "\<forall>m \<in> set ms. msgSize (bf_Data m) \<le> maxPayloadSize"
  shows "classify_loop msgSize client out cur n ms = Inr (out @ map (classified_by verdict) (cur @ ms))"
  using assms(2)
  by (induction ms arbitrary: out cur n) (simp_all add: classifyMessageBatch_judged [OF assms(1)] Let_def not_less)

text \<open>Any service: the batches are sent one after the other, and the first failure is the result.\<close>

fun validate_all :: "validator \<Rightarrow> BackfillGroupMessage list list \<Rightarrow> BackfillGroupMessage list result" where
  "validate_all client [] = Inr []"
| "validate_all client (b # bs) =
     (case classifyMessageBatch client b of
        Inl e \<Rightarrow> Inl e
      | Inr v \<Rightarrow> (case validate_all client bs of Inl e \<Rightarrow> Inl e | Inr vs \<Rightarrow> Inr (v @ vs)))"

lemma classify_loop_batches:
  assumes "\<forall>m \<in> set ms. msgSize (bf_Data m) \<le> maxPayloadSize"
  shows "classify_loop msgSize client out cur n ms =
    (case validate_all client (payload_batches msgSize cur n ms) of Inl e \<Rightarrow> Inl e | Inr vs \<Rightarrow> Inr (out @ vs))"
  using assms
proof (induction ms arbitrary: out cur n)
  case Nil
  then show ?case by (simp split: sum.split)
next
  case (Cons m ms)
  then show ?case by (simp add: Let_def not_less split: sum.split)
qed

text \<open>
  The classification of a backfill batch respects the service's limit: whatever the service answers,
  the messages are sent in their order, each in exactly one request, no request is larger than 4 MiB,
  and the result is that of the requests one after the other, the first failure failing the batch.
\<close>

theorem classifyMessages_batched:
  assumes "\<forall>m \<in> set ms. msgSize (bf_Data m) \<le> maxPayloadSize"
  shows "\<exists>batches. classifyMessages msgSize client ms = validate_all client batches \<and> concat batches = ms \<and>
    (\<forall>b \<in> set batches. payload msgSize b \<le> maxPayloadSize)"
proof (intro exI conjI)
  let ?bs = "payload_batches msgSize [] 0 ms"
  show "classifyMessages msgSize client ms = validate_all client ?bs"
    unfolding classifyMessages_def classify_loop_batches [OF assms] by (simp split: sum.split)
  show "concat ?bs = ms" by (simp add: payload_batches_concat)
  show "\<forall>b \<in> set ?bs. payload msgSize b \<le> maxPayloadSize"
    using payload_batches_bounded [OF assms, of "[]"] by (simp add: payload_def maxPayloadSize_def)
qed

definition test_verdict :: validator where
  "test_verdict ps = Inr (map (\<lambda>p. \<lparr>vr_IsOk = True, vr_ErrorMessage = [], vr_GroupId = [], vr_IsCommit = (p = [1])\<rparr>) ps)"

definition test_backfill :: "BackfillGroupMessage list" where
  "test_backfill = map (\<lambda>d. \<lparr>bf_ID = 1, bf_Data = [d], bf_IsCommit = False\<rparr>) [1, 2, 1]"

theorem classifyMessages_batched_witness:
  "\<exists>batches. classifyMessages (\<lambda>_. 3000000) test_verdict test_backfill = validate_all test_verdict batches \<and>
    concat batches = test_backfill \<and> (\<forall>b \<in> set batches. payload (\<lambda>_. 3000000) b \<le> 4194304)"
proof -
  have "\<forall>m \<in> set test_backfill. 3000000 \<le> maxPayloadSize" by (simp add: maxPayloadSize_def)
  from classifyMessages_batched [OF this, of test_verdict] show ?thesis by (simp add: maxPayloadSize_def)
qed

section \<open>A cycle\<close>

definition backlog :: "mls_db \<Rightarrow> GroupMessageRow list" where
  "backlog db = limit 100 (filter (\<lambda>r. gr_IsCommit r = None) (group_messages db))"

lemma UpdateIsCommitStatus_ok:
  "fst (UpdateIsCommitStatus None c i db) = db\<lparr>group_messages := map (\<lambda>r. if gr_ID r = i then r\<lparr>gr_IsCommit := c\<rparr> else r) (group_messages db)\<rparr>"
  by (simp add: UpdateIsCommitStatus_def write_query_def)

lemma update_loop_ok:
  assumes "\<forall>j. flt j = None" and "\<forall>m \<in> set ms. bf_IsCommit m = f (bf_ID m)"
  shows "update_loop flt i ms db = db\<lparr>group_messages := map (\<lambda>r.
    if gr_ID r \<in> bf_ID ` set ms then r\<lparr>gr_IsCommit := Some (f (gr_ID r))\<rparr> else r) (group_messages db)\<rparr>"
  using assms(2)
proof (induction ms arbitrary: i db)
  case (Cons m ms)
  have "flt i = None" using assms(1) by simp
  then have "update_loop flt i (m # ms) db = update_loop flt (Suc i) ms (db\<lparr>group_messages :=
      map (\<lambda>r. if gr_ID r = bf_ID m then r\<lparr>gr_IsCommit := Some (f (bf_ID m))\<rparr> else r) (group_messages db)\<rparr>)"
    using Cons.prems by (simp add: UpdateIsCommitStatus_ok)
  also have "\<dots> = db\<lparr>group_messages := map (\<lambda>r. if gr_ID r \<in> bf_ID ` set (m # ms) then r\<lparr>gr_IsCommit := Some (f (gr_ID r))\<rparr> else r)
      (group_messages db)\<rparr>"
    using Cons by (auto intro!: mls_db.equality)
  finally show ?case .
qed simp

text \<open>
  A backfill cycle classifies exactly the oldest unclassified messages: when the service judges each
  message and nothing fails, the first 100 rows without a classification get the service's verdict on
  their own data and every other row stays as it is.
\<close>

theorem is_commit_cycle_exact:
  assumes "groups_ok db" and "judges client verdict" and "\<forall>r \<in> set (group_messages db). msgSize (gr_Data r) \<le> maxPayloadSize"
    and "\<forall>j. flt j = None" and "\<forall>i. \<not> locked i"
  shows "is_commit_cycle msgSize client None None None locked flt db =
    (db\<lparr>group_messages := map (\<lambda>r. if r \<in> set (backlog db) then r\<lparr>gr_IsCommit := Some (verdict (gr_Data r))\<rparr> else r)
       (group_messages db)\<rparr>, Inr ())"
proof -
  let ?G = "group_messages db"
  have asc: "ascending gr_ID ?G" using assms(1) by (simp add: groups_ok_def log_ok_def)
  have P: "(\<lambda>r. gr_IsCommit r = None \<and> \<not> locked (gr_ID r)) = (\<lambda>r. gr_IsCommit r = None)" using assms(5) by auto
  have sel: "SelectEnvelopesForIsCommitBackfill None locked db = Inr (map (\<lambda>r. (gr_ID r, gr_Data r)) (backlog db))"
    unfolding SelectEnvelopesForIsCommitBackfill_def P by (simp add: backlog_def select_asc_ascending [OF asc])
  have sub: "set (backlog db) \<subseteq> set ?G" by (auto simp: backlog_def limit_def dest: in_set_takeD)
  have inj: "inj_on gr_ID (set ?G)" by (rule inj_onI) (rule ascending_inj [OF asc])
  define f where "f i = verdict (gr_Data (the_inv_into (set ?G) gr_ID i))" for i
  have f: "f (gr_ID r) = verdict (gr_Data r)" if "r \<in> set ?G" for r
    using the_inv_into_f_f [OF inj that] by (simp add: f_def)
  let ?ms = "map (\<lambda>r. \<lparr>bf_ID = gr_ID r, bf_Data = gr_Data r, bf_IsCommit = False\<rparr>) (backlog db)"
  have cls: "classifyMessages msgSize client ?ms = Inr (map (classified_by verdict) ?ms)"
    unfolding classifyMessages_def using classify_loop_judged [OF assms(2), of ?ms msgSize "[]" "[]" 0] assms(3) sub by auto
  have "update_loop flt 0 (map (classified_by verdict) ?ms) db = db\<lparr>group_messages := map (\<lambda>r.
      if gr_ID r \<in> bf_ID ` set (map (classified_by verdict) ?ms) then r\<lparr>gr_IsCommit := Some (f (gr_ID r))\<rparr> else r) ?G\<rparr>"
    by (rule update_loop_ok [OF assms(4)]) (use f sub in \<open>auto simp: classified_by_def\<close>)
  also have "bf_ID ` set (map (classified_by verdict) ?ms) = gr_ID ` set (backlog db)" by (auto simp: classified_by_def image_iff)
  also have "map (\<lambda>r. if gr_ID r \<in> gr_ID ` set (backlog db) then r\<lparr>gr_IsCommit := Some (f (gr_ID r))\<rparr> else r) ?G =
      map (\<lambda>r. if r \<in> set (backlog db) then r\<lparr>gr_IsCommit := Some (verdict (gr_Data r))\<rparr> else r) ?G"
    using f sub inj by (intro map_cong) (auto simp: inj_on_def subset_iff)
  finally have up: "update_loop flt 0 (map (classified_by verdict) ?ms) db = db\<lparr>group_messages :=
      map (\<lambda>r. if r \<in> set (backlog db) then r\<lparr>gr_IsCommit := Some (verdict (gr_Data r))\<rparr> else r) ?G\<rparr>" .
  show ?thesis
    using cls up by (cases "backlog db = []") (simp_all add: is_commit_cycle_def RunInTx_def is_commit_tx_def sel comp_def)
qed

definition test_backfill_row :: "int \<Rightarrow> bytes \<Rightarrow> bool option \<Rightarrow> GroupMessageRow" where
  "test_backfill_row i d c = \<lparr>gr_ID = i, gr_CreatedAt = i, gr_GroupID = [7], gr_Data = d, gr_GroupIDDataHash = [word_of_int i],
     gr_IsCommit = c, gr_SenderHmac = [], gr_ShouldPush = None\<rparr>"

definition test_backfill_db :: mls_db where
  "test_backfill_db = empty_db\<lparr>group_messages := [test_backfill_row 1 [1] None, test_backfill_row 2 [1] (Some False),
     test_backfill_row 3 [2] None], group_messages_seq := 4\<rparr>"

lemma test_verdict_judges: "judges test_verdict (\<lambda>p. p = [1])"
  by (auto simp: judges_def test_verdict_def list_all_iff)

theorem is_commit_cycle_exact_witness:
  "map gr_IsCommit (group_messages (fst (is_commit_cycle (\<lambda>_. 10) test_verdict None None None (\<lambda>_. False) (\<lambda>_. None) test_backfill_db))) =
    [Some True, Some False, Some False]"
proof -
  have ok: "groups_ok test_backfill_db"
    by (simp add: groups_ok_def log_ok_def test_backfill_db_def test_backfill_row_def)
  have "\<forall>r \<in> set (group_messages test_backfill_db). (10 :: int) \<le> maxPayloadSize" by (simp add: maxPayloadSize_def)
  from is_commit_cycle_exact [OF ok test_verdict_judges this, of "\<lambda>_. None" "\<lambda>_. False"]
  show ?thesis by (simp add: test_backfill_db_def test_backfill_row_def backlog_def limit_def)
qed

text \<open>A message over the limit among the first 100 makes every cycle fail without progress.\<close>

lemma classify_loop_too_large:
  "\<exists>m \<in> set ms. maxPayloadSize < msgSize (bf_Data m) \<Longrightarrow> \<exists>e. classify_loop msgSize client out cur n ms = Inl e"
proof (induction ms arbitrary: out cur n)
  case (Cons m ms)
  then show ?case by (cases "maxPayloadSize < msgSize (bf_Data m)") (auto simp: Let_def split: sum.split)
qed simp

lemma oversized_message_blocks_backfill:
  assumes "groups_ok db" and "r \<in> set (backlog db)" and "maxPayloadSize < msgSize (gr_Data r)"
  shows "\<exists>e. is_commit_cycle msgSize client bf cf None (\<lambda>_. False) flt db = (db, Inl e)"
proof -
  have asc: "ascending gr_ID (group_messages db)" using assms(1) by (simp add: groups_ok_def log_ok_def)
  have sel: "SelectEnvelopesForIsCommitBackfill None (\<lambda>_. False) db = Inr (map (\<lambda>r. (gr_ID r, gr_Data r)) (backlog db))"
    by (simp add: SelectEnvelopesForIsCommitBackfill_def backlog_def select_asc_ascending [OF asc])
  let ?ms = "map (\<lambda>(i, d). \<lparr>bf_ID = i, bf_Data = d, bf_IsCommit = False\<rparr>) (map (\<lambda>r. (gr_ID r, gr_Data r)) (backlog db))"
  have "\<exists>m \<in> set ?ms. maxPayloadSize < msgSize (bf_Data m)" using assms(2,3) by force
  from classify_loop_too_large [OF this] obtain e where "classifyMessages msgSize client ?ms = Inl e"
    unfolding classifyMessages_def by blast
  moreover have "backlog db \<noteq> []" using assms(2) by auto
  moreover have "rollback db db = db" by (simp add: rollback_def)
  ultimately show ?thesis by (simp add: is_commit_cycle_def RunInTx_def is_commit_tx_def sel split: option.split)
qed

section \<open>Installations\<close>

lemma InsertKeyPackage_appends:
  assumes "InsertKeyPackage flt i kp t db = (db', Inr u)"
  shows "set (key_packages db) \<subseteq> set (key_packages db') \<and> installations db' = installations db \<and>
    (\<exists>k \<in> set (key_packages db'). kp_InstallationID k = i \<and> kp_KeyPackage k = kp)"
  using assms by (cases flt) (auto simp: InsertKeyPackage_def write_query_def Let_def split: if_splits)

lemma append_loop_appends:
  assumes "append_loop f1 f2 n ins db = (db', Inr u)"
  shows "set (key_packages db) \<subseteq> set (key_packages db') \<and>
    installations db' = map (\<lambda>x. if in_ID x \<in> fst ` set ins then x\<lparr>in_IsAppended := Some True\<rparr> else x) (installations db) \<and>
    (\<forall>(i, kp, t) \<in> set ins. \<exists>k \<in> set (key_packages db'). kp_InstallationID k = i \<and> kp_KeyPackage k = kp)"
  using assms
proof (induction ins arbitrary: n db)
  case (Cons x ins)
  obtain i kp t where x: "x = (i, kp, t)" by (cases x)
  obtain db1 u1 where 1: "InsertKeyPackage (f1 n) i kp t db = (db1, Inr u1)"
    using Cons.prems x by (auto split: prod.splits sum.splits)
  obtain db2 u2 where 2: "UpdateIsAppendedStatus (f2 n) (Some True) i db1 = (db2, Inr u2)"
    using Cons.prems x 1 by (auto split: prod.splits sum.splits)
  have "append_loop f1 f2 (Suc n) ins db2 = (db', Inr u)" using Cons.prems x 1 2 by simp
  note ih = Cons.IH [OF this] and one = InsertKeyPackage_appends [OF 1]
  have two: "key_packages db2 = key_packages db1"
    "installations db2 = map (\<lambda>y. if in_ID y = i then y\<lparr>in_IsAppended := Some True\<rparr> else y) (installations db1)"
    using 2 by (cases "f2 n"; auto simp: UpdateIsAppendedStatus_def write_query_def)+
  have "installations db' = map (\<lambda>y. if in_ID y \<in> fst ` set (x # ins) then y\<lparr>in_IsAppended := Some True\<rparr> else y) (installations db)"
    using ih one two(2) x by (auto simp: comp_def)
  moreover have "set (key_packages db1) \<subseteq> set (key_packages db')" using ih two(1) by simp
  ultimately show ?case using ih one x by auto
qed simp

text \<open>
  An installation backfill cycle is all or nothing and does what it is for: it either fails and
  leaves every table as it was, or each selected installation is marked as appended and its key
  package is in the log; no row of the log is lost, and the other installations stay as they are.
\<close>

theorem installations_cycle_appends:
  assumes "installations_cycle bf cf sel locked f1 f2 db = (db', r)"
  shows "(\<exists>e. r = Inl e) \<and> same_tables db db' \<or>
    r = Inr () \<and> set (key_packages db) \<subseteq> set (key_packages db') \<and>
      (\<exists>ins. SelectInstallationsToBackfill sel locked db = Inr ins \<and>
        installations db' = map (\<lambda>x. if in_ID x \<in> fst ` set ins then x\<lparr>in_IsAppended := Some True\<rparr> else x) (installations db) \<and>
        (\<forall>(i, kp, t) \<in> set ins. \<exists>k \<in> set (key_packages db'). kp_InstallationID k = i \<and> kp_KeyPackage k = kp))"
proof (cases r)
  case (Inl e)
  then have "same_tables db db'"
    using assms by (auto simp: installations_cycle_def RunInTx_def same_tables_def rollback_def split: option.splits prod.splits sum.splits)
  then show ?thesis using Inl by blast
next
  case (Inr u)
  then have run: "installations_tx sel locked f1 f2 db = (db', Inr ())"
    using assms by (auto simp: installations_cycle_def RunInTx_def split: option.splits prod.splits sum.splits)
  then obtain ins where ins: "SelectInstallationsToBackfill sel locked db = Inr ins"
    by (auto simp: installations_tx_def split: sum.splits)
  have "append_loop f1 f2 0 ins db = (db', Inr ())" using run ins by (auto simp: installations_tx_def split: if_splits)
  from append_loop_appends [OF this] ins Inr show ?thesis by simp
qed

definition test_installations :: mls_db where
  "test_installations = empty_db\<lparr>installations := [\<lparr>in_ID = [7], in_CreatedAt = 1, in_UpdatedAt = 1, in_KeyPackage = [9], in_IsAppended = None\<rparr>,
     \<lparr>in_ID = [8], in_CreatedAt = 1, in_UpdatedAt = 1, in_KeyPackage = [9], in_IsAppended = Some True\<rparr>]\<rparr>"

theorem installations_cycle_appends_witness:
  "\<exists>db'. installations_cycle None None None (\<lambda>_. False) (\<lambda>_. None) (\<lambda>_. None) test_installations = (db', Inr ()) \<and>
    (\<exists>k \<in> set (key_packages db'). kp_InstallationID k = [7] \<and> kp_KeyPackage k = [9])"
proof -
  let ?r = "installations_cycle None None None (\<lambda>_. False) (\<lambda>_. None) (\<lambda>_. None) test_installations"
  have "snd ?r = Inr ()" by code_simp
  then have r: "?r = (fst ?r, Inr ())" by (metis prod.collapse)
  have "SelectInstallationsToBackfill None (\<lambda>_. False) test_installations = Inr [([7], [9], 1)]" by code_simp
  with installations_cycle_appends [OF r] show ?thesis using r by auto
qed

end
