(* ===== verification/Database_Life.thy ===== *)
theory Database_Life
  imports Mls_Service Backfill Prune
begin

text \<open>
  The life of the MLS database: every operation of the node that writes to it, as one step relation.
  The write handlers of pkg/mls/api/v1 and pkg/identity/api/v1, the two backfillers and the pruning job
  are the steps; their requests, clocks, validation services and faults are arbitrary. Reads do not
  change the database, so any interleaving of the node's transactions is a path of this relation.

  Every reachable database is well-formed, and along every path ids only grow: a row with an id that had
  been handed out before is a row that was there before, so cursors held by clients and workers stay
  meaningful; the inbox and commit logs are append-only.
\<close>

section \<open>What a step may do to the rows that exist\<close>

text \<open>A message is the same but for its classification, which the backfiller may change.\<close>

definition same_message :: "GroupMessageRow \<Rightarrow> GroupMessageRow \<Rightarrow> bool" where
  "same_message r r' \<longleftrightarrow> r' = r\<lparr>gr_IsCommit := gr_IsCommit r'\<rparr>"

lemma same_message_simps [simp]: "same_message r r" "same_message r (r\<lparr>gr_IsCommit := c\<rparr>)"
  by (simp_all add: same_message_def)

lemma same_message_trans: "same_message a b \<Longrightarrow> same_message b c \<Longrightarrow> same_message a c"
  unfolding same_message_def by (metis GroupMessageRow.surjective GroupMessageRow.update_convs(6))

lemma same_message_ID: "same_message r r' \<Longrightarrow> gr_ID r' = gr_ID r"
  unfolding same_message_def by (metis GroupMessageRow.select_convs(1) GroupMessageRow.surjective GroupMessageRow.update_convs(6))

definition kept :: "mls_db \<Rightarrow> mls_db \<Rightarrow> bool" where
  "kept db db' \<longleftrightarrow> seqs_le db db' \<and>
     (\<forall>r' \<in> set (group_messages db'). gr_ID r' < group_messages_seq db \<longrightarrow>
        (\<exists>r \<in> set (group_messages db). same_message r r')) \<and>
     (\<forall>r' \<in> set (welcome_messages db'). wr_ID r' < welcome_messages_seq db \<longrightarrow> r' \<in> set (welcome_messages db)) \<and>
     (\<forall>r' \<in> set (key_packages db'). kp_SequenceID r' < key_packages_seq db \<longrightarrow> r' \<in> set (key_packages db)) \<and>
     prefix (inbox_log db) (inbox_log db') \<and> prefix (commit_log_v2 db) (commit_log_v2 db')"

lemma old_rows_kept: "\<forall>r' \<in> set (group_messages db). P r' \<longrightarrow> (\<exists>r \<in> set (group_messages db). same_message r r')"
  using same_message_simps(1) by blast

lemma kept_refl [simp]: "kept db db"
  by (simp add: kept_def old_rows_kept)

lemma kept_trans:
  assumes 1: "kept a b" and 2: "kept b c" shows "kept a c"
proof -
  have le: "seqs_le a b" "seqs_le b c" using assms by (simp_all add: kept_def)
  have "\<exists>r \<in> set (group_messages a). same_message r r''"
    if r'': "r'' \<in> set (group_messages c)" "gr_ID r'' < group_messages_seq a" for r''
  proof -
    have "gr_ID r'' < group_messages_seq b" using r''(2) le(1) by (simp add: seqs_le_def)
    then obtain r' where r': "r' \<in> set (group_messages b)" "same_message r' r''"
      using 2 r''(1) by (auto simp: kept_def)
    then obtain r where "r \<in> set (group_messages a)" "same_message r r'"
      using 1 r''(2) same_message_ID by (fastforce simp: kept_def)
    with r'(2) show ?thesis by (blast intro: same_message_trans)
  qed
  moreover have "\<forall>r \<in> set (welcome_messages c). wr_ID r < welcome_messages_seq a \<longrightarrow> r \<in> set (welcome_messages a)"
    using assms by (auto simp: kept_def seqs_le_def)
  moreover have "\<forall>r \<in> set (key_packages c). kp_SequenceID r < key_packages_seq a \<longrightarrow> r \<in> set (key_packages a)"
    using assms by (auto simp: kept_def seqs_le_def)
  ultimately show ?thesis
    using assms seqs_le_trans [OF le] by (auto simp: kept_def intro: prefix_order.order_trans)
qed

text \<open>A table keeps its rows, or gets one with the next id.\<close>

definition appended :: "('r \<Rightarrow> int) \<Rightarrow> int \<Rightarrow> 'r list \<Rightarrow> 'r list \<Rightarrow> bool" where
  "appended k n rows rows' \<longleftrightarrow> rows' = rows \<or> (\<exists>r. rows' = rows @ [r] \<and> k r = n)"

lemma keptI:
  assumes "seqs_le db db'" and "appended gr_ID (group_messages_seq db) (group_messages db) (group_messages db')"
    and "appended wr_ID (welcome_messages_seq db) (welcome_messages db) (welcome_messages db')"
    and "appended kp_SequenceID (key_packages_seq db) (key_packages db) (key_packages db')"
    and "prefix (inbox_log db) (inbox_log db')" and "prefix (commit_log_v2 db) (commit_log_v2 db')"
  shows "kept db db'"
  using assms old_rows_kept [of db] by (auto simp: kept_def appended_def)

lemma kept_rollback: "kept db db' \<Longrightarrow> kept db (rollback db db')"
  by (simp add: kept_def rollback_def seqs_le_def old_rows_kept)

lemma kept_RunInTx:
  assumes "kept db (fst (fn db))" shows "kept db (fst (RunInTx bf cf fn db))"
  using assms kept_rollback [OF assms]
  by (cases "fn db") (auto simp: RunInTx_def split: option.split sum.split)

lemma kept_rr_loop:
  assumes "\<And>i db. kept db (fst (fn i db))" shows "kept db (fst (rr_loop n ctx bf cf fn i err db))"
proof (induction n arbitrary: i err db)
  case (Suc n)
  obtain db1 r where r: "RunInTx (bf i) (cf i) (fn i) db = (db1, r)" by fastforce
  have "kept db db1" using kept_RunInTx [of db "fn i", OF assms, of "bf i" "cf i"] r by simp
  with Suc r show ?case by (auto intro: kept_trans split: option.split sum.split go_error.split)
qed simp

section \<open>The statements\<close>

lemma kept_statements:
  "kept db (fst (InsertGroupMessage flt now g d h hm sp ic db))"
  "kept db (fst (InsertCommitLogV2 flt now g e s db))"
  "kept db (fst (CreateOrUpdateInstallation_q flt k c u p a db))"
  "kept db (fst (InsertKeyPackage flt k p c db))"
  "kept db (fst (InsertInboxLog flt j ts p db))"
  "kept db (fst (InsertAddressLog flt ad j as rv db))"
  "kept db (fst (RevokeAddressFromLog flt rv ad j db))"
  "kept db (fst (TouchInbox flt now j db))"
  "kept db (fst (UpdateIsAppendedStatus flt a k db))"
  by (cases flt; force simp: seqs_le_def appended_def InsertGroupMessage_def InsertCommitLogV2_def CreateOrUpdateInstallation_q_def
      InsertKeyPackage_def InsertInboxLog_def InsertAddressLog_def RevokeAddressFromLog_def TouchInbox_def
      UpdateIsAppendedStatus_def Let_def intro!: keptI split: sum.split)+

lemma kept_insert_welcome_row: "kept db (fst (insert_welcome_row now k d h p a m t db))"
  by (auto simp: seqs_le_def appended_def insert_welcome_row_def welcome_row_def Let_def intro!: keptI)

lemma kept_UpdateIsCommitStatus: "kept db (fst (UpdateIsCommitStatus flt c i db))"
proof -
  have "kept db (db\<lparr>group_messages := map (\<lambda>r. if gr_ID r = i then r\<lparr>gr_IsCommit := c\<rparr> else r) (group_messages db)\<rparr>)"
    unfolding kept_def
  proof (intro conjI ballI impI)
    fix r' assume "r' \<in> set (group_messages (db\<lparr>group_messages := map (\<lambda>r. if gr_ID r = i then r\<lparr>gr_IsCommit := c\<rparr> else r) (group_messages db)\<rparr>))"
    then obtain r where r: "r \<in> set (group_messages db)" "r' = (if gr_ID r = i then r\<lparr>gr_IsCommit := c\<rparr> else r)" by auto
    then have "same_message r r'" by simp
    with r(1) show "\<exists>r \<in> set (group_messages db). same_message r r'" by blast
  qed (simp_all add: seqs_le_def)
  then show ?thesis by (cases flt) (simp_all add: UpdateIsCommitStatus_def)
qed

text \<open>What a step keeps: the invariant, and the rows.\<close>

definition sound :: "mls_db \<Rightarrow> mls_db \<Rightarrow> bool" where
  "sound db db' \<longleftrightarrow> (db_ok db \<longrightarrow> db_ok db') \<and> kept db db'"

lemma sound_refl [simp]: "sound db db" by (simp add: sound_def)

lemma sound_trans: "sound a b \<Longrightarrow> sound b c \<Longrightarrow> sound a c"
  by (auto simp: sound_def intro: kept_trans)

section \<open>The handlers\<close>

lemma sound_insert_group: "sound db (fst (Store_InsertGroupMessage sha flt now g d hm sp ic db))"
  using kept_statements(1) [of db flt now g d "sha (g @ d)" hm sp ic] InsertGroupMessage_ok [of db flt now g d "sha (g @ d)" hm sp ic]
  by (auto simp: sound_def Store_InsertGroupMessage_def split: prod.splits sum.splits)

lemma sound_insert_welcome: "sound db (fst (insert_welcome sha flt now input db))"
proof -
  have "sound db (fst (Store_InsertWelcomeMessage sha flt now k d h a m db))"
    "sound db (fst (Store_InsertWelcomePointerMessage sha flt now k d h a db))" for k d h a m
    using kept_insert_welcome_row [of db now k d "sha (k @ d)" h a m 0] kept_insert_welcome_row [of db now k d "sha (k @ d)" h a "[]" 1]
      InsertWelcomeMessage_ok [of db flt now k d "sha (k @ d)" h a m] InsertWelcomePointerMessage_ok [of db flt now k d "sha (k @ d)" h a]
    by (cases flt; auto simp: sound_def Store_InsertWelcomeMessage_def Store_InsertWelcomePointerMessage_def InsertWelcomeMessage_def
        InsertWelcomePointerMessage_def split: prod.splits sum.splits)+
  then show ?thesis
    by (auto simp: insert_welcome_def finish_insert_def split: option.split WelcomeMessageInput.split sum.split prod.split)
      (metis fst_conv)+
qed

lemma sound_send_group_loop: "sound db (fst (send_group_loop sha flt clock messages i results db))"
proof (induction results arbitrary: i db)
  case (Cons r rs)
  have step: "sound db (fst (send_group_loop sha flt clock messages (Suc i) rs db1))"
    if "Store_InsertGroupMessage sha (flt i) (clock i) g d hm sp ic db = (db1, x)" for g d hm sp ic db1 x
    using sound_insert_group [of db sha "flt i" "clock i" g d hm sp ic] that Cons by (auto intro: sound_trans)
  have insert: "sound db db1" if "Store_InsertGroupMessage sha (flt i) (clock i) g d hm sp ic db = (db1, x)" for g d hm sp ic db1 x
    using sound_insert_group [of db sha "flt i" "clock i" g d hm sp ic] that by simp
  show ?case
    using step insert by (simp split: option.split sum.split prod.split)
qed simp

lemma sound_errgroup_run: "sound db (fst (errgroup_run sha steps err db))"
proof (induction steps arbitrary: err db)
  case (Cons s steps)
  obtain input flt now where s: "s = (input, flt, now)" by (cases s)
  have "sound db db1" if "insert_welcome sha flt now input db = (db1, x)" for db1 x
    using sound_insert_welcome [of db sha flt now input] that by simp
  with Cons s show ?case by (fastforce intro: sound_trans split: option.split sum.split prod.split)
qed simp

lemma sound_publish_commit_loop: "sound db (fst (publish_commit_loop marshal flt clock i entries db))"
proof (induction marshal flt clock i entries db rule: publish_commit_loop.induct)
  case (3 marshal flt clock i e es db)
  have "sound db db1" if "InsertCommitLog (flt i) (clock i) g c sig db = (db1, x)" for g c sig db1 x
    using kept_statements(2) [of db "flt i" "clock i" g c sig] InsertCommitLogV2_ok [of db "flt i" "clock i" g c sig] that
    by (simp add: sound_def InsertCommitLog_def)
  with 3 show ?case by (fastforce intro: sound_trans split: option.split sum.split prod.split)
qed simp_all

lemma kept_installation_tx: "kept db (fst (installation_tx f1 f2 now i k db))"
proof -
  obtain db1 r where r: "CreateOrUpdateInstallation_q f1 i now now k (Some True) db = (db1, r)" by fastforce
  then have "kept db db1" using kept_statements(3) [of db f1 i now now k "Some True"] by simp
  with r kept_trans [OF this kept_statements(4) [of db1 f2 i k now]] show ?thesis
    by (simp add: installation_tx_def split: sum.split)
qed

lemma sound_store_installation: "sound db (fst (store_installation T now i k db))"
  using install.RunInTx_ok kept_RunInTx [of db "installation_tx (tf_1 T) (tf_2 T) now i k", OF kept_installation_tx]
  by (simp add: sound_def store_installation_def CreateOrUpdateInstallation_def)

lemma kept_members:
  "kept db (fst (add_members flt i q ms db))" "kept db (fst (revoke_members flt i q ms db))"
proof -
  show "kept db (fst (add_members flt i q ms db))"
  proof (induction flt i q ms db rule: add_members.induct)
    case (2 flt i q a ms db)
    then show ?case using kept_statements(6) [of db "flt a" a i "Some q" None]
      by (auto intro: kept_trans split: prod.splits sum.splits)
  qed auto
  show "kept db (fst (revoke_members flt i q ms db))"
  proof (induction flt i q ms db rule: revoke_members.induct)
    case (2 flt i q a ms db)
    then show ?case using kept_statements(7) [of db "flt a" "Some q" a i]
      by (auto intro: kept_trans split: prod.splits sum.splits)
  qed auto
qed

lemma kept_write_update: "kept db (fst (write_update E F now u diff db))"
proof -
  have steps: "InsertInboxLog f j ts p a = (b, x) \<Longrightarrow> kept a b" "add_members fa j q ms a = (b, y) \<Longrightarrow> kept a b"
    "revoke_members fr j q ms a = (b, y) \<Longrightarrow> kept a b" for f fa fr j ts p q ms a b x y
    using kept_statements(5) [of a f j ts p] kept_members [of a _ j q ms] by (metis fst_conv)+
  show ?thesis
    by (simp add: write_update_def split: sum.split prod.split option.split)
      (blast intro: steps kept_statements(8) kept_trans)
qed

lemma sound_PublishIdentityUpdate: "sound db (fst (PublishIdentityUpdate E ctx bf cf F now req db))"
proof (cases req)
  case (Some u)
  have "kept db (fst (publish_tx E (F i) (now i) u db))" for i db
    using kept_write_update by (auto simp: publish_tx_def split: sum.split)
  then have "kept db (fst (rr_loop 3 ctx bf cf (\<lambda>i. publish_tx E (F i) (now i) u) 0 None db))" by (rule kept_rr_loop)
  moreover have "db_ok db \<longrightarrow> db_ok (fst (rr_loop 3 ctx bf cf (\<lambda>i. publish_tx E (F i) (now i) u) 0 None db))"
    by (rule impI) (rule publish_rr.rr_loop_ok)
  ultimately show ?thesis using Some by (simp add: sound_def PublishIdentityUpdate_def RunInRepeatableReadTx_def)
qed (simp add: PublishIdentityUpdate_def)

section \<open>The background jobs\<close>

lemma UpdateIsCommitStatus_db_ok: "db_ok db \<Longrightarrow> db_ok (fst (UpdateIsCommitStatus f c i db))"
proof (cases f)
  case None
  let ?u = "\<lambda>r :: GroupMessageRow. if gr_ID r = i then r\<lparr>gr_IsCommit := c\<rparr> else r"
  assume "db_ok db"
  moreover have "log_ok gr_ID (map ?u rows) n \<longleftrightarrow> log_ok gr_ID rows n" for rows n by (rule log_ok_map) simp
  moreover have "gr_GroupIDDataHash (?u r) = gr_GroupIDDataHash r" for r by simp
  ultimately show ?thesis using None by (simp add: UpdateIsCommitStatus_def db_ok_def part_defs comp_def)
qed (simp add: UpdateIsCommitStatus_def)

lemma UpdateIsAppendedStatus_db_ok: "db_ok db \<Longrightarrow> db_ok (fst (UpdateIsAppendedStatus f a i db))"
proof (cases f)
  case None
  have "in_ID (if in_ID r = i then r\<lparr>in_IsAppended := a\<rparr> else r) = in_ID r" for r :: InstallationRow by simp
  moreover assume "db_ok db"
  ultimately show ?thesis using None by (simp add: UpdateIsAppendedStatus_def db_ok_def part_defs comp_def)
qed (simp add: UpdateIsAppendedStatus_def)

lemma sound_update_loop: "sound db (update_loop flt i ms db)"
proof (induction ms arbitrary: i db)
  case (Cons m ms)
  have "sound db (fst (UpdateIsCommitStatus (flt i) (Some (bf_IsCommit m)) (bf_ID m) db))"
    using UpdateIsCommitStatus_db_ok kept_UpdateIsCommitStatus by (simp add: sound_def)
  then show ?case using Cons by (auto intro: sound_trans)
qed simp

lemma sound_is_commit_tx: "sound db (fst (is_commit_tx msgSize client sel locked flt db))"
  using sound_update_loop by (auto simp: is_commit_tx_def split: sum.split)

lemma sound_append_loop: "sound db (fst (append_loop f1 f2 i ins db))"
proof (induction ins arbitrary: i db)
  case (Cons x ins)
  obtain k p t where x: "x = (k, p, t)" by (cases x)
  obtain db1 r1 where 1: "InsertKeyPackage (f1 i) k p t db = (db1, r1)" by fastforce
  obtain db2 r2 where 2: "UpdateIsAppendedStatus (f2 i) (Some True) k db1 = (db2, r2)" by fastforce
  have s1: "sound db db1"
    using InsertKeyPackage_ok [of db "f1 i" k p t] kept_statements(4) [of db "f1 i" k p t] 1 by (simp add: sound_def)
  have "sound db1 db2"
    using UpdateIsAppendedStatus_db_ok [of db1 "f2 i" "Some True" k] kept_statements(9) [of db1 "f2 i" "Some True" k] 2
    by (simp add: sound_def)
  from sound_trans [OF s1 this] s1 Cons x 1 2 show ?case
    by (auto intro: sound_trans split: sum.split)
qed simp

lemma sound_installations_tx: "sound db (fst (installations_tx sel locked f1 f2 db))"
  using sound_append_loop by (auto simp: installations_tx_def split: sum.split)

lemma sound_tx_body: "(\<And>db. sound db (fst (fn db))) \<Longrightarrow> tx_body fn"
  by unfold_locales (auto simp: sound_def kept_def)

interpretation commit_tx: tx_body "is_commit_tx msgSize client sel locked flt"
  by (rule sound_tx_body) (rule sound_is_commit_tx)

interpretation append_tx: tx_body "installations_tx sel locked f1 f2"
  by (rule sound_tx_body) (rule sound_installations_tx)

lemma sound_is_commit_cycle: "sound db (fst (is_commit_cycle msgSize client bf cf sel locked flt db))"
  using commit_tx.RunInTx_ok kept_RunInTx [of db "is_commit_tx msgSize client sel locked flt" bf cf]
    sound_is_commit_tx [of db msgSize client sel locked flt]
  by (simp add: sound_def is_commit_cycle_def)

lemma sound_installations_cycle: "sound db (fst (installations_cycle bf cf sel locked f1 f2 db))"
  using append_tx.RunInTx_ok kept_RunInTx [of db "installations_tx sel locked f1 f2" bf cf]
    sound_installations_tx [of db sel locked f1 f2]
  by (simp add: sound_def installations_cycle_def)

lemma log_ok_filter: "log_ok k rows n \<Longrightarrow> log_ok k (filter P rows) n"
  by (auto simp: log_ok_def intro: ascending_filter)

lemma kept_prune:
  "kept db (db\<lparr>group_messages := filter P (group_messages db)\<rparr>)" "kept db (db\<lparr>welcome_messages := filter Q (welcome_messages db)\<rparr>)"
  "kept db (db\<lparr>installations := rows\<rparr>)" "kept db (db\<lparr>key_packages := filter R (key_packages db)\<rparr>)"
  using old_rows_kept [of db] by (auto simp: kept_def seqs_le_def)

lemma sound_PruneCycle: "sound db (fst (PruneCycle p env b db))"
proof -
  note eqs = group_cycle_eq welcome_cycle_eq installation_cycle_eq key_package_cycle_eq
  have "kept db (fst (PruneCycle p env b db))"
    by (cases p; cases "pe_fault env") (simp_all add: PruneCycle_def eqs Let_def kept_prune)
  moreover have "db_ok db \<longrightarrow> db_ok (fst (PruneCycle p env b db))"
    by (cases p; cases "pe_fault env") (simp_all add: PruneCycle_def eqs Let_def db_ok_def part_defs log_ok_filter distinct_map_filter)
  ultimately show ?thesis by (simp add: sound_def)
qed

lemma sound_run_pruner: "sound db (fst (run_pruner c cenv envs p db))"
proof -
  have "sound db (fst (prune_loop (PruneCycle p) c envs 0 0 db))"
    by (rule prune_loop_invariant [where I = "sound db"]) (auto intro: sound_trans sound_PruneCycle)
  then show ?thesis by (simp add: run_pruner_def Let_def split_def split: sum.split)
qed

lemma sound_prune_Run: "sound db (fst (prune_Run c cenv envs order db))"
proof -
  have "sound db (fst (run_pruners c cenv envs order db))"
  proof (induction order arbitrary: db)
    case (Cons p ps)
    then show ?case using sound_run_pruner [of db c "cenv p" "envs p" p] by (auto simp: Let_def split_def intro: sound_trans)
  qed simp
  then show ?thesis by (simp add: prune_Run_def split_def)
qed

section \<open>The step relation\<close>

text \<open>
  \<open>marshal\<close> is the encoding of commit log signatures, \<open>E\<close> the identity service and encodings.
\<close>

inductive db_step :: "('sig \<Rightarrow> bytes result) \<Rightarrow> 'u identity_env \<Rightarrow> mls_db \<Rightarrow> mls_db \<Rightarrow> bool" for marshal E where
  register: "db_step marshal E db (fst (RegisterInstallation s T now req db))"
| upload: "db_step marshal E db (fst (UploadKeyPackage s T now req db))"
| send_group: "db_step marshal E db (fst (SendGroupMessages s flt clock now req db))"
| send_welcome: "db_step marshal E db (fst (SendWelcomeMessages s now sched req db))"
| commit_log: "db_step marshal E db (fst (BatchPublishCommitLog s marshal flt clock now req db))"
| publish: "db_step marshal E db (fst (identity_PublishIdentityUpdate disable cutover now E ctx bf cf F clock req db))"
| backfill_commits: "db_step marshal E db (fst (is_commit_cycle msgSize client bf cf sel locked flt db))"
| backfill_installations: "db_step marshal E db (fst (installations_cycle bf cf sel locked f1 f2 db))"
| prune: "db_step marshal E db (fst (prune_Run c cenv envs order db))"

lemma db_step_sound: "db_step marshal E db db' \<Longrightarrow> sound db db'"
proof (induction rule: db_step.induct)
  case (register db s T now req)
  then show ?case using sound_store_installation [of db T]
    by (auto simp: RegisterInstallation_def split: option.split sum.split prod.split) (metis fst_conv)+
next
  case (upload db s T now req)
  then show ?case using sound_store_installation [of db T]
    by (auto simp: UploadKeyPackage_def split: option.split sum.split prod.split list.split) (metis fst_conv)+
next
  case (send_group db s flt clock now req)
  then show ?case by (auto simp: SendGroupMessages_def sound_send_group_loop split: option.split sum.split go_error.split)
next
  case (send_welcome db s now sched req)
  then show ?case by (auto simp: SendWelcomeMessages_def sound_errgroup_run split: option.split)
next
  case (commit_log db s flt clock now req)
  then show ?case by (auto simp: BatchPublishCommitLog_def sound_publish_commit_loop split: option.split)
next
  case (publish db disable cutover now ctx bf cf F clock req)
  then show ?case by (simp add: identity_PublishIdentityUpdate_def sound_PublishIdentityUpdate)
qed (simp_all add: sound_is_commit_cycle sound_installations_cycle sound_prune_Run)

lemma db_steps_sound: "(db_step marshal E)\<^sup>*\<^sup>* db db' \<Longrightarrow> sound db db'"
  by (induction rule: rtranclp_induct) (auto intro: sound_trans db_step_sound)


definition test_first :: mls_db where
  "test_first = fst (SendGroupMessages test_service (\<lambda>_. None) int 7 (Some [Some test_msg]) empty_db)"

definition test_second :: mls_db where
  "test_second = fst (is_commit_cycle (\<lambda>d. int (length d)) test_verdict None None None (\<lambda>_. False) (\<lambda>_. None) test_first)"


end
