(* ===== verification/Store_Reads.thy ===== *)
theory Store_Reads
  imports Database_Life
begin

text \<open>
  The read methods of the read-write store (pkg/mls/store/store.go), which forward to its read store on
  the same database, its start, and the update list type; and what the inbox log promises its readers
  (the properties listed in pkg/identity/api/v1/identity_service.go): a client that reads the updates of
  an inbox, keeps the last sequence number, and reads again later has lost and reordered nothing,
  whatever the node did in between.
\<close>

section \<open>The store: store.go\<close>

text \<open>\<open>readstore\<close> is made over the database of the store itself.\<close>

record mls_store =
  ms_db :: mls_db
  ms_readstore :: mls_db

text \<open>
  \<open>New\<close> runs the migrations first; \<open>initErr\<close> and \<open>migrateErr\<close> are the errors of the migration library.
\<close>

definition store_migrate :: "go_error option \<Rightarrow> go_error option \<Rightarrow> go_error option" where
  "store_migrate initErr migrateErr = (case initErr of Some e \<Rightarrow> Some e | None \<Rightarrow> migrateErr)"

definition store_New :: "go_error option \<Rightarrow> go_error option \<Rightarrow> mls_db \<Rightarrow> mls_store result" where
  "store_New initErr migrateErr db =
     (case store_migrate initErr migrateErr of Some e \<Rightarrow> Inl e | None \<Rightarrow> Inr \<lparr>ms_db = db, ms_readstore = db\<rparr>)"

definition Store_GetInboxIds :: "mls_store \<Rightarrow> fault \<Rightarrow> string list \<Rightarrow> (string \<times> string option) list result" where
  "Store_GetInboxIds s flt identifiers = GetInboxIds flt identifiers (ms_readstore s)"

definition Store_GetInboxLogs ::
  "mls_store \<Rightarrow> (bytes \<Rightarrow> 'u result) \<Rightarrow> fault \<Rightarrow> (string \<times> u64) list \<Rightarrow> (string \<times> 'u IdentityUpdateLog list) list result" where
  "Store_GetInboxLogs s unmarshal flt reqs = GetInboxLogs unmarshal flt reqs (ms_readstore s)"

definition Store_FetchKeyPackages :: "mls_store \<Rightarrow> fault \<Rightarrow> bytes list \<Rightarrow> (bytes \<times> bytes) list result" where
  "Store_FetchKeyPackages s flt installationIds = FetchKeyPackages_rs flt installationIds (ms_readstore s)"

definition Store_QueryGroupMessagesV1 :: "mls_store \<Rightarrow> fault \<Rightarrow> bytes \<Rightarrow> PagingInfo option \<Rightarrow> QueryGroupMessagesResponse result" where
  "Store_QueryGroupMessagesV1 s flt groupId p = QueryGroupMessagesV1 flt groupId p (ms_readstore s)"

definition Store_QueryWelcomeMessagesV1 :: "mls_store \<Rightarrow> fault \<Rightarrow> bytes \<Rightarrow> PagingInfo option \<Rightarrow> QueryWelcomeMessagesResponse result" where
  "Store_QueryWelcomeMessagesV1 s flt key p = QueryWelcomeMessagesV1 flt key p (ms_readstore s)"

definition Store_QueryGroupMessagesWaveScan ::
  "mls_store \<Rightarrow> fault \<Rightarrow> GroupCatchup list \<Rightarrow> u64 \<Rightarrow> u64 \<Rightarrow> int \<Rightarrow> GroupMessage list result" where
  "Store_QueryGroupMessagesWaveScan s flt filters scanCursor ceiling n =
     QueryGroupMessagesWaveScan flt filters scanCursor ceiling n (ms_readstore s)"

definition Store_QueryWelcomeMessagesWaveScan ::
  "mls_store \<Rightarrow> fault \<Rightarrow> WelcomeCatchup list \<Rightarrow> u64 \<Rightarrow> u64 \<Rightarrow> int \<Rightarrow>
     (WelcomeMessage list \<times> (bytes \<Rightarrow> WaveScanTopicProgress)) result" where
  "Store_QueryWelcomeMessagesWaveScan s flt filters scanCursor ceiling n =
     QueryWelcomeMessagesWaveScan flt filters scanCursor ceiling n (ms_readstore s)"

definition Store_GetNewestGroupMessageMetadata :: "mls_store \<Rightarrow> fault \<Rightarrow> bytes list \<Rightarrow> NewestMetadataRow option list result" where
  "Store_GetNewestGroupMessageMetadata s flt groupIds = GetNewestGroupMessageMetadata_rs flt groupIds (ms_readstore s)"

definition Store_GetNewestGroupMessage :: "mls_store \<Rightarrow> fault \<Rightarrow> bytes list \<Rightarrow> GroupMessageRow option list result" where
  "Store_GetNewestGroupMessage s flt groupIds = GetNewestGroupMessage_rs flt groupIds (ms_readstore s)"

definition Store_QueryCommitLog ::
  "mls_store \<Rightarrow> (bytes \<Rightarrow> 'sig result) \<Rightarrow> fault \<Rightarrow> bytes \<Rightarrow> PagingInfo option \<Rightarrow> 'sig QueryCommitLogResponse result" where
  "Store_QueryCommitLog s unmarshal flt groupId p = QueryCommitLog unmarshal flt groupId p (ms_readstore s)"

text \<open>The list type with the methods of \<open>sort.Interface\<close>.\<close>

datatype IdentityUpdateKind = Create | Revoke

record IdentityUpdate =
  iup_Kind :: IdentityUpdateKind
  iup_InstallationKey :: bytes
  iup_CredentialIdentity :: bytes
  iup_TimestampNs :: u64

definition IdentityUpdateList_Less :: "IdentityUpdate list \<Rightarrow> nat \<Rightarrow> nat \<Rightarrow> bool" where
  "IdentityUpdateList_Less a i j \<longleftrightarrow> iup_TimestampNs (a ! i) < iup_TimestampNs (a ! j)"

definition IdentityUpdateList_Swap :: "IdentityUpdate list \<Rightarrow> nat \<Rightarrow> nat \<Rightarrow> IdentityUpdate list" where
  "IdentityUpdateList_Swap a i j = a[i := a ! j, j := a ! i]"

lemma IdentityUpdateList_Swap_mset: "i < length a \<Longrightarrow> j < length a \<Longrightarrow> mset (IdentityUpdateList_Swap a i j) = mset a"
  by (simp add: IdentityUpdateList_Swap_def mset_swap)

section \<open>Reading an inbox\<close>

text \<open>One inbox, by its canonical text, from a cursor on.\<close>

definition read_inbox :: "(bytes \<Rightarrow> 'u result) \<Rightarrow> bytes \<Rightarrow> u64 \<Rightarrow> mls_db \<Rightarrow> 'u IdentityUpdateLog list result" where
  "read_inbox unmarshal inbox cursor db =
     (case GetInboxLogs unmarshal None [(hex_encode inbox, cursor)] db of
        Inr [(i, updates)] \<Rightarrow> Inr updates
      | Inr _ \<Rightarrow> Inl (Err ''one response per request'')
      | Inl e \<Rightarrow> Inl e)"

definition inbox_tail :: "bytes \<Rightarrow> int \<Rightarrow> mls_db \<Rightarrow> InboxLogRow list" where
  "inbox_tail inbox cursor db = filter (\<lambda>r. il_InboxID r = inbox \<and> cursor < il_SequenceID r) (inbox_log db)"

lemma concat_map_singleton: "concat (map (\<lambda>r. if P r then [r] else []) rows) = filter P rows"
  by (induction rows) auto

lemma read_inbox_eq:
  assumes "ascending il_SequenceID (inbox_log db)"
  shows "read_inbox unmarshal inbox cursor db = inbox_updates unmarshal (inbox_tail inbox (go_int64 cursor) db)"
proof -
  let ?q = "go_int64 cursor"
  have "concat (map (\<lambda>r. map (\<lambda>_. r) (filter (\<lambda>(b, q). b = il_InboxID r \<and> q < il_SequenceID r) [(inbox, ?q)])) (inbox_log db)) =
      concat (map (\<lambda>r. if il_InboxID r = inbox \<and> ?q < il_SequenceID r then [r] else []) (inbox_log db))"
    by (intro arg_cong [where f = concat] map_cong) auto
  also have "\<dots> = inbox_tail inbox ?q db" unfolding inbox_tail_def by (rule concat_map_singleton)
  finally have f: "GetInboxLogFiltered None [(hex_encode inbox, ?q)] db = Inr (sort_key il_SequenceID (inbox_tail inbox ?q db))"
    by (simp add: GetInboxLogFiltered_def del: filter.simps)
  have "ascending il_SequenceID (inbox_tail inbox ?q db)" using assms unfolding inbox_tail_def by (rule ascending_filter)
  then have s: "sort_key il_SequenceID (inbox_tail inbox ?q db) = inbox_tail inbox ?q db"
    by (intro sort_key_id_if_sorted) (auto simp: ascending_def elim: sorted_wrt_mono_rel [rotated])
  have "filter (\<lambda>r. hex_encode (il_InboxID r) = hex_encode inbox) (inbox_tail inbox ?q db) = inbox_tail inbox ?q db"
    unfolding inbox_tail_def by (intro filter_True) simp
  then show ?thesis
    using f s by (auto simp: read_inbox_def GetInboxLogs_def split: sum.split)
qed

lemma inbox_updates_append:
  "inbox_updates unmarshal (xs @ ys) =
     (case inbox_updates unmarshal xs of Inl e \<Rightarrow> Inl e
      | Inr us \<Rightarrow> (case inbox_updates unmarshal ys of Inl e \<Rightarrow> Inl e | Inr vs \<Rightarrow> Inr (us @ vs)))"
  by (induction xs) (auto split: sum.split)

lemma inbox_updates_ids:
  "inbox_updates unmarshal rows = Inr us \<Longrightarrow> map iu_SequenceId us = map (go_uint64 \<circ> il_SequenceID) rows"
  by (induction rows arbitrary: us) (auto split: sum.split_asm)

text \<open>The cursor a client keeps: the sequence number of the last update it has seen.\<close>

definition next_cursor :: "'u IdentityUpdateLog list \<Rightarrow> u64" where
  "next_cursor us = (if us = [] then 0 else iu_SequenceId (List.last us))"

text \<open>
  C20. The promise of the inbox log to its readers: take any database the node can reach, read an inbox, let the
  node do anything, and read on from the last sequence number seen. The two reads together are what one
  read at the end gives, so the second has exactly the updates the first lacked; and the sequence numbers
  ascend strictly across both, so no new update is numbered below one already seen.
\<close>

theorem inbox_reads_tile:
  assumes "(db_step marshal E)\<^sup>*\<^sup>* empty_db db1" and "(db_step marshal E)\<^sup>*\<^sup>* db1 db2" and "inbox_log_seq db2 \<le> 2 ^ 63"
    and "read_inbox unmarshal inbox 0 db1 = Inr seen" and "read_inbox unmarshal inbox (next_cursor seen) db2 = Inr new"
  shows "read_inbox unmarshal inbox 0 db2 = Inr (seen @ new) \<and> sorted_wrt (<) (map iu_SequenceId (seen @ new))"
proof -
  have "db_ok empty_db" by (rule db_ok_empty)
  then have ok: "db_ok db1" "db_ok db2" "prefix (inbox_log db1) (inbox_log db2)"
    using db_steps_sound [OF assms(1)] db_steps_sound [OF assms(2)] by (auto simp: sound_def kept_def)
  have log: "log_ok il_SequenceID (inbox_log db) (inbox_log_seq db)" if "db_ok db" for db
    using that by (simp add: db_ok_def identity_ok_def)
  have asc: "ascending il_SequenceID (inbox_log db1)" "ascending il_SequenceID (inbox_log db2)"
    and pos: "\<And>r. r \<in> set (inbox_log db2) \<Longrightarrow> 0 < il_SequenceID r \<and> il_SequenceID r < 2 ^ 63"
    using log [OF ok(1)] log [OF ok(2)] assms(3) by (force simp: log_ok_def)+
  obtain later where later: "inbox_log db2 = inbox_log db1 @ later" using ok(3) by (auto simp: prefix_def)
  let ?old = "inbox_tail inbox 0 db1" and ?new = "filter (\<lambda>r. il_InboxID r = inbox) later"
  have zero: "go_int64 0 = 0" by (simp add: go_int64_def)
  have seen: "inbox_updates unmarshal ?old = Inr seen" using assms(4) read_inbox_eq [OF asc(1), of unmarshal inbox 0] by (simp add: zero)
  have ids: "map iu_SequenceId seen = map (go_uint64 \<circ> il_SequenceID) ?old" by (rule inbox_updates_ids [OF seen])
  have all: "inbox_tail inbox 0 db2 = ?old @ ?new" using pos by (auto simp: inbox_tail_def later intro: filter_cong)
  have cursor: "go_int64 (next_cursor seen) = (if ?old = [] then 0 else il_SequenceID (List.last ?old))"
  proof (cases "?old = []")
    case True
    then show ?thesis using ids zero by (simp add: next_cursor_def)
  next
    case False
    then have ne: "seen \<noteq> []" using ids by auto
    then have "next_cursor seen = List.last (map iu_SequenceId seen)" by (simp add: next_cursor_def last_map)
    also have "\<dots> = go_uint64 (il_SequenceID (List.last ?old))" using ids False by (simp add: last_map)
    finally have "next_cursor seen = go_uint64 (il_SequenceID (List.last ?old))" .
    moreover have "List.last ?old \<in> set (inbox_log db2)" using last_in_set [OF False] by (auto simp: inbox_tail_def later)
    ultimately show ?thesis using pos False by (force simp: go_int64_go_uint64)
  qed
  have "inbox_tail inbox (go_int64 (next_cursor seen)) db2 = ?new"
  proof -
    have "\<not> go_int64 (next_cursor seen) < il_SequenceID r" if "r \<in> set (inbox_log db1)" "il_InboxID r = inbox" for r
    proof -
      have r: "r \<in> set ?old" using that pos [of r] by (auto simp: inbox_tail_def later)
      have "ascending il_SequenceID ?old" using asc(1) unfolding inbox_tail_def by (rule ascending_filter)
      moreover have "?old = butlast ?old @ [List.last ?old]" using r by (metis append_butlast_last_id empty_iff empty_set)
      ultimately have "il_SequenceID r \<le> il_SequenceID (List.last ?old)"
        using r by (metis Un_iff ascending_append empty_iff empty_set less_imp_le list.set_intros(1) order_refl set_ConsD set_append)
      then show ?thesis using cursor r by (cases "?old = []") simp_all
    qed
    moreover have "go_int64 (next_cursor seen) < il_SequenceID r" if "r \<in> set later" for r
    proof (cases "?old = []")
      case False
      then have "List.last ?old \<in> set (inbox_log db1)" using last_in_set [OF False] by (simp add: inbox_tail_def)
      then show ?thesis using asc(2) that cursor False by (simp add: later)
    qed (use cursor pos that in \<open>simp add: later\<close>)
    ultimately show ?thesis by (auto simp: inbox_tail_def later filter_empty_conv intro: filter_cong)
  qed
  then have new: "inbox_updates unmarshal ?new = Inr new" using assms(5) read_inbox_eq [OF asc(2), of unmarshal inbox "next_cursor seen"] by simp
  have full: "read_inbox unmarshal inbox 0 db2 = Inr (seen @ new)"
    using read_inbox_eq [OF asc(2), of unmarshal inbox 0] all seen new by (simp add: zero inbox_updates_append)
  then have "map iu_SequenceId (seen @ new) = map (go_uint64 \<circ> il_SequenceID) (inbox_tail inbox 0 db2)"
    using read_inbox_eq [OF asc(2), of unmarshal inbox 0] by (intro inbox_updates_ids) (simp add: zero)
  moreover have "sorted_wrt (<) (map (go_uint64 \<circ> il_SequenceID) (inbox_tail inbox 0 db2))"
  proof -
    have "ascending il_SequenceID (inbox_tail inbox 0 db2)" using asc(2) unfolding inbox_tail_def by (rule ascending_filter)
    moreover have "go_uint64 (il_SequenceID r) < go_uint64 (il_SequenceID r')"
      if "r \<in> set (inbox_tail inbox 0 db2)" "r' \<in> set (inbox_tail inbox 0 db2)" "il_SequenceID r < il_SequenceID r'" for r r'
      using that pos [of r] pos [of r'] by (simp add: word_less_def uint_go_uint64 inbox_tail_def)
    ultimately show ?thesis unfolding ascending_def by (auto simp: sorted_wrt_map intro: sorted_wrt_mono_rel [rotated])
  qed
  ultimately show ?thesis using full by simp
qed

definition test_log_put :: "bytes \<Rightarrow> mls_db \<Rightarrow> mls_db" where
  "test_log_put u db = fst (identity_PublishIdentityUpdate False None 5 test_env_id (\<lambda>_. None) (\<lambda>_. None) (\<lambda>_. None)
     (\<lambda>_. no_publish_faults) int (Some u) db)"

definition test_log_one :: mls_db where "test_log_one = test_log_put [1, 2] empty_db"
definition test_log_two :: mls_db where "test_log_two = test_log_put [3] test_log_one"

definition test_read :: "u64 \<Rightarrow> bytes \<Rightarrow> bytes IdentityUpdateLog" where
  "test_read n u = \<lparr>iu_SequenceId = n, iu_ServerTimestampNs = 0, iu_Update = u\<rparr>"

theorem inbox_reads_tile_witness:
  "read_inbox Inr [0xAB] 0 test_log_two = Inr ([test_read 1 [1, 2]] @ [test_read 2 [3]])"
proof -
  let ?step = "db_step (\<lambda>_ :: bytes. Inr []) test_env_id"
  have 1: "?step\<^sup>*\<^sup>* empty_db test_log_one" unfolding test_log_one_def test_log_put_def
    by (rule r_into_rtranclp) (rule db_step.publish)
  have 2: "?step\<^sup>*\<^sup>* test_log_one test_log_two" unfolding test_log_two_def test_log_put_def
    by (rule r_into_rtranclp) (rule db_step.publish)
  have seq: "inbox_log_seq test_log_two \<le> 2 ^ 63" by code_simp
  have seen: "read_inbox Inr [0xAB] 0 test_log_one = Inr [test_read 1 [1, 2]]" by code_simp
  have new: "read_inbox Inr [0xAB] (next_cursor [test_read 1 [1, 2]]) test_log_two = Inr [test_read 2 [3]]" by code_simp
  from inbox_reads_tile [OF 1 2 seq seen new] show ?thesis by (rule conjunct1)
qed

text \<open>
  The response is assembled by comparing the id of each row, in lower-case hex, with the id of the request
  as it was written, so a request with upper-case digits, which the query accepts, is answered empty.
\<close>

lemma hex_digit_lower: "n < 16 \<Longrightarrow> hex_digit n \<in> set ''0123456789abcdef''"
  unfolding hex_digit_def by (rule nth_mem) simp

lemma hex_encode_lower: "set (hex_encode b) \<subseteq> set ''0123456789abcdef''"
proof (induction b)
  case (Cons x xs)
  have "unat x < 256" by simp
  then have "unat x div 16 < 16" "unat x mod 16 < 16" by auto
  then show ?case using Cons hex_digit_lower [of "unat x div 16"] hex_digit_lower [of "unat x mod 16"] by simp
qed simp

lemma upper_case_inbox_reads_empty:
  assumes "c \<in> set i" and "c \<in> set ''ABCDEF''" and "pg_decode_hex i = Inr b"
  shows "GetInboxLogs unmarshal None [(i, cursor)] db = Inr [(i, [])]"
proof -
  have "c \<notin> set ''0123456789abcdef''" using assms(2) by auto
  then have "hex_encode (il_InboxID r) \<noteq> i" for r :: InboxLogRow using assms(1) hex_encode_lower by blast
  then have none: "filter (\<lambda>r. hex_encode (il_InboxID r) = i) rows = []" for rows :: "InboxLogRow list"
    by (simp add: filter_empty_conv)
  have f: "GetInboxLogFiltered None (map (\<lambda>(i, q). (i, go_int64 q)) [(i, cursor)]) db \<noteq> Inl e" for e
    using assms(3) by (simp add: GetInboxLogFiltered_def)
  show ?thesis using f none by (auto simp: GetInboxLogs_def split: sum.split)
qed

text \<open>
  An inbox that is asked for twice in one request is answered twice, each time with the rows of both filters:
  every update comes double.
\<close>

lemma inbox_asked_twice:
  "GetInboxLogs Inr None [(''ab'', 0), (''ab'', 0)] test_log_one =
     Inr [(''ab'', [test_read 1 [1, 2], test_read 1 [1, 2]]), (''ab'', [test_read 1 [1, 2], test_read 1 [1, 2]])]"
  by code_simp

end
