(* ===== verification/Message_Store.thy ===== *)
theory Message_Store
  imports Dispatcher Mls_Types Sql "HOL-Library.List_Lexorder" "HOL-Library.Product_Lexorder"
begin

text \<open>
  The store of the older message API (pkg/store): the \<open>message\<close> table, the insert of an envelope, the
  paged query of query.go and the cleaner. The SQL a request is translated to is a value
  (\<open>sql_query\<close>) built as the code builds it, with its meaning given by \<open>run_query\<close>: a WHERE is the list
  of its conditions, \<open>ORDER BY senderTimestamp, id\<close> compares the pair lexicographically and ids byte by
  byte, and without ORDER BY rows come in the order of the table. \<open>sha256\<close> is the hash. A driver that
  refuses an argument is a fault of the query.

  The primary key of the table is (senderTimestamp, id, pubsubTopic), and pubsubTopic is always empty.
\<close>

section \<open>The table\<close>

record MessageRow =
  ms_id :: bytes
  ms_receiverTimestamp :: int
  ms_senderTimestamp :: int
  ms_contentTopic :: string
  ms_pubsubTopic :: string
  ms_payload :: "bytes option"
  ms_version :: int
  ms_should_expire :: bool

definition ms_key :: "MessageRow \<Rightarrow> int \<times> bytes" where
  "ms_key r = (ms_senderTimestamp r, ms_id r)"

definition string_bytes :: "string \<Rightarrow> bytes" where
  "string_bytes s = map of_char s"

definition computeDigest :: "(bytes \<Rightarrow> bytes) \<Rightarrow> envelope \<Rightarrow> bytes" where
  "computeDigest sha256 env = sha256 (string_bytes (ContentTopic env) @ message_bytes env)"

definition isXMTP :: "string \<Rightarrow> bool" where
  "isXMTP topic = prefix ''/xmtp/'' topic"

text \<open>What the driver reports for an insert: an integrity violation, or any other error.\<close>

datatype insert_outcome = Inserted | IntegrityViolation | InsertError go_error

text \<open>A timestamp of 2^63 or more does not fit the BIGINT column.\<close>

definition insertMessage :: "(bytes \<Rightarrow> bytes) \<Rightarrow> go_error option \<Rightarrow> envelope \<Rightarrow> int \<Rightarrow> MessageRow list \<Rightarrow>
    MessageRow list \<times> insert_outcome" where
  "insertMessage sha256 flt env receiverTimestamp rows =
     (case flt of Some e \<Rightarrow> (rows, InsertError e)
      | None \<Rightarrow>
          if 2 ^ 63 \<le> uint (TimestampNs env) then (rows, InsertError (Err ''bigint out of range''))
          else let row = \<lparr>ms_id = computeDigest sha256 env, ms_receiverTimestamp = receiverTimestamp,
                 ms_senderTimestamp = uint (TimestampNs env), ms_contentTopic = ContentTopic env, ms_pubsubTopic = [],
                 ms_payload = Message env, ms_version = 0, ms_should_expire = (\<not> isXMTP (ContentTopic env))\<rparr> in
               if (ms_key row, []) \<in> (\<lambda>r. (ms_key r, ms_pubsubTopic r)) ` set rows then (rows, IntegrityViolation)
               else (rows @ [row], Inserted))"

definition InsertMessage :: "(bytes \<Rightarrow> bytes) \<Rightarrow> go_error option \<Rightarrow> int \<Rightarrow> envelope \<Rightarrow> MessageRow list \<Rightarrow>
    MessageRow list \<times> bool \<times> go_error option" where
  "InsertMessage sha256 flt now env rows =
     (case insertMessage sha256 flt env now rows of
        (rows', Inserted) \<Rightarrow> (rows', True, None)
      | (rows', IntegrityViolation) \<Rightarrow> (rows', False, None)
      | (rows', InsertError e) \<Rightarrow> (rows', False, Some e))"

section \<open>Requests\<close>

record IndexCursor =
  ic_Digest :: "bytes option"
  ic_SenderTimeNs :: u64

text \<open>\<open>Some None\<close> is a cursor whose index is not set.\<close>

record MessagePaging =
  mp_Limit :: u32
  mp_Cursor :: "IndexCursor option option"
  mp_Direction :: SortDirection

record QueryRequest =
  qr_ContentTopics :: "string list"
  qr_StartTimeNs :: u64
  qr_EndTimeNs :: u64
  qr_PagingInfo :: "MessagePaging option"

definition new_PagingInfo :: MessagePaging where
  "new_PagingInfo = \<lparr>mp_Limit = 0, mp_Cursor = None, mp_Direction = SORT_UNSPECIFIED\<rparr>"

definition ms_maxPageSize :: int where
  "ms_maxPageSize = 100"

definition getDirection :: "MessagePaging option \<Rightarrow> SortDirection" where
  "getDirection pagingInfo =
     (case pagingInfo of None \<Rightarrow> SORT_DESCENDING
      | Some p \<Rightarrow> if mp_Direction p = SORT_UNSPECIFIED then SORT_DESCENDING else mp_Direction p)"

definition getPageSize :: "MessagePaging option \<Rightarrow> int" where
  "getPageSize pagingInfo =
     (case pagingInfo of None \<Rightarrow> ms_maxPageSize | Some p \<Rightarrow> if mp_Limit p = 0 then ms_maxPageSize else uint (mp_Limit p))"

fun minOf :: "int list \<Rightarrow> int" where
  "minOf [] = 0"
| "minOf (v # vs) = foldl (\<lambda>m i. if i < m then i else m) v vs"

section \<open>The SQL\<close>

datatype sql_cond =
    TopicIn "string list" | SenderGE u64 | SenderLE u64 | SenderGT u64 | SenderLT u64 | SenderEQ u64
  | IdGT bytes | IdLT bytes

record sql_select =
  sel_where :: "sql_cond list"
  sel_limit :: int
  sel_order :: SortDirection

datatype sql_query = Select sql_select | Union sql_select sql_select int SortDirection

fun cond_holds :: "sql_cond \<Rightarrow> MessageRow \<Rightarrow> bool" where
  "cond_holds (TopicIn ts) r = (ms_contentTopic r \<in> set ts)"
| "cond_holds (SenderGE t) r = (uint t \<le> ms_senderTimestamp r)"
| "cond_holds (SenderLE t) r = (ms_senderTimestamp r \<le> uint t)"
| "cond_holds (SenderGT t) r = (uint t < ms_senderTimestamp r)"
| "cond_holds (SenderLT t) r = (ms_senderTimestamp r < uint t)"
| "cond_holds (SenderEQ t) r = (ms_senderTimestamp r = uint t)"
| "cond_holds (IdGT d) r = (d < ms_id r)"
| "cond_holds (IdLT d) r = (ms_id r < d)"

definition order_rows :: "SortDirection \<Rightarrow> MessageRow list \<Rightarrow> MessageRow list" where
  "order_rows direction rows =
     (case direction of SORT_DESCENDING \<Rightarrow> rev (sort_key ms_key rows) | SORT_ASCENDING \<Rightarrow> sort_key ms_key rows | _ \<Rightarrow> rows)"

definition run_select :: "sql_select \<Rightarrow> MessageRow list \<Rightarrow> MessageRow list" where
  "run_select s rows = limit (sel_limit s) (order_rows (sel_order s) (filter (\<lambda>r. \<forall>c \<in> set (sel_where s). cond_holds c r) rows))"

fun run_query :: "sql_query \<Rightarrow> MessageRow list \<Rightarrow> MessageRow list" where
  "run_query (Select s) rows = run_select s rows"
| "run_query (Union s1 s2 n d) rows = limit n (order_rows d (remdups (run_select s1 rows @ run_select s2 rows)))"

definition Where :: "sql_cond list \<Rightarrow> sql_select \<Rightarrow> sql_select" where
  "Where cs s = s\<lparr>sel_where := sel_where s @ cs\<rparr>"

definition addLimit :: "u32 \<Rightarrow> sql_select \<Rightarrow> sql_select" where
  "addLimit pageSize s = s\<lparr>sel_limit := (if pageSize = 0 then ms_maxPageSize else uint pageSize)\<rparr>"

definition addSort :: "SortDirection \<Rightarrow> sql_select \<Rightarrow> sql_select" where
  "addSort direction s = s\<lparr>sel_order := direction\<rparr>"

definition buildSqlQueryWithoutCursor :: "QueryRequest \<Rightarrow> sql_select" where
  "buildSqlQueryWithoutCursor query =
     (let sb = \<lparr>sel_where = [], sel_limit = 0, sel_order = SORT_UNSPECIFIED\<rparr>;
          sb = (if qr_ContentTopics query \<noteq> [] then Where [TopicIn (qr_ContentTopics query)] sb else sb);
          sb = (if qr_StartTimeNs query \<noteq> 0 then Where [SenderGE (qr_StartTimeNs query)] sb else sb);
          sb = (if qr_EndTimeNs query \<noteq> 0 then Where [SenderLE (qr_EndTimeNs query)] sb else sb);
          pagingInfo = (case qr_PagingInfo query of None \<Rightarrow> new_PagingInfo | Some p \<Rightarrow> p)
      in addSort (getDirection (Some pagingInfo)) (addLimit (mp_Limit pagingInfo) sb))"

text \<open>The conditions of the two halves of the union.\<close>

definition later_cond :: "SortDirection \<Rightarrow> IndexCursor \<Rightarrow> sql_cond list" where
  "later_cond direction index =
     (case ic_Digest index of None \<Rightarrow> []
      | Some d \<Rightarrow>
          (case direction of
             SORT_ASCENDING \<Rightarrow> if ic_SenderTimeNs index \<noteq> 0 then [SenderGT (ic_SenderTimeNs index)] else [IdGT d]
           | SORT_DESCENDING \<Rightarrow> if ic_SenderTimeNs index \<noteq> 0 then [SenderLT (ic_SenderTimeNs index)] else [IdLT d]
           | _ \<Rightarrow> []))"

definition same_time_cond :: "SortDirection \<Rightarrow> IndexCursor \<Rightarrow> sql_cond list" where
  "same_time_cond direction index =
     (case ic_Digest index of None \<Rightarrow> []
      | Some d \<Rightarrow>
          (case direction of
             SORT_ASCENDING \<Rightarrow> if ic_SenderTimeNs index \<noteq> 0 then [SenderEQ (ic_SenderTimeNs index), IdGT d] else [IdGT d]
           | SORT_DESCENDING \<Rightarrow> if ic_SenderTimeNs index \<noteq> 0 then [SenderEQ (ic_SenderTimeNs index), IdLT d] else [IdLT d]
           | _ \<Rightarrow> []))"

definition buildSqlQuery :: "QueryRequest \<Rightarrow> sql_query result" where
  "buildSqlQuery query =
     (let pagingInfo = (case qr_PagingInfo query of None \<Rightarrow> new_PagingInfo | Some p \<Rightarrow> p);
          direction = getDirection (Some pagingInfo)
      in case mp_Cursor pagingInfo of
           None \<Rightarrow> Inr (Select (buildSqlQueryWithoutCursor query))
         | Some None \<Rightarrow> if direction \<in> {SORT_ASCENDING, SORT_DESCENDING} then Inl (Panic ''nil pointer dereference'')
             else Inr (Union (buildSqlQueryWithoutCursor query) (buildSqlQueryWithoutCursor query) (getPageSize (Some pagingInfo)) direction)
         | Some (Some index) \<Rightarrow>
             Inr (Union (Where (later_cond direction index) (buildSqlQueryWithoutCursor query))
               (Where (same_time_cond direction index) (buildSqlQueryWithoutCursor query))
               (getPageSize (Some pagingInfo)) direction))"

section \<open>The response\<close>

record QueryResponse =
  rs_Envelopes :: "envelope list"
  rs_PagingInfo :: MessagePaging

text \<open>Scanning a negative timestamp into a \<open>uint64\<close> fails.\<close>

fun rowsToEnvelopes :: "MessageRow list \<Rightarrow> envelope list result" where
  "rowsToEnvelopes [] = Inr []"
| "rowsToEnvelopes (r # rs) =
     (if ms_senderTimestamp r < 0 then Inl (Err ''sql: Scan error'')
      else case rowsToEnvelopes rs of
        Inl e \<Rightarrow> Inl e
      | Inr envs \<Rightarrow> Inr (\<lparr>ContentTopic = ms_contentTopic r, TimestampNs = go_uint64 (ms_senderTimestamp r),
                        Message = ms_payload r\<rparr> # envs))"

definition buildCursor :: "(bytes \<Rightarrow> bytes) \<Rightarrow> envelope \<Rightarrow> IndexCursor" where
  "buildCursor sha256 env = \<lparr>ic_Digest = Some (computeDigest sha256 env), ic_SenderTimeNs = TimestampNs env\<rparr>"

definition findNextCursor :: "(bytes \<Rightarrow> bytes) \<Rightarrow> envelope list \<Rightarrow> IndexCursor option option" where
  "findNextCursor sha256 envs = (if envs = [] then None else Some (Some (buildCursor sha256 (last envs))))"

definition buildPagingInfo :: "(bytes \<Rightarrow> bytes) \<Rightarrow> envelope list \<Rightarrow> MessagePaging option \<Rightarrow> MessagePaging" where
  "buildPagingInfo sha256 envs pagingInfo =
     (let currentPageSize = getPageSize pagingInfo; newPageSize = minOf [currentPageSize, ms_maxPageSize];
          direction = getDirection pagingInfo
      in if int (length envs) < currentPageSize then \<lparr>mp_Limit = 0, mp_Cursor = None, mp_Direction = direction\<rparr>
         else \<lparr>mp_Limit = go_uint32 newPageSize, mp_Cursor = findNextCursor sha256 envs, mp_Direction = direction\<rparr>)"

definition buildResponse :: "(bytes \<Rightarrow> bytes) \<Rightarrow> MessageRow list \<Rightarrow> QueryRequest \<Rightarrow> QueryResponse result" where
  "buildResponse sha256 rows query =
     (case rowsToEnvelopes rows of
        Inl e \<Rightarrow> Inl e
      | Inr envs \<Rightarrow> Inr \<lparr>rs_Envelopes = envs, rs_PagingInfo = buildPagingInfo sha256 envs (qr_PagingInfo query)\<rparr>)"

definition Store_Query :: "(bytes \<Rightarrow> bytes) \<Rightarrow> go_error option \<Rightarrow> QueryRequest \<Rightarrow> MessageRow list \<Rightarrow> QueryResponse result" where
  "Store_Query sha256 flt query rows =
     (case buildSqlQuery query of
        Inl e \<Rightarrow> Inl e
      | Inr q \<Rightarrow> (case flt of Some e \<Rightarrow> Inl e | None \<Rightarrow> buildResponse sha256 (run_query q rows) query))"

section \<open>The cleaner\<close>

record CleanerOptions =
  co_ActivePeriod :: int
  co_PassivePeriod :: int
  co_RetentionDays :: int
  co_BatchSize :: int

definition expired :: "CleanerOptions \<Rightarrow> int \<Rightarrow> MessageRow \<Rightarrow> bool" where
  "expired c now r \<longleftrightarrow> ms_receiverTimestamp r < now - co_RetentionDays c * 86400 * 1000000000 \<and> ms_should_expire r"

text \<open>\<open>locked\<close>: the rows other transactions hold, which \<open>SKIP LOCKED\<close> passes over.\<close>

definition deleteNonXMTPMessagesBatch :: "CleanerOptions \<Rightarrow> go_error option \<Rightarrow> go_error option \<Rightarrow> int \<Rightarrow> (MessageRow \<Rightarrow> bool) \<Rightarrow>
    MessageRow list \<Rightarrow> MessageRow list \<times> int \<times> go_error option" where
  "deleteNonXMTPMessagesBatch c f1 f2 now locked rows =
     (case f1 of Some e \<Rightarrow> (rows, 0, Some e)
      | None \<Rightarrow>
          if int (length (filter (expired c now) rows)) < co_BatchSize c then (rows, 0, None)
          else case f2 of Some e \<Rightarrow> (rows, 0, Some e)
             | None \<Rightarrow>
                 let msg = limit (co_BatchSize c) (filter (\<lambda>r. expired c now r \<and> \<not> locked r) rows)
                 in (filter (\<lambda>r. r \<notin> set msg) rows, int (length (filter (\<lambda>r. r \<in> set msg) rows)), None))"

text \<open>One turn of the cleaner's loop: the table afterwards, and how long it sleeps.\<close>

definition cleanerLoop_turn :: "CleanerOptions \<Rightarrow> go_error option \<Rightarrow> go_error option \<Rightarrow> int \<Rightarrow> (MessageRow \<Rightarrow> bool) \<Rightarrow>
    MessageRow list \<Rightarrow> MessageRow list \<times> int" where
  "cleanerLoop_turn c f1 f2 now locked rows =
     (case deleteNonXMTPMessagesBatch c f1 f2 now locked rows of
        (rows', count, _) \<Rightarrow> (rows', if co_BatchSize c - 10 \<le> count then co_ActivePeriod c else co_PassivePeriod c))"

section \<open>Pages\<close>

lemma sorted_wrt_unique:
  assumes "irreflp lt" "transp lt" and "sorted_wrt lt xs" "sorted_wrt lt ys" "set xs = set ys"
  shows "xs = ys"
  using assms(3-5)
proof (induction xs arbitrary: ys)
  case (Cons x xs)
  then obtain y ys' where ys: "ys = y # ys'" by (cases ys) auto
  have no: "\<not> (lt x y \<and> lt y x)" using assms(1,2) by (meson irreflpD transpD)
  have irr: "\<not> lt z z" for z using assms(1) by (meson irreflpD)
  have "x = y" using Cons.prems ys no by auto
  moreover have "x \<notin> set xs" "y \<notin> set ys'" using Cons.prems ys irr by auto
  then have "set xs = set ys'" using Cons.prems(3) ys \<open>x = y\<close> by auto
  ultimately show ?case using Cons.IH [of ys'] Cons.prems ys by simp
qed simp

text \<open>The order of a direction on rows.\<close>

definition before :: "SortDirection \<Rightarrow> MessageRow \<Rightarrow> MessageRow \<Rightarrow> bool" where
  "before direction x y \<longleftrightarrow> (if direction = SORT_ASCENDING then ms_key x < ms_key y else ms_key y < ms_key x)"

lemma before_order: "irreflp (before d)" "transp (before d)"
  by (auto simp: before_def irreflp_def transp_def split: if_splits)

abbreviation directed :: "SortDirection \<Rightarrow> bool" where
  "directed d \<equiv> d = SORT_ASCENDING \<or> d = SORT_DESCENDING"

lemma set_order_rows [simp]: "set (order_rows d xs) = set xs"
  by (simp add: order_rows_def split: SortDirection.split)

lemma length_order_rows [simp]: "length (order_rows d xs) = length xs"
  by (simp add: order_rows_def split: SortDirection.split)

lemma filter_order_rows: "filter P (order_rows d xs) = order_rows d (filter P xs)"
  by (simp add: order_rows_def filter_sort rev_filter [symmetric] split: SortDirection.split)

lemma order_rows_sorted:
  assumes "directed d" and "distinct (map ms_key xs)" shows "sorted_wrt (before d) (order_rows d xs)"
proof -
  have "sorted (map ms_key (sort_key ms_key xs))" "distinct (map ms_key (sort_key ms_key xs))"
    using assms(2) by (simp_all add: distinct_map)
  then have "sorted_wrt (<) (map ms_key (sort_key ms_key xs))" by (simp add: strict_sorted_iff)
  then show ?thesis using assms(1)
    by (auto simp: order_rows_def before_def [abs_def] sorted_wrt_map sorted_wrt_rev)
qed

lemma order_rows_eq:
  assumes "directed d" and "distinct (map ms_key xs)" and "sorted_wrt (before d) ys" and "set ys = set xs"
  shows "order_rows d xs = ys"
  using sorted_wrt_unique [OF before_order order_rows_sorted [OF assms(1,2)] assms(3)] assms(4) by simp

definition matching :: "QueryRequest \<Rightarrow> MessageRow \<Rightarrow> bool" where
  "matching query r \<longleftrightarrow> (qr_ContentTopics query = [] \<or> ms_contentTopic r \<in> set (qr_ContentTopics query)) \<and>
     (qr_StartTimeNs query = 0 \<or> uint (qr_StartTimeNs query) \<le> ms_senderTimestamp r) \<and>
     (qr_EndTimeNs query = 0 \<or> ms_senderTimestamp r \<le> uint (qr_EndTimeNs query))"

lemma buildSqlQueryWithoutCursor_simps:
  "(\<forall>c \<in> set (sel_where (buildSqlQueryWithoutCursor q)). cond_holds c r) \<longleftrightarrow> matching q r"
  "sel_limit (buildSqlQueryWithoutCursor q) = getPageSize (qr_PagingInfo q)"
  "sel_order (buildSqlQueryWithoutCursor q) = getDirection (qr_PagingInfo q)"
  by (auto simp: buildSqlQueryWithoutCursor_def matching_def Where_def addSort_def addLimit_def getPageSize_def getDirection_def
      new_PagingInfo_def Let_def split: option.split)

definition matches :: "QueryRequest \<Rightarrow> MessageRow list \<Rightarrow> MessageRow list" where
  "matches query rows = order_rows (getDirection (qr_PagingInfo query)) (filter (matching query) rows)"

lemma matches_sorted:
  assumes "distinct (map ms_key rows)" and "directed (getDirection (qr_PagingInfo q))"
  shows "distinct (map ms_key (matches q rows))" and "sorted_wrt (before (getDirection (qr_PagingInfo q))) (matches q rows)"
proof -
  have f: "distinct (map ms_key (filter (matching q) rows))" using assms(1) by (rule distinct_map_filter)
  from order_rows_sorted [OF assms(2) f]
  show "sorted_wrt (before (getDirection (qr_PagingInfo q))) (matches q rows)" by (simp add: matches_def)
  show "distinct (map ms_key (matches q rows))" using f assms(2) by (auto simp: matches_def order_rows_def distinct_map)
qed

lemma run_select_Where:
  "run_select (Where cs (buildSqlQueryWithoutCursor q)) rows =
     limit (getPageSize (qr_PagingInfo q)) (filter (\<lambda>r. \<forall>c \<in> set cs. cond_holds c r) (matches q rows))"
proof -
  have "filter (\<lambda>r. \<forall>c \<in> set (sel_where (Where cs (buildSqlQueryWithoutCursor q))). cond_holds c r) rows =
      filter (\<lambda>r. \<forall>c \<in> set cs. cond_holds c r) (filter (matching q) rows)"
    using buildSqlQueryWithoutCursor_simps(1) [of q] by (auto simp: Where_def intro!: filter_cong)
  then show ?thesis
    using buildSqlQueryWithoutCursor_simps(2,3) [of q]
    by (simp add: run_select_def matches_def filter_order_rows) (simp add: Where_def)
qed

lemma set_run_select: "set (run_select s rows) \<subseteq> {r \<in> set rows. \<forall>c \<in> set (sel_where s). cond_holds c r}"
  by (auto simp: run_select_def limit_def dest!: in_set_takeD)

lemma set_run_query:
  "set (run_query (Union a b n d) rows) \<subseteq> set (run_select a rows) \<union> set (run_select b rows)"
  by (auto simp: limit_def dest!: in_set_takeD)

text \<open>A row beyond a cursor: the lexicographic comparison with its timestamp and digest.\<close>

definition beyond :: "SortDirection \<Rightarrow> int \<times> bytes \<Rightarrow> MessageRow \<Rightarrow> bool" where
  "beyond direction c r \<longleftrightarrow> (if direction = SORT_ASCENDING then c < ms_key r else ms_key r < c)"

lemma sorted_split:
  assumes "sorted_wrt lt xs" and "\<And>x y. G x \<Longrightarrow> E y \<Longrightarrow> \<not> lt x y"
    and "\<And>x. \<not> (G x \<and> E x)"
  shows "filter (\<lambda>x. E x \<or> G x) xs = filter E xs @ filter G xs"
  using assms(1)
proof (induction xs)
  case (Cons x xs)
  have "filter E xs = []" if "G x" using Cons.prems assms(2) [OF that] by (auto simp: filter_empty_conv)
  with Cons assms(3) [of x] show ?case by auto
qed simp

lemma union_is_page:
  assumes d: "directed d" and M: "distinct (map ms_key M)" "sorted_wrt (before d) M"
    and GE: "\<And>x y. G x \<Longrightarrow> E y \<Longrightarrow> \<not> before d x y" "\<And>x. \<not> (G x \<and> E x)"
  shows "limit n (order_rows d (remdups (limit n (filter G M) @ limit n (filter E M)))) = limit n (filter (\<lambda>x. E x \<or> G x) M)"
proof -
  let ?xs = "limit n (filter E M) @ limit n (filter G M)"
  have all: "filter (\<lambda>x. E x \<or> G x) M = filter E M @ filter G M" by (rule sorted_split [OF M(2) GE])
  have "sorted_wrt (before d) (filter (\<lambda>x. E x \<or> G x) M)" by (rule sorted_wrt_filter [OF M(2)])
  then have "sorted_wrt (before d) (filter E M @ filter G M)" by (simp only: all)
  then have sorted: "sorted_wrt (before d) ?xs"
    by (auto simp: limit_def sorted_wrt_append sorted_wrt_take dest!: in_set_takeD)
  have sub: "set ?xs \<subseteq> set M" by (auto simp: limit_def dest!: in_set_takeD)
  then have "distinct (map ms_key (remdups (limit n (filter G M) @ limit n (filter E M))))"
    using M(1) by (auto simp: distinct_map intro: inj_on_subset)
  from order_rows_eq [OF d this sorted]
  have "order_rows d (remdups (limit n (filter G M) @ limit n (filter E M))) = ?xs" by auto
  then show ?thesis unfolding all by (simp add: limit_def min_def)
qed

text \<open>The page of a request with a whole cursor.\<close>

lemma cursor_page:
  assumes rows: "distinct (map ms_key rows)" and q: "qr_PagingInfo q = Some p" and d: "directed (getDirection (Some p))"
    and c: "mp_Cursor p = Some (Some \<lparr>ic_Digest = Some h, ic_SenderTimeNs = t\<rparr>)" and t: "t \<noteq> 0"
  shows "\<exists>s. buildSqlQuery q = Inr s \<and> run_query s rows =
    limit (getPageSize (Some p)) (filter (beyond (getDirection (Some p)) (uint t, h)) (matches q rows))"
proof -
  let ?d = "getDirection (Some p)" and ?M = "matches q rows" and ?i = "\<lparr>ic_Digest = Some h, ic_SenderTimeNs = t\<rparr>"
  let ?G = "\<lambda>r. \<forall>c \<in> set (later_cond ?d ?i). cond_holds c r" and ?E = "\<lambda>r. \<forall>c \<in> set (same_time_cond ?d ?i). cond_holds c r"
  have M: "distinct (map ms_key ?M)" "sorted_wrt (before ?d) ?M" using matches_sorted [OF rows, of q] d q by simp_all
  have GE: "(?E r \<or> ?G r) = beyond ?d (uint t, h) r" for r
    using d t by (auto simp: later_cond_def same_time_cond_def beyond_def ms_key_def less_prod_def)
  have "limit n (order_rows ?d (remdups (limit n (filter ?G ?M) @ limit n (filter ?E ?M)))) = limit n (filter (\<lambda>x. ?E x \<or> ?G x) ?M)" for n
    by (rule union_is_page [OF d M]) (use d t in \<open>auto simp: later_cond_def same_time_cond_def before_def ms_key_def less_prod_def\<close>)
  then show ?thesis unfolding GE using q c t
    by (auto simp: buildSqlQuery_def run_select_Where Let_def)
qed

section \<open>Well-formed tables\<close>

definition envelope_of :: "MessageRow \<Rightarrow> envelope" where
  "envelope_of r = \<lparr>ContentTopic = ms_contentTopic r, TimestampNs = go_uint64 (ms_senderTimestamp r), Message = ms_payload r\<rparr>"

definition row_ok :: "(bytes \<Rightarrow> bytes) \<Rightarrow> MessageRow \<Rightarrow> bool" where
  "row_ok sha256 r \<longleftrightarrow> 0 \<le> ms_senderTimestamp r \<and> ms_senderTimestamp r < 2 ^ 63 \<and>
     ms_id r = computeDigest sha256 (envelope_of r) \<and> ms_pubsubTopic r = [] \<and> ms_should_expire r = (\<not> isXMTP (ms_contentTopic r))"

definition messages_ok :: "(bytes \<Rightarrow> bytes) \<Rightarrow> MessageRow list \<Rightarrow> bool" where
  "messages_ok sha256 rows \<longleftrightarrow> distinct (map ms_key rows) \<and> (\<forall>r \<in> set rows. row_ok sha256 r)"

lemma computeDigest_cong:
  "ContentTopic e = ContentTopic e' \<Longrightarrow> Message e = Message e' \<Longrightarrow> computeDigest sha256 e = computeDigest sha256 e'"
  by (simp add: computeDigest_def message_bytes_def)

lemma InsertMessage_ok:
  assumes "messages_ok sha256 rows" shows "messages_ok sha256 (fst (InsertMessage sha256 flt now env rows))"
proof -
  have "computeDigest sha256 (envelope_of r) = computeDigest sha256 env"
    if "ms_contentTopic r = ContentTopic env" "ms_payload r = Message env" for r
    using that by (intro computeDigest_cong) (simp_all add: envelope_of_def)
  with assms show ?thesis
    by (cases flt) (force simp: messages_ok_def row_ok_def InsertMessage_def insertMessage_def Let_def image_iff)+
qed

lemma cleaner_ok: "messages_ok sha256 rows \<Longrightarrow> messages_ok sha256 (fst (deleteNonXMTPMessagesBatch c f1 f2 now locked rows))"
  by (auto simp: messages_ok_def deleteNonXMTPMessagesBatch_def Let_def distinct_map_filter split: option.split)

lemma rowsToEnvelopes_ok: "\<forall>r \<in> set rows. row_ok sha256 r \<Longrightarrow> rowsToEnvelopes rows = Inr (map envelope_of rows)"
  by (induction rows) (auto simp: row_ok_def envelope_of_def not_less)

section \<open>Following the cursor\<close>

text \<open>What a client does that wants everything: ask again with the returned paging info while it has a cursor.\<close>

fun read_all :: "(bytes \<Rightarrow> bytes) \<Rightarrow> nat \<Rightarrow> QueryRequest \<Rightarrow> MessageRow list \<Rightarrow> envelope list result" where
  "read_all sha256 0 query rows = Inr []"
| "read_all sha256 (Suc n) query rows =
     (case Store_Query sha256 None query rows of
        Inl e \<Rightarrow> Inl e
      | Inr resp \<Rightarrow>
          if mp_Cursor (rs_PagingInfo resp) = None then Inr (rs_Envelopes resp)
          else (case read_all sha256 n (query\<lparr>qr_PagingInfo := Some (rs_PagingInfo resp)\<rparr>) rows of
                  Inl e \<Rightarrow> Inl e
                | Inr envs \<Rightarrow> Inr (rs_Envelopes resp @ envs)))"

lemma getPageSize_pos: "1 \<le> getPageSize p"
proof (cases p)
  case (Some i)
  have "0 < uint (mp_Limit i)" if "mp_Limit i \<noteq> 0" using that uint_0_iff [of "mp_Limit i"] uint_ge_0 [of "mp_Limit i"] by linarith
  with Some show ?thesis by (auto simp: getPageSize_def ms_maxPageSize_def)
qed (simp add: getPageSize_def ms_maxPageSize_def)

lemma beyond_last:
  assumes "sorted_wrt (before d) (pre @ rest)" and "pre \<noteq> []" and "directed d"
  shows "filter (beyond d (ms_key (last pre))) (pre @ rest) = rest"
proof -
  obtain xs x where pre: "pre = xs @ [x]" using assms(2) by (cases pre rule: rev_cases) auto
  with assms(1,3) have "\<forall>y \<in> set pre. \<not> beyond d (ms_key x) y" "\<forall>y \<in> set rest. beyond d (ms_key x) y"
    by (auto simp: sorted_wrt_append before_def beyond_def dest: less_imp_not_less split: if_splits)
  with pre show ?thesis by (simp add: filter_empty_conv filter_id_conv)
qed

text \<open>The state of a client that has read \<open>pre\<close> of the matching messages.\<close>

definition read_upto :: "(bytes \<Rightarrow> bytes) \<Rightarrow> QueryRequest \<Rightarrow> MessageRow list \<Rightarrow> bool" where
  "read_upto sha256 query pre \<longleftrightarrow>
     (case (case qr_PagingInfo query of None \<Rightarrow> None | Some p \<Rightarrow> mp_Cursor p) of
        None \<Rightarrow> pre = []
      | Some c \<Rightarrow> pre \<noteq> [] \<and> c = Some (buildCursor sha256 (envelope_of (last pre))))"

lemma Store_Query_reads:
  assumes ok: "messages_ok sha256 rows" and d: "directed (getDirection (qr_PagingInfo q))"
    and M: "matches q rows = pre @ rest" and upto: "read_upto sha256 q pre" and pos: "\<forall>r \<in> set pre. 0 < ms_senderTimestamp r"
  shows "Store_Query sha256 None q rows =
    buildResponse sha256 (limit (getPageSize (qr_PagingInfo q)) rest) q"
proof -
  have dist: "distinct (map ms_key rows)" using ok by (simp add: messages_ok_def)
  have sorted: "sorted_wrt (before (getDirection (qr_PagingInfo q))) (pre @ rest)" using matches_sorted(2) [OF dist d] M by simp
  have "set (matches q rows) \<subseteq> set rows" by (auto simp: matches_def)
  then have sub: "set pre \<subseteq> set rows" using M by simp
  have "\<exists>s. buildSqlQuery q = Inr s \<and> run_query s rows = limit (getPageSize (qr_PagingInfo q)) rest"
  proof (cases "case qr_PagingInfo q of None \<Rightarrow> None | Some p \<Rightarrow> mp_Cursor p")
    case None
    then have "buildSqlQuery q = Inr (Select (buildSqlQueryWithoutCursor q))"
      by (auto simp: buildSqlQuery_def new_PagingInfo_def Let_def split: option.splits)
    moreover have "run_select (buildSqlQueryWithoutCursor q) rows = limit (getPageSize (qr_PagingInfo q)) (matches q rows)"
      using run_select_Where [of "[]" q rows] by (simp add: Where_def)
    ultimately show ?thesis using None upto M by (auto simp: read_upto_def)
  next
    case (Some c)
    then obtain p where p: "qr_PagingInfo q = Some p" "mp_Cursor p = Some c" by (auto split: option.splits)
    have c: "pre \<noteq> []" "c = Some (buildCursor sha256 (envelope_of (last pre)))" using upto Some by (auto simp: read_upto_def)
    let ?r = "last pre"
    have "?r \<in> set pre" using c(1) by simp
    then have r: "row_ok sha256 ?r" "0 < ms_senderTimestamp ?r"
      using ok sub pos by (auto simp: messages_ok_def)
    then have u: "uint (go_uint64 (ms_senderTimestamp ?r)) = ms_senderTimestamp ?r" by (intro uint_go_uint64) (simp_all add: row_ok_def)
    then have t: "go_uint64 (ms_senderTimestamp ?r) \<noteq> 0" using r(2) by auto
    have "computeDigest sha256 (envelope_of ?r) = ms_id ?r" using r(1) by (simp add: row_ok_def)
    then have cur: "mp_Cursor p = Some (Some \<lparr>ic_Digest = Some (ms_id ?r), ic_SenderTimeNs = go_uint64 (ms_senderTimestamp ?r)\<rparr>)"
      using p(2) c(2) by (simp add: buildCursor_def) (simp add: envelope_of_def)
    from cursor_page [OF dist p(1) _ cur t] d p(1) obtain s where s: "buildSqlQuery q = Inr s"
      "run_query s rows = limit (getPageSize (Some p)) (filter (beyond (getDirection (Some p)) (ms_key ?r)) (matches q rows))"
      by (auto simp: u ms_key_def)
    then show ?thesis using beyond_last [OF sorted c(1) d] M p(1) by simp
  qed
  then show ?thesis by (auto simp: Store_Query_def)
qed

lemma read_all_complete:
  assumes ok: "messages_ok sha256 rows"
  shows "\<forall>r \<in> set rows. matching q r \<longrightarrow> 0 < ms_senderTimestamp r \<Longrightarrow> directed (getDirection (qr_PagingInfo q)) \<Longrightarrow>
    matches q rows = pre @ rest \<Longrightarrow> read_upto sha256 q pre \<Longrightarrow> length rest < fuel \<Longrightarrow>
    read_all sha256 fuel q rows = Inr (map envelope_of rest)"
proof (induction fuel arbitrary: q pre rest)
  case (Suc fuel)
  let ?n = "getPageSize (qr_PagingInfo q)" and ?page = "limit (getPageSize (qr_PagingInfo q)) rest"
  have n: "1 \<le> ?n" by (rule getPageSize_pos)
  have "set (matches q rows) = {r \<in> set rows. matching q r}" by (auto simp: matches_def)
  then have sub: "\<forall>r \<in> set pre \<union> set rest. r \<in> set rows \<and> 0 < ms_senderTimestamp r" using Suc.prems(1,3) by auto
  then have pos_pre: "\<forall>r \<in> set pre. 0 < ms_senderTimestamp r" by simp
  have "\<forall>r \<in> set ?page. row_ok sha256 r" using sub ok by (auto simp: limit_def messages_ok_def dest!: in_set_takeD)
  from rowsToEnvelopes_ok [OF this]
  have resp: "Store_Query sha256 None q rows = Inr \<lparr>rs_Envelopes = map envelope_of ?page,
      rs_PagingInfo = buildPagingInfo sha256 (map envelope_of ?page) (qr_PagingInfo q)\<rparr>"
    by (simp add: Store_Query_reads [OF ok Suc.prems(2-4) pos_pre] buildResponse_def)
  show ?case
  proof (cases "int (length ?page) < ?n")
    case True
    then have "?page = rest" by (auto simp: limit_def min_def split: if_splits)
    with True resp show ?thesis by (simp add: buildPagingInfo_def Let_def)
  next
    case False
    then have ne: "?page \<noteq> []" using n by auto
    let ?p = "buildPagingInfo sha256 (map envelope_of ?page) (qr_PagingInfo q)"
    let ?q = "q\<lparr>qr_PagingInfo := Some ?p\<rparr>" and ?rest = "drop (nat ?n) rest"
    have p: "mp_Cursor ?p = Some (Some (buildCursor sha256 (envelope_of (last ?page))))" "mp_Direction ?p = getDirection (qr_PagingInfo q)"
      using False ne by (simp_all add: buildPagingInfo_def findNextCursor_def Let_def last_map)
    have dir: "getDirection (Some ?p) = getDirection (qr_PagingInfo q)" using p(2) Suc.prems(2) by (auto simp: getDirection_def)
    have split: "rest = ?page @ ?rest" by (simp add: limit_def)
    have "matching ?q = matching q" by (simp add: matching_def fun_eq_iff)
    moreover from this have "matches ?q rows = (pre @ ?page) @ ?rest"
      using Suc.prems(3) dir split by (simp add: matches_def)
    moreover have "read_upto sha256 ?q (pre @ ?page)" using p(1) ne by (simp add: read_upto_def)
    moreover have "length ?rest < fuel" using Suc.prems(5) n ne by (cases rest) (auto simp: limit_def)
    ultimately have "read_all sha256 fuel ?q rows = Inr (map envelope_of ?rest)"
      using Suc.IH [of ?q "pre @ ?page" ?rest] dir Suc.prems(1,2) by simp
    moreover have "map envelope_of rest = map envelope_of ?page @ map envelope_of ?rest" using split by (metis map_append)
    ultimately show ?thesis using resp p(1) by simp
  qed
qed simp


definition test_message :: "int \<Rightarrow> byte \<Rightarrow> MessageRow" where
  "test_message t b = \<lparr>ms_id = [b], ms_receiverTimestamp = 0, ms_senderTimestamp = t, ms_contentTopic = [], ms_pubsubTopic = [],
     ms_payload = Some [b], ms_version = 0, ms_should_expire = True\<rparr>"

definition test_query :: "u32 \<Rightarrow> QueryRequest" where
  "test_query n = \<lparr>qr_ContentTopics = [], qr_StartTimeNs = 0, qr_EndTimeNs = 0,
     qr_PagingInfo = Some \<lparr>mp_Limit = n, mp_Cursor = None, mp_Direction = SORT_ASCENDING\<rparr>\<rparr>"

lemma test_messages_ok: "messages_ok id [test_message 2 5, test_message 2 3, test_message 1 9]" "messages_ok id [test_message 0 5, test_message 10 3]"
  by (simp_all add: messages_ok_def row_ok_def test_message_def envelope_of_def computeDigest_def string_bytes_def message_bytes_def
      isXMTP_def ms_key_def)




section \<open>What the cleaner spares\<close>

lemma cleaner_spares_xmtp:
  assumes "messages_ok sha256 rows" and "r \<in> set rows" and "isXMTP (ms_contentTopic r) \<or> \<not> expired c now r"
  shows "r \<in> set (fst (deleteNonXMTPMessagesBatch c f1 f2 now locked rows))"
proof -
  have "\<not> expired c now r" using assms by (auto simp: messages_ok_def row_ok_def expired_def)
  with assms(2) show ?thesis
    by (auto simp: deleteNonXMTPMessagesBatch_def limit_def Let_def split: option.split dest!: in_set_takeD)
qed

text \<open>Fewer expired messages than a batch are never deleted, however old.\<close>

lemma small_backlog_never_cleaned:
  "int (length (filter (expired c now) rows)) < co_BatchSize c \<Longrightarrow> fst (cleanerLoop_turn c f1 f2 now locked rows) = rows"
  by (simp add: cleanerLoop_turn_def deleteNonXMTPMessagesBatch_def split: option.split)

text \<open>Inserting an envelope twice stores it once, unless its sender time changed.\<close>

lemma InsertMessage_once:
  assumes "InsertMessage sha256 None now env rows = (rows', True, None)"
  shows "InsertMessage sha256 None now' env rows' = (rows', False, None)"
  using assms by (auto simp: InsertMessage_def insertMessage_def Let_def ms_key_def split: if_splits)

end
