(* ===== verification/Message_Api.thy ===== *)
theory Message_Api
  imports Message_Store Mls_Service
begin

text \<open>
  The older message API (pkg/api/message/v1/service.go with pkg/envelopes/helpers.go) and the migration
  API (pkg/migration/api/v1/service.go). Publishing is closed; relayed messages reach the subscription
  dispatcher, queries the message store.

  A server stream is run by a list of events: what its select loop meets next, and the dispatches the
  rest of the node does in between, which share the dispatcher. An event whose channel is not ready has
  no effect. The header and the logs of a stream are not modelled. A stream whose send fails goes on.
\<close>

section \<open>Messages from the relay\<close>

record WakuMessage =
  wk_ContentTopic :: string
  wk_Timestamp :: int
  wk_Payload :: "bytes option"

definition fromWakuTimestamp :: "int \<Rightarrow> u64" where
  "fromWakuTimestamp ts = (if ts < 0 then 0 else go_uint64 ts)"

definition BuildEnvelope :: "WakuMessage \<Rightarrow> envelope" where
  "BuildEnvelope msg =
     \<lparr>ContentTopic = wk_ContentTopic msg, TimestampNs = fromWakuTimestamp (wk_Timestamp msg), Message = wk_Payload msg\<rparr>"

definition HandleIncomingWakuRelayMessage :: "WakuMessage \<Rightarrow> dispatcher \<Rightarrow> dispatcher result" where
  "HandleIncomingWakuRelayMessage msg d = HandleEnvelope (Some (BuildEnvelope msg)) d"

definition message_Publish :: "unit result" where
  "message_Publish = Inl (Status Unavailable
     ''publishing to XMTP V2 is no longer available. Please upgrade your client to XMTP V3. Read more here: https://docs.xmtp.org/upgrade-from-legacy-V2'')"

section \<open>Queries\<close>

definition maxQueriesPerBatch :: nat where "maxQueriesPerBatch = 50"
definition maxRowsPerQuery :: int where "maxRowsPerQuery = 100"
definition maxUserPreferencesRowsPerQuery :: int where "maxUserPreferencesRowsPerQuery = 500"

definition getMaxRows :: "string list \<Rightarrow> int" where
  "getMaxRows contentTopics =
     (case contentTopics of [t] \<Rightarrow> if IsUserPreferences t then maxUserPreferencesRowsPerQuery else maxRowsPerQuery
      | _ \<Rightarrow> maxRowsPerQuery)"

definition message_Query :: "(bytes \<Rightarrow> bytes) \<Rightarrow> go_error option \<Rightarrow> QueryRequest \<Rightarrow> MessageRow list \<Rightarrow> QueryResponse result" where
  "message_Query sha256 flt req rows =
     (if qr_ContentTopics req = [] then Inl (Status InvalidArgument ''content topics required'')
      else case qr_PagingInfo req of
        None \<Rightarrow> Store_Query sha256 flt req rows
      | Some p \<Rightarrow>
          if getMaxRows (qr_ContentTopics req) < uint (mp_Limit p)
          then Inl (Status InvalidArgument ''cannot exceed 100 rows per query'')
          else Store_Query sha256 flt req rows)"

text \<open>\<open>flt i\<close> is the driver error of query \<open>i\<close>; a nil request of the batch is \<open>None\<close>.\<close>

fun batch_query_loop :: "(bytes \<Rightarrow> bytes) \<Rightarrow> (nat \<Rightarrow> go_error option) \<Rightarrow> nat \<Rightarrow> QueryRequest option list \<Rightarrow> MessageRow list \<Rightarrow>
    QueryResponse list \<Rightarrow> QueryResponse list result" where
  "batch_query_loop sha256 flt i [] rows responses = Inr responses"
| "batch_query_loop sha256 flt i (None # qs) rows responses = Inl (Panic ''nil pointer dereference'')"
| "batch_query_loop sha256 flt i (Some q # qs) rows responses =
     (case message_Query sha256 (flt i) q rows of
        Inl (Panic p) \<Rightarrow> Inl (Panic p)
      | Inl e \<Rightarrow> Inl (Status Internal (error_text e))
      | Inr resp \<Rightarrow> batch_query_loop sha256 flt (Suc i) qs rows (responses @ [resp]))"

definition BatchQuery :: "(bytes \<Rightarrow> bytes) \<Rightarrow> (nat \<Rightarrow> go_error option) \<Rightarrow> QueryRequest option list \<Rightarrow> MessageRow list \<Rightarrow>
    QueryResponse list result" where
  "BatchQuery sha256 flt requests rows =
     (if maxQueriesPerBatch < length requests
      then Inl (Status InvalidArgument ''cannot exceed 50 requests in single batch'')
      else batch_query_loop sha256 flt 0 requests rows [])"

section \<open>Subscribe\<close>

datatype stream_event =
    TakeMessage "go_error option"
  | StreamDone | ServiceDone
  | Dispatched envelope

record message_stream =
  st_dispatcher :: dispatcher
  st_sent :: "envelope list"
  st_open :: bool

definition send_env :: "go_error option \<Rightarrow> envelope \<Rightarrow> envelope list \<Rightarrow> envelope list" where
  "send_env flt e out = (case flt of None \<Rightarrow> out @ [e] | Some _ \<Rightarrow> out)"

definition subscribe_step :: "nat \<Rightarrow> stream_event \<Rightarrow> message_stream \<Rightarrow> message_stream result" where
  "subscribe_step sub ev st =
     (case ev of
        TakeMessage flt \<Rightarrow>
          (case receive sub (st_dispatcher st) of
             (Got e, d) \<Rightarrow> Inr (st\<lparr>st_dispatcher := d, st_sent := send_env flt e (st_sent st)\<rparr>)
           | (Closed, d) \<Rightarrow> Inr (st\<lparr>st_dispatcher := Unsubscribe sub d, st_open := False\<rparr>)
           | (Blocked, d) \<Rightarrow> Inr st)
      | Dispatched e \<Rightarrow> map_sum id (\<lambda>d. st\<lparr>st_dispatcher := d\<rparr>) (HandleEnvelope (Some e) (st_dispatcher st))
      | _ \<Rightarrow> Inr (st\<lparr>st_dispatcher := Unsubscribe sub (st_dispatcher st), st_open := False\<rparr>))"

fun subscribe_loop :: "nat \<Rightarrow> stream_event list \<Rightarrow> message_stream \<Rightarrow> message_stream result" where
  "subscribe_loop sub [] st = Inr st"
| "subscribe_loop sub (ev # evs) st =
     (if \<not> st_open st then Inr st
      else case subscribe_step sub ev st of Inl p \<Rightarrow> Inl p | Inr st' \<Rightarrow> subscribe_loop sub evs st')"

definition message_Subscribe :: "string list \<Rightarrow> stream_event list \<Rightarrow> dispatcher \<Rightarrow> message_stream result" where
  "message_Subscribe contentTopics evs d =
     (case Subscribe (set contentTopics) d of
        (sub, d') \<Rightarrow> subscribe_loop sub evs \<lparr>st_dispatcher = d', st_sent = [], st_open = True\<rparr>)"

definition SubscribeAll :: "stream_event list \<Rightarrow> dispatcher \<Rightarrow> message_stream result" where
  "SubscribeAll evs d = message_Subscribe [WILDCARD_TOPIC] evs d"

section \<open>Subscribe2\<close>

text \<open>
  The client replaces its topics by sending another request. \<open>RequestsClosed\<close>: the reader hit an error
  or the end of the client's stream and closed the request channel, from which the select loop then
  receives nil at once, again and again.
\<close>

datatype stream2_event = Request "string list" | RequestsClosed | Stream stream_event

record message_stream2 =
  s2_stream :: message_stream
  s2_current :: "nat option"

definition subscribe2_step :: "stream2_event \<Rightarrow> message_stream2 \<Rightarrow> message_stream2 result" where
  "subscribe2_step ev st =
     (let s = s2_stream st in
      case ev of
        Request contentTopics \<Rightarrow>
          (let d = (case s2_current st of None \<Rightarrow> st_dispatcher s | Some p \<Rightarrow> Unsubscribe p (st_dispatcher s))
           in case Subscribe (set contentTopics) d of
                (p, d') \<Rightarrow> Inr (st\<lparr>s2_stream := s\<lparr>st_dispatcher := d'\<rparr>, s2_current := Some p\<rparr>))
      | RequestsClosed \<Rightarrow> Inr st
      | Stream e \<Rightarrow>
          (case s2_current st of
             Some p \<Rightarrow> map_sum id (\<lambda>s'. st\<lparr>s2_stream := s'\<rparr>) (subscribe_step p e s)
           | None \<Rightarrow>
               (case e of
                  TakeMessage _ \<Rightarrow> Inr st
                | Dispatched env \<Rightarrow> map_sum id (\<lambda>d. st\<lparr>s2_stream := s\<lparr>st_dispatcher := d\<rparr>\<rparr>) (HandleEnvelope (Some env) (st_dispatcher s))
                | _ \<Rightarrow> Inr (st\<lparr>s2_stream := s\<lparr>st_open := False\<rparr>\<rparr>))))"

fun subscribe2_loop :: "stream2_event list \<Rightarrow> message_stream2 \<Rightarrow> message_stream2 result" where
  "subscribe2_loop [] st = Inr st"
| "subscribe2_loop (ev # evs) st =
     (if \<not> st_open (s2_stream st) then Inr st
      else case subscribe2_step ev st of Inl p \<Rightarrow> Inl p | Inr st' \<Rightarrow> subscribe2_loop evs st')"

definition Subscribe2 :: "stream2_event list \<Rightarrow> dispatcher \<Rightarrow> message_stream2 result" where
  "Subscribe2 evs d =
     subscribe2_loop evs \<lparr>s2_stream = \<lparr>st_dispatcher = d, st_sent = [], st_open = True\<rparr>, s2_current = None\<rparr>"

section \<open>The migration API\<close>

definition FetchD14NCutover :: "u64 \<Rightarrow> u64" where
  "FetchD14NCutover d14nCutoverNs = d14nCutoverNs"

text \<open>What the migration API announces is when the write handlers stop, unless it announces 0.\<close>

lemma announced_cutover_is_enforced:
  assumes "CutoverNs (cutoverChecker s) = FetchD14NCutover ns" and "ns \<noteq> 0" and "\<not> disablePublish s"
  shows "isPublishDisabled s now \<longleftrightarrow> FetchD14NCutover ns \<le> now" and "isStreamingDisabled s now \<longleftrightarrow> FetchD14NCutover ns \<le> now"
  using assms by (auto simp: isPublishDisabled_def isStreamingDisabled_def IsMigrationComplete_def CutoverNs_def FetchD14NCutover_def
      split: option.splits)

section \<open>What the streams deliver\<close>

definition queued :: "dispatcher \<Rightarrow> nat \<Rightarrow> envelope list" where
  "queued d p = (case d_heap d p of None \<Rightarrow> [] | Some s \<Rightarrow> ch_buf (MessagesCh s))"

lemma handle_loop_queued:
  "handle_loop e ps d = Inr d' \<Longrightarrow> set (queued d' p) \<subseteq> insert e (set (queued d p))"
proof (induction e ps d rule: handle_loop.induct)
  case (2 e q qs d)
  show ?case
  proof (cases "d_heap d q")
    case (Some s)
    let ?put = "\<lambda>c. d\<lparr>d_heap := (d_heap d)(q \<mapsto> s\<lparr>MessagesCh := c\<rparr>)\<rparr>"
    have "set (queued (?put ((MessagesCh s)\<lparr>ch_buf := ch_buf (MessagesCh s) @ [e]\<rparr>)) p) \<subseteq> insert e (set (queued d p))"
      "queued (?put ((MessagesCh s)\<lparr>ch_closed := True\<rparr>)\<lparr>d_active := xs\<rparr>) p = queued d p" for xs
      using Some by (auto simp: queued_def)
    with 2 Some show ?thesis by (auto split: if_splits)
  qed (use 2 in simp)
qed auto

lemma HandleEnvelope_queued:
  "HandleEnvelope (Some e) d = Inr d' \<Longrightarrow> set (queued d' p) \<subseteq> insert e (set (queued d p))"
  by (simp add: HandleEnvelope_def handle_loop_queued)

lemma Subscribe_queued: "Subscribe ts d = (p, d') \<Longrightarrow> queued d' p = []"
  by (auto simp: Subscribe_def register_def new_sub_def queued_def Let_def split: if_splits)

lemma receive_queued:
  "receive p d = (r, d') \<Longrightarrow> (\<forall>e. r = Got e \<longrightarrow> e \<in> set (queued d p)) \<and> set (queued d' p) \<subseteq> set (queued d p)"
  by (auto simp: receive_def queued_def split: option.splits list.splits if_splits)

lemma Unsubscribe_queued [simp]: "queued (Unsubscribe q d) p = queued d p"
  by (simp add: Unsubscribe_def queued_def)

text \<open>\<open>sends st st' es\<close>: what was sent on the way is among \<open>es\<close>.\<close>

definition sends :: "message_stream \<Rightarrow> message_stream \<Rightarrow> envelope set \<Rightarrow> bool" where
  "sends st st' es \<longleftrightarrow> (\<exists>out. st_sent st' = st_sent st @ out \<and> set out \<subseteq> es)"

lemma sends_refl [simp]: "st_sent st' = st_sent st \<Longrightarrow> sends st st' es"
  by (simp add: sends_def)

lemma sends_trans: "sends a b es \<Longrightarrow> sends b c fs \<Longrightarrow> es \<subseteq> gs \<Longrightarrow> fs \<subseteq> gs \<Longrightarrow> sends a c gs"
  by (fastforce simp: sends_def)

fun dispatched_in :: "stream_event \<Rightarrow> envelope set" where
  "dispatched_in (Dispatched e) = {e}"
| "dispatched_in _ = {}"

lemma subscribe_step_sends:
  assumes "subscribe_step p ev st = Inr st'"
  shows "sends st st' (set (queued (st_dispatcher st) p)) \<and>
    set (queued (st_dispatcher st') p) \<subseteq> set (queued (st_dispatcher st) p) \<union> dispatched_in ev"
proof (cases ev)
  case (TakeMessage flt)
  obtain r d where r: "receive p (st_dispatcher st) = (r, d)" by fastforce
  from receive_queued [OF this] show ?thesis
    using assms TakeMessage r by (cases r; cases flt) (auto simp: subscribe_step_def send_env_def sends_def)
next
  case (Dispatched e)
  then show ?thesis using assms HandleEnvelope_queued [of e "st_dispatcher st" _ p]
    by (cases "HandleEnvelope (Some e) (st_dispatcher st)") (auto simp: subscribe_step_def)
qed (use assms in \<open>auto simp: subscribe_step_def\<close>)

lemma subscribe2_loop_sends:
  assumes "subscribe2_loop evs st = Inr st'" and "s2_current st = Some p"
  shows "sends (s2_stream st) (s2_stream st')
    (set (queued (st_dispatcher (s2_stream st)) p) \<union> {e. Stream (Dispatched e) \<in> set evs})"
  using assms
proof (induction evs arbitrary: st p)
  case (Cons ev evs)
  let ?q = "set (queued (st_dispatcher (s2_stream st)) p)"
  show ?case
  proof (cases "st_open (s2_stream st)")
    case True
    then obtain st1 where st1: "subscribe2_step ev st = Inr st1" "subscribe2_loop evs st1 = Inr st'"
      using Cons.prems by (auto split: sum.splits)
    have "\<exists>p1. s2_current st1 = Some p1 \<and> sends (s2_stream st) (s2_stream st1) ?q \<and>
        set (queued (st_dispatcher (s2_stream st1)) p1) \<subseteq> ?q \<union> {e. ev = Stream (Dispatched e)}"
    proof (cases ev)
      case (Request ts)
      obtain p1 d1 where p1: "Subscribe (set ts) (Unsubscribe p (st_dispatcher (s2_stream st))) = (p1, d1)" by fastforce
      with Request st1(1) Cons.prems(2) Subscribe_queued [OF p1] show ?thesis
        by (auto simp: subscribe2_step_def Let_def)
    next
      case (Stream e)
      then obtain s1 where s1: "subscribe_step p e (s2_stream st) = Inr s1" "st1 = st\<lparr>s2_stream := s1\<rparr>"
        using st1(1) Cons.prems(2) by (cases "subscribe_step p e (s2_stream st)") (auto simp: subscribe2_step_def)
      from subscribe_step_sends [OF s1(1)] s1(2) Stream Cons.prems(2) show ?thesis by (cases e) auto
    qed (use st1(1) Cons.prems(2) in \<open>auto simp: subscribe2_step_def\<close>)
    then obtain p1 where p1: "s2_current st1 = Some p1" "sends (s2_stream st) (s2_stream st1) ?q"
      "set (queued (st_dispatcher (s2_stream st1)) p1) \<subseteq> ?q \<union> {e. ev = Stream (Dispatched e)}" by blast
    show ?thesis by (rule sends_trans [OF p1(2) Cons.IH [OF st1(2) p1(1)]]) (use p1(3) in auto)
  qed (use Cons.prems in simp)
qed simp

text \<open>
  Changing the topics of a Subscribe2 stream loses what was on its way: after the client's next
  request only envelopes dispatched from then on are ever sent, so whatever was queued for it is
  gone, also for the topics it keeps, and nothing tells it.
\<close>

theorem subscribe2_update_loses_queue:
  assumes "subscribe2_loop (Request contentTopics # evs) st = Inr st'" and "st_open (s2_stream st)"
  shows "\<exists>out. st_sent (s2_stream st') = st_sent (s2_stream st) @ out \<and> (\<forall>e \<in> set out. Stream (Dispatched e) \<in> set evs)"
proof -
  let ?d = "case s2_current st of None \<Rightarrow> st_dispatcher (s2_stream st) | Some p \<Rightarrow> Unsubscribe p (st_dispatcher (s2_stream st))"
  obtain p d where p: "Subscribe (set contentTopics) ?d = (p, d)" by fastforce
  let ?st1 = "st\<lparr>s2_stream := (s2_stream st)\<lparr>st_dispatcher := d\<rparr>, s2_current := Some p\<rparr>"
  have "subscribe2_step (Request contentTopics) st = Inr ?st1" using p by (simp add: subscribe2_step_def Let_def)
  then have "subscribe2_loop evs ?st1 = Inr st'" using assms by simp
  from subscribe2_loop_sends [OF this] Subscribe_queued [OF p] show ?thesis
    by (auto simp: sends_def)
qed

theorem subscribe2_update_loses_queue_witness:
  "\<exists>st'. Subscribe2 [Request [''a''], Stream (Dispatched (test_env ''a'')), Request [''a''], Stream (TakeMessage None)]
      NewSubscriptionDispatcher = Inr st' \<and> st_sent (s2_stream st') = []"
proof -
  let ?st0 = "\<lparr>s2_stream = \<lparr>st_dispatcher = NewSubscriptionDispatcher, st_sent = [], st_open = True\<rparr>, s2_current = None\<rparr>"
  let ?first = "[Request [''a''], Stream (Dispatched (test_env ''a''))]"
  have l: "log2 (Suc 0) = 0" by (simp add: log2_def log2_loop.simps)
  obtain st1 where st1: "subscribe2_loop ?first ?st0 = Inr st1" "st_open (s2_stream st1)" "st_sent (s2_stream st1) = []"
    by (simp add: subscribe2_step_def subscribe_step_def Subscribe_def register_def NewSubscriptionDispatcher_def dispatcher_consts
        HandleEnvelope_def new_sub_def wants_def test_env_def chan_full_def l)
  obtain st' where st': "subscribe2_loop [Request [''a''], Stream (TakeMessage None)] st1 = Inr st'"
  proof -
    let ?d = "case s2_current st1 of None \<Rightarrow> st_dispatcher (s2_stream st1) | Some p \<Rightarrow> Unsubscribe p (st_dispatcher (s2_stream st1))"
    obtain p d where pd: "Subscribe {''a''} ?d = (p, d)" by fastforce
    obtain r d2 where "receive p d = (r, d2)" by fastforce
    with pd st1(2) that show thesis by (cases r) (simp_all add: subscribe2_step_def subscribe_step_def Let_def)
  qed
  have app: "subscribe2_loop (xs @ ys) s = Inr s2" if "subscribe2_loop xs s = Inr s1" "subscribe2_loop ys s1 = Inr s2" "st_open (s2_stream s1)"
    for xs ys s s1 s2 using that
    by (induction xs arbitrary: s) (auto split: if_splits sum.splits)
  have "Subscribe2 (?first @ [Request [''a''], Stream (TakeMessage None)]) NewSubscriptionDispatcher = Inr st'"
    unfolding Subscribe2_def by (rule app [OF st1(1) st' st1(2)])
  moreover have "st_sent (s2_stream st') = []"
    using subscribe2_update_loses_queue [OF st' st1(2)] st1(3) by auto
  ultimately show ?thesis by auto
qed

text \<open>Once the reader is gone the select loop turns without effect, and without end, until a context is done.\<close>

lemma closed_requests_spin:
  "st_open (s2_stream st) \<Longrightarrow> subscribe2_loop (replicate n RequestsClosed @ evs) st = subscribe2_loop evs st"
  by (induction n) (simp_all add: subscribe2_step_def)

text \<open>A send that fails loses its envelope, and the stream goes on.\<close>

lemma failed_send_is_skipped:
  assumes "receive sub (st_dispatcher st) = (Got e, d)"
  shows "subscribe_step sub (TakeMessage (Some err)) st = Inr (st\<lparr>st_dispatcher := d\<rparr>)"
  using assms by (simp add: subscribe_step_def send_env_def)

text \<open>A batch is answered position by position, or not at all.\<close>

lemma batch_query_positional:
  "batch_query_loop sha256 flt i qs rows acc = Inr resps \<Longrightarrow>
     \<exists>new. resps = acc @ new \<and> length new = length qs \<and>
       (\<forall>j < length qs. \<exists>q. qs ! j = Some q \<and> message_Query sha256 (flt (i + j)) q rows = Inr (new ! j))"
proof (induction sha256 flt i qs rows acc rule: batch_query_loop.induct)
  case (3 sha256 flt i q qs rows acc)
  then obtain r where r: "message_Query sha256 (flt i) q rows = Inr r" by (auto split: sum.splits go_error.splits)
  with 3 obtain new where new: "resps = (acc @ [r]) @ new" "length new = length qs"
    "\<forall>j < length qs. \<exists>q. qs ! j = Some q \<and> message_Query sha256 (flt (Suc i + j)) q rows = Inr (new ! j)" by auto
  then show ?case using r by (intro exI [of _ "r # new"]) (auto simp: less_Suc_eq_0_disj nth_Cons split: nat.split)
qed simp_all

end
