(* ===== verification/Message_Client.thy ===== *)
theory Message_Client
  imports Prelude
begin

text \<open>
  The clients of the older message API (pkg/api/message/v1/client): the HTTP client with its retry policy and
  headers, and the streams over HTTP and gRPC. The HTTP library, the JSON codec and the servers are
  parameters. A select with several ready cases is modelled by the list of all its outcomes; an empty
  list means that the call blocks.

  The lemmas show what a caller of \<open>Next\<close> gets on each path, that a stream that was opened delivers the
  lines in order and ends with EOF after \<open>Close\<close>, and two ways in which the streams break: a stream
  closed before its response can panic, and a \<open>Next\<close> whose context ends loses the next envelope.
\<close>

section \<open>The HTTP client: http_client.go\<close>

definition err_EOF :: go_error where
  "err_EOF = Err ''EOF''"

definition client_version :: "string \<Rightarrow> string result" where
  "client_version gitCommit =
     (if gitCommit = [] then Inr ''xmtp-go/''
      else if length gitCommit < 7 then Inl (Panic ''slice bounds out of range'')
      else Inr (''xmtp-go/'' @ take 7 gitCommit))"

text \<open>
  \<open>status\<close> is the status code of the response, if there is one; \<open>default_policy\<close> is the library's policy.
\<close>

definition retryPolicy :: "(nat option \<Rightarrow> go_error option \<Rightarrow> bool \<times> go_error option) \<Rightarrow> nat option \<Rightarrow> go_error option \<Rightarrow>
    bool \<times> go_error option" where
  "retryPolicy default_policy status err = (if status = Some 429 then (False, err) else default_policy status err)"

text \<open>Headers by their name, which the library canonicalises; a missing header reads as empty.\<close>

definition set_default :: "string \<Rightarrow> string \<Rightarrow> (string \<Rightarrow> string) \<Rightarrow> string \<Rightarrow> string" where
  "set_default key v h = (if h key = [] then h(key := v) else h)"

definition post_headers :: "(string \<times> string list) list \<Rightarrow> string \<Rightarrow> string \<Rightarrow> string \<Rightarrow> string" where
  "post_headers md version appVersion =
     (let h0 = (\<lambda>_. [])(''content-type'' := ''application/json'');
          h1 = fold (\<lambda>(key, vals) h. case vals of [] \<Rightarrow> h | v # vs \<Rightarrow> h(key := v)) md h0
      in set_default ''x-app-version'' appVersion (set_default ''x-client-version'' version h1))"

record http_response =
  resp_StatusCode :: nat
  resp_Status :: string
  resp_Body :: "string result"

text \<open>\<open>NewHTTPClient\<close>.\<close>

record httpClient =
  hc_url :: string
  hc_version :: string
  hc_appVersion :: string

definition NewHTTPClient :: "string \<Rightarrow> string \<Rightarrow> string \<Rightarrow> httpClient result" where
  "NewHTTPClient serverAddr gitCommit appVersion =
     (case client_version gitCommit of
        Inl e \<Rightarrow> Inl e
      | Inr version \<Rightarrow> Inr \<lparr>hc_url = serverAddr, hc_version = version, hc_appVersion = appVersion\<rparr>)"

text \<open>
  The network and the codecs of a client: \<open>marshal\<close> is protojson, \<open>NewRequest\<close> the error of making the request,
  \<open>Do\<close> what the retrying HTTP library returns for a URL, the headers and a body.
\<close>

record ('q, 'r) http_env =
  he_marshal :: "'q \<Rightarrow> string result"
  NewRequest :: "string \<Rightarrow> go_error option"
  Do :: "string \<Rightarrow> (string \<Rightarrow> string) \<Rightarrow> string \<Rightarrow> http_response result"
  he_unmarshal :: "string \<Rightarrow> 'r result"

definition post :: "('q, 'r) http_env \<Rightarrow> httpClient \<Rightarrow> (string \<times> string list) list \<Rightarrow> string \<Rightarrow> 'q \<Rightarrow> http_response result" where
  "post N c md path req =
     (case he_marshal N req of
        Inl e \<Rightarrow> Inl e
      | Inr reqJSON \<Rightarrow>
          let url = hc_url c @ path in
          (case NewRequest N url of
             Some e \<Rightarrow> Inl e
           | None \<Rightarrow> Do N url (post_headers md (hc_version c) (hc_appVersion c)) reqJSON))"

text \<open>One request, one decoded response.\<close>

definition raw_call :: "(string \<Rightarrow> 'r result) \<Rightarrow> http_response result \<Rightarrow> 'r result" where
  "raw_call decode posted =
     (case posted of
        Inl e \<Rightarrow> Inl e
      | Inr resp \<Rightarrow>
          (case resp_Body resp of
             Inl e \<Rightarrow> Inl e
           | Inr body \<Rightarrow>
               if resp_StatusCode resp \<noteq> 200 then Inl (Err (resp_Status resp @ '': '' @ body)) else decode body))"

definition rawPublish :: "('q, 'r) http_env \<Rightarrow> httpClient \<Rightarrow> (string \<times> string list) list \<Rightarrow> 'q \<Rightarrow> 'r result" where
  "rawPublish N c md req = raw_call (he_unmarshal N) (post N c md ''/message/v1/publish'' req)"

text \<open>The two queries add the body to the error of the decoder.\<close>

definition with_body :: "(string \<Rightarrow> 'r result) \<Rightarrow> string \<Rightarrow> 'r result" where
  "with_body decode body = (case decode body of Inl (Err m) \<Rightarrow> Inl (Err (m @ '': '' @ body)) | r \<Rightarrow> r)"

definition rawQuery :: "('q, 'r) http_env \<Rightarrow> httpClient \<Rightarrow> (string \<times> string list) list \<Rightarrow> 'q \<Rightarrow> 'r result" where
  "rawQuery N c md req = raw_call (with_body (he_unmarshal N)) (post N c md ''/message/v1/query'' req)"

definition rawBatchQuery :: "('q, 'r) http_env \<Rightarrow> httpClient \<Rightarrow> (string \<times> string list) list \<Rightarrow> 'q \<Rightarrow> 'r result" where
  "rawBatchQuery N c md req = raw_call (with_body (he_unmarshal N)) (post N c md ''/message/v1/batch-query'' req)"

definition http_Subscribe2 :: "'s result" where
  "http_Subscribe2 = Inl (Err ''not implemented'')"

text \<open>
  A query returns a response only if the server answered 200 to the posted request with a body that decodes to it.
\<close>

lemma raw_call_ok:
  "raw_call decode r = Inr x \<longleftrightarrow>
     (\<exists>resp body. r = Inr resp \<and> resp_StatusCode resp = 200 \<and> resp_Body resp = Inr body \<and> decode body = Inr x)"
  by (auto simp: raw_call_def split: sum.split)

lemma with_body_ok [simp]: "with_body decode body = Inr x \<longleftrightarrow> decode body = Inr x"
  by (simp add: with_body_def split: sum.split go_error.split)

lemma post_ok:
  "post N c md path req = Inr resp \<longleftrightarrow>
     (\<exists>reqJSON. he_marshal N req = Inr reqJSON \<and> NewRequest N (hc_url c @ path) = None \<and>
        Do N (hc_url c @ path) (post_headers md (hc_version c) (hc_appVersion c)) reqJSON = Inr resp)"
  by (auto simp: post_def Let_def split: sum.split option.split)

lemma rawQuery_ok:
  "rawQuery N c md req = Inr x \<longleftrightarrow>
     (\<exists>reqJSON resp body. he_marshal N req = Inr reqJSON \<and> NewRequest N (hc_url c @ ''/message/v1/query'') = None \<and>
        Do N (hc_url c @ ''/message/v1/query'') (post_headers md (hc_version c) (hc_appVersion c)) reqJSON = Inr resp \<and>
        resp_StatusCode resp = 200 \<and> resp_Body resp = Inr body \<and> he_unmarshal N body = Inr x)"
  by (simp add: rawQuery_def raw_call_ok post_ok) blast

fun zapFields :: "string option list \<Rightarrow> string list result" where
  "zapFields [] = Inr []"
| "zapFields [None] = Inr []"
| "zapFields [Some key] = Inl (Panic ''index out of range'')"
| "zapFields (None # v # kvs) = zapFields kvs"
| "zapFields (Some key # v # kvs) = (case zapFields kvs of Inl e \<Rightarrow> Inl e | Inr ks \<Rightarrow> Inr (key # ks))"

lemma set_default_keeps: "h key \<noteq> [] \<Longrightarrow> set_default k v h key = h key"
  by (auto simp: set_default_def)

text \<open>Headers of the caller win over the client's own versions.\<close>

lemma post_headers_of_caller:
  "map_of (rev md) key = Some (v # vs) \<Longrightarrow> \<forall>x \<in> set md. snd x \<noteq> [] \<Longrightarrow> v \<noteq> [] \<Longrightarrow> post_headers md version appVersion key = v"
proof -
  have "fold (\<lambda>(key, vals) h. case vals of [] \<Rightarrow> h | v # vs \<Rightarrow> h(key := v)) md h key =
      (case map_of (rev md) key of Some (v # vs) \<Rightarrow> v | _ \<Rightarrow> h key)" if "\<forall>x \<in> set md. snd x \<noteq> []" for h :: "string \<Rightarrow> string"
    using that
  proof (induction md rule: rev_induct)
    case (snoc x md)
    then show ?case by (cases x; cases "snd x") auto
  qed simp
  then show "map_of (rev md) key = Some (v # vs) \<Longrightarrow> \<forall>x \<in> set md. snd x \<noteq> [] \<Longrightarrow> v \<noteq> [] \<Longrightarrow>
      post_headers md version appVersion key = v"
    by (simp add: post_headers_def set_default_keeps Let_def)
qed

section \<open>The HTTP stream: http_stream.go\<close>

text \<open>
  The goroutine of a stream requests, looks at \<open>closed\<close>, and puts the outcome into one of two channels with
  one slot; between the look and the put a \<open>Close\<close> may come. The body is the list of its lines.
\<close>

datatype put = PutResp "string list" | PutErr go_error

datatype requester = Requesting | Putting put | Ended

record httpStream =
  respC :: "string list option"
  errC :: "go_error option"
  chans_closed :: bool
  has_reader :: bool
  body :: "string list option"
  closed :: bool
  requester :: requester

definition newHTTPStream :: httpStream where
  "newHTTPStream = \<lparr>respC = None, errC = None, chans_closed = False, has_reader = False, body = None, closed = False,
     requester = Requesting\<rparr>"

text \<open>The response of \<open>reqFn\<close>: an error, a refusal with its body, or a body to stream.\<close>

datatype answer = ReqFailed go_error | Refused string "string result" | Streaming "string list"

definition outcome_of :: "answer \<Rightarrow> put" where
  "outcome_of a =
     (case a of
        ReqFailed e \<Rightarrow> PutErr e
      | Refused st (Inl e) \<Rightarrow> PutErr e
      | Refused st (Inr b) \<Rightarrow> PutErr (Err (st @ '': '' @ b))
      | Streaming ls \<Rightarrow> PutResp ls)"

definition answered_by :: "answer \<Rightarrow> httpStream \<Rightarrow> httpStream" where
  "answered_by a s =
     (if requester s = Requesting
      then s\<lparr>requester := if closed s then Ended else Putting (outcome_of a)\<rparr> else s)"

definition put_outcome :: "httpStream \<Rightarrow> httpStream result" where
  "put_outcome s =
     (case requester s of
        Putting x \<Rightarrow>
          if chans_closed s then Inl (Panic ''send on closed channel'')
          else Inr ((case x of PutResp ls \<Rightarrow> s\<lparr>respC := Some ls\<rparr> | PutErr e \<Rightarrow> s\<lparr>errC := Some e\<rparr>)\<lparr>requester := Ended\<rparr>)
      | _ \<Rightarrow> Inr s)"

definition Close :: "httpStream \<Rightarrow> httpStream" where
  "Close s = s\<lparr>chans_closed := True, closed := True, body := None\<rparr>"

text \<open>The select of \<open>reader\<close>: \<open>Inr True\<close> for a reader, \<open>Inr False\<close> for a nil one.\<close>

definition reader :: "go_error option \<Rightarrow> httpStream \<Rightarrow> (httpStream \<times> bool result) list" where
  "reader ctxErr s =
     (if has_reader s then [(s, Inr True)]
      else
        (case errC s of
           Some e \<Rightarrow> [(s\<lparr>errC := None\<rparr>, Inl e)]
         | None \<Rightarrow> if chans_closed s then [(s, Inr False)] else []) @
        (case respC s of
           Some ls \<Rightarrow> [(s\<lparr>respC := None, body := Some ls, has_reader := True\<rparr>, Inr True)]
         | None \<Rightarrow> if chans_closed s then [(s, Inl (Panic ''nil pointer dereference''))] else []) @
        (case ctxErr of Some e \<Rightarrow> [(s, Inl e)] | None \<Rightarrow> []))"

text \<open>
  The rest of \<open>Next\<close>. A line that is read while the context ends is dropped, whichever case the select picks.
\<close>

definition read_line :: "(string \<Rightarrow> 'e result) \<Rightarrow> go_error option \<Rightarrow> httpStream \<Rightarrow> (httpStream \<times> 'e result) list" where
  "read_line decode ctxErr s =
     (case body s of
        None \<Rightarrow> [(s, Inl err_EOF)]
      | Some [] \<Rightarrow> (case ctxErr of None \<Rightarrow> [(s, Inl err_EOF)] | Some e \<Rightarrow> [(s, Inl e)])
      | Some (l # ls) \<Rightarrow>
          (case ctxErr of None \<Rightarrow> [(s\<lparr>body := Some ls\<rparr>, decode l)] | Some e \<Rightarrow> [(s\<lparr>body := Some ls\<rparr>, Inl e)]))"

definition Next :: "(string \<Rightarrow> 'e result) \<Rightarrow> go_error option \<Rightarrow> httpStream \<Rightarrow> (httpStream \<times> 'e result) list" where
  "Next decode ctxErr s =
     concat (map (\<lambda>(s', r). case r of Inl e \<Rightarrow> [(s', Inl e)] | Inr _ \<Rightarrow> read_line decode ctxErr s') (reader ctxErr s))"

text \<open>Calls of \<open>Next\<close> one after the other, with live contexts.\<close>

fun next_all :: "(string \<Rightarrow> 'e result) \<Rightarrow> nat \<Rightarrow> httpStream \<Rightarrow> (httpStream \<times> 'e result list) list" where
  "next_all decode 0 s = [(s, [])]"
| "next_all decode (Suc n) s =
     concat (map (\<lambda>(s1, r). map (\<lambda>(s2, rs). (s2, r # rs)) (next_all decode n s1)) (Next decode None s))"

lemma Next_open:
  "has_reader s \<Longrightarrow> body s = Some ls \<Longrightarrow> Next decode None s =
     (case ls of [] \<Rightarrow> [(s, Inl err_EOF)] | l # ls' \<Rightarrow> [(s\<lparr>body := Some ls'\<rparr>, decode l)])"
  by (cases ls) (simp_all add: Next_def reader_def read_line_def)

lemma next_all_open:
  "has_reader s \<Longrightarrow> body s = Some ls \<Longrightarrow> n \<le> length ls \<Longrightarrow>
     next_all decode n s = [(s\<lparr>body := Some (drop n ls)\<rparr>, map decode (take n ls))]"
proof (induction n arbitrary: s ls)
  case (Suc n)
  then obtain l ls' where ls: "ls = l # ls'" by (cases ls) auto
  have "next_all decode n (s\<lparr>body := Some ls'\<rparr>) = [(s\<lparr>body := Some (drop n ls')\<rparr>, map decode (take n ls'))]"
    using Suc.IH [of "s\<lparr>body := Some ls'\<rparr>" ls'] Suc.prems ls by simp
  then show ?case using Next_open [OF Suc.prems(1,2), of decode] ls by simp
qed simp

text \<open>
  A stream whose response arrived before it was closed: \<open>Next\<close> gives the lines in order, and EOF after \<open>Close\<close>,
  without ever blocking or panicking.
\<close>

lemma opened_stream:
  assumes "put_outcome (answered_by (Streaming ls) newHTTPStream) = Inr s" and "n \<le> length ls" and "0 < n"
  shows "\<exists>s'. next_all decode n s = [(s', map decode (take n ls))] \<and> Next decode None (Close s') = [(Close s', Inl err_EOF)]"
proof -
  have s: "s = newHTTPStream\<lparr>respC := Some ls, requester := Ended\<rparr>"
    using assms(1) by (auto simp: put_outcome_def answered_by_def newHTTPStream_def outcome_of_def)
  let ?o = "newHTTPStream\<lparr>requester := Ended, body := Some ls, has_reader := True\<rparr>"
  have first: "Next decode None s = Next decode None ?o"
    by (cases ls) (simp_all add: s Next_def reader_def read_line_def newHTTPStream_def)
  obtain m where m: "n = Suc m" using assms(3) by (cases n) auto
  have "next_all decode n s = next_all decode n ?o" by (simp add: m first)
  then have "next_all decode n s = [(?o\<lparr>body := Some (drop n ls)\<rparr>, map decode (take n ls))]"
    using next_all_open [of ?o ls n decode] assms(2) by simp
  then show ?thesis by (intro exI [of _ "?o\<lparr>body := Some (drop n ls)\<rparr>"]) (simp add: Next_def reader_def read_line_def Close_def)
qed

text \<open>
  A stream that is closed before its response arrived is not safe to use: \<open>Close\<close> closes both channels
  of the goroutine, so the select of a following \<open>Next\<close> has two ready cases, one of which reads EOF while
  the other dereferences the nil response; and a response that was just being handed over is sent on a
  closed channel. The interface promises EOF.
\<close>

theorem early_close_panics:
  "Next decode None (Close newHTTPStream) =
     [(Close newHTTPStream, Inl err_EOF), (Close newHTTPStream, Inl (Panic ''nil pointer dereference''))] \<and>
   put_outcome (Close (answered_by a newHTTPStream)) = Inl (Panic ''send on closed channel'')"
  by (simp add: Next_def reader_def read_line_def Close_def newHTTPStream_def put_outcome_def answered_by_def)

text \<open>An error response is reported once; the call after it blocks until its context ends.\<close>

lemma error_reported_once:
  assumes "put_outcome (answered_by (ReqFailed e) newHTTPStream) = Inr s"
  shows "\<exists>s'. Next decode None s = [(s', Inl e)] \<and> Next decode None s' = []"
proof -
  have s: "s = newHTTPStream\<lparr>errC := Some e, requester := Ended\<rparr>"
    using assms by (simp add: put_outcome_def answered_by_def newHTTPStream_def outcome_of_def)
  show ?thesis by (intro exI [of _ "newHTTPStream\<lparr>requester := Ended\<rparr>"]) (simp add: s Next_def reader_def newHTTPStream_def)
qed

section \<open>The gRPC client: grpc_client.go\<close>

definition NewGRPCClient :: "'c result \<Rightarrow> 'c result" where
  "NewGRPCClient dialed = (case dialed of Inl e \<Rightarrow> Inl e | Inr conn \<Rightarrow> Inr conn)"

text \<open>The first component: the context of the call was cancelled. \<open>SubscribeAll\<close> has the shape of \<open>Subscribe\<close>.\<close>

definition grpc_Subscribe :: "'s result \<Rightarrow> bool \<times> 's result" where
  "grpc_Subscribe opened = (case opened of Inl e \<Rightarrow> (True, Inl e) | Inr stream \<Rightarrow> (False, Inr stream))"

definition grpc_Subscribe2 :: "'s result \<Rightarrow> ('s \<Rightarrow> go_error option) \<Rightarrow> bool \<times> 's result" where
  "grpc_Subscribe2 opened Send =
     (case opened of
        Inl e \<Rightarrow> (True, Inl e)
      | Inr stream \<Rightarrow> (case Send stream of Some e \<Rightarrow> (True, Inl e) | None \<Rightarrow> (False, Inr stream)))"

lemma no_stream_no_context:
  "fst (grpc_Subscribe opened) \<longleftrightarrow> (\<exists>e. snd (grpc_Subscribe opened) = Inl e)"
  "fst (grpc_Subscribe2 opened Send) \<longleftrightarrow> (\<exists>e. snd (grpc_Subscribe2 opened Send) = Inl e)"
  by (auto simp: grpc_Subscribe_def grpc_Subscribe2_def split: sum.split option.split)

section \<open>The gRPC stream: grpc_stream.go\<close>

text \<open>
  A call of \<open>Next\<close> leaves a goroutine in \<open>Recv\<close>. If the context ends first, the call returns its error, and the
  goroutine, still first in line for the next message of the stream, drops it. What \<open>Recv\<close> gives is a list.
\<close>

datatype 'e received = Envelope 'e | RecvCanceled_by_peer | RecvStatus string | RecvOther go_error

definition recv_result :: "'e received \<Rightarrow> 'e result" where
  "recv_result r =
     (case r of Envelope e \<Rightarrow> Inr e | RecvCanceled_by_peer \<Rightarrow> Inl err_EOF | RecvStatus msg \<Rightarrow> Inl (Err msg) | RecvOther e \<Rightarrow> Inl e)"

fun grpc_next_all :: "go_error option list \<Rightarrow> 'e received list \<Rightarrow> 'e result list" where
  "grpc_next_all [] rs = []"
| "grpc_next_all (Some ctxErr # cs) rs = Inl ctxErr # grpc_next_all cs (tl rs)"
| "grpc_next_all (None # cs) [] = []"
| "grpc_next_all (None # cs) (r # rs) = recv_result r # grpc_next_all cs rs"

text \<open>A caller that polls with timeouts sees the errors in place of the envelopes: each timeout costs one.\<close>

lemma grpc_timeouts_lose:
  "length cs \<le> length rs \<Longrightarrow>
     grpc_next_all cs rs = map2 (\<lambda>c r. case c of Some e \<Rightarrow> Inl e | None \<Rightarrow> recv_result r) cs rs"
proof (induction cs rs rule: grpc_next_all.induct)
  case (2 ctxErr cs rs)
  then show ?case by (cases rs) auto
qed auto

end
