(* ===== verification/Keys.thy ===== *)
theory Keys
  imports Topics
begin

text \<open>
  Keys and signatures: pkg/crypto (ecdsa.go, signatures.go) and the key file of pkg/server/server.go.
  A private key is its scalar \<open>D\<close>, a natural number. The curve, the hash and the key parsers of the
  third-party packages are the record \<open>key_lib\<close> and \<open>curve_lib\<close> of parameters; what a theorem needs
  of them is in \<open>key_lib_ok\<close>. The file system is a record of the files and of the faults the operating
  system reports.

  The lemmas show which keys survive being written as text, what the key file commands do to existing
  files, and that the text an Ethereum signature hashes determines the message.
\<close>

section \<open>Big-endian numbers\<close>

text \<open>\<open>big.Int.Bytes\<close>: big-endian without leading zeros.\<close>

fun be_bytes :: "nat \<Rightarrow> bytes" where
  "be_bytes n = (if n = 0 then [] else be_bytes (n div 256) @ [word_of_nat (n mod 256)])"

declare be_bytes.simps [simp del]

definition be_nat :: "bytes \<Rightarrow> nat" where
  "be_nat bs = foldl (\<lambda>n b. 256 * n + unat b) 0 bs"

lemma be_nat_append: "be_nat (bs @ [b]) = 256 * be_nat bs + unat b"
  by (simp add: be_nat_def)

lemma be_nat_zeros [simp]: "be_nat (replicate k 0 @ bs) = be_nat bs"
  by (induction k) (simp_all add: be_nat_def)

lemma unat_byte_of_nat [simp]: "unat (word_of_nat (n mod 256) :: byte) = n mod 256"
  by (simp add: unat_of_nat)

lemma be_nat_be_bytes [simp]: "be_nat (be_bytes n) = n"
proof (induction n rule: be_bytes.induct)
  case (1 n)
  then show ?case using be_bytes.simps [of n] by (simp add: be_nat_append) (simp add: be_nat_def)
qed

lemma length_be_bytes_le: "length (be_bytes n) \<le> k \<longleftrightarrow> n < 256 ^ k"
proof (induction k arbitrary: n)
  case 0
  then show ?case by (simp add: be_bytes.simps [of n])
next
  case (Suc k)
  show ?case
  proof (cases "n = 0")
    case False
    then have "length (be_bytes n) \<le> Suc k \<longleftrightarrow> length (be_bytes (n div 256)) \<le> k" by (simp add: be_bytes.simps [of n])
    also have "\<dots> \<longleftrightarrow> n < 256 ^ Suc k" by (simp add: Suc.IH less_mult_imp_div_less div_less_iff_less_mult mult.commute)
    finally show ?thesis .
  qed (simp add: be_bytes.simps)
qed

lemma length_be_bytes: "length (be_bytes n) = Suc k \<longleftrightarrow> 256 ^ k \<le> n \<and> n < 256 ^ Suc k"
  using length_be_bytes_le [of n k] length_be_bytes_le [of n "Suc k"] by linarith

section \<open>pkg/crypto/ecdsa.go\<close>

record key_lib =
  eth_HexToECDSA :: "string \<Rightarrow> nat result"
  eth_GenerateKey :: "nat result"
  eth_ToECDSA :: "bytes \<Rightarrow> nat result"
  UnmarshalSecp256k1PrivateKey :: "bytes \<Rightarrow> bytes result"

text \<open>
  What the sources rely on of go-ethereum and libp2p: keys are read from exactly 32 bytes, as 64 hex
  digits or raw, and 32 bytes that encode a scalar below the group order \<open>N\<close> are read back as it.
\<close>

definition key_lib_ok :: "nat \<Rightarrow> key_lib \<Rightarrow> bool" where
  "key_lib_ok N L \<longleftrightarrow> N \<le> 256 ^ 32 \<and>
     (\<forall>key. length key \<noteq> 64 \<longrightarrow> (\<exists>e. eth_HexToECDSA L key = Inl e)) \<and>
     (\<forall>bs. length bs = 32 \<and> 0 < be_nat bs \<and> be_nat bs < N \<longrightarrow> eth_HexToECDSA L (hex_encode bs) = Inr (be_nat bs)) \<and>
     (\<forall>bs. length bs \<noteq> 32 \<longrightarrow> (\<exists>e. UnmarshalSecp256k1PrivateKey L bs = Inl e)) \<and>
     (\<forall>bs. length bs = 32 \<and> 0 < be_nat bs \<and> be_nat bs < N \<longrightarrow>
        UnmarshalSecp256k1PrivateKey L bs = Inr bs \<and> eth_ToECDSA L bs = Inr (be_nat bs))"

definition HexToECDSA :: "key_lib \<Rightarrow> string \<Rightarrow> nat result" where
  "HexToECDSA L key =
     (let key1 = (if length key = 60 then ''0000'' @ key else key);
          key2 = (if length key1 = 62 then ''00'' @ key1 else key1)
      in eth_HexToECDSA L key2)"

definition ECDSAToHex :: "nat \<Rightarrow> string" where
  "ECDSAToHex key = hex_encode (be_bytes key)"

text \<open>
  A key survives the text form exactly when at most two leading bytes of it are zero: shorter texts are
  not padded and refused.
\<close>

lemma HexToECDSA_of_hex:
  assumes L: "key_lib_ok N L" and d: "0 < d" "d < N"
  shows "HexToECDSA L (ECDSAToHex d) = Inr d \<longleftrightarrow> 256 ^ 29 \<le> d"
    and "d < 256 ^ 29 \<Longrightarrow> \<exists>e. HexToECDSA L (ECDSAToHex d) = Inl e"
proof -
  let ?b = "be_bytes d"
  have N: "d < 256 ^ 32" using L d by (simp add: key_lib_ok_def)
  have le: "length ?b \<le> 32" using N by (simp add: length_be_bytes_le)
  have short: "\<exists>e. HexToECDSA L (ECDSAToHex d) = Inl e" if "d < 256 ^ 29"
  proof -
    have "length ?b \<le> 29" using that by (simp add: length_be_bytes_le)
    then have "HexToECDSA L (ECDSAToHex d) = eth_HexToECDSA L (hex_encode ?b)"
      by (simp add: HexToECDSA_def ECDSAToHex_def)
    moreover have "length (hex_encode ?b) \<noteq> 64" using \<open>length ?b \<le> 29\<close> by simp
    ultimately show ?thesis using L unfolding key_lib_ok_def by metis
  qed
  have long: "HexToECDSA L (ECDSAToHex d) = Inr d" if "256 ^ 29 \<le> d"
  proof -
    have "\<not> length ?b \<le> 29" using that length_be_bytes_le [of d 29] by simp
    then consider "length ?b = 30" | "length ?b = 31" | "length ?b = 32" using le by linarith
    then have "HexToECDSA L (ECDSAToHex d) = eth_HexToECDSA L (hex_encode (replicate (32 - length ?b) 0 @ ?b))"
      by cases (simp_all add: HexToECDSA_def ECDSAToHex_def hex_digit_def numeral_2_eq_2)
    moreover have "length (replicate (32 - length ?b) 0 @ ?b) = 32" using le by simp
    ultimately show ?thesis using L d unfolding key_lib_ok_def by (metis be_nat_zeros be_nat_be_bytes)
  qed
  show "HexToECDSA L (ECDSAToHex d) = Inr d \<longleftrightarrow> 256 ^ 29 \<le> d"
    using short long by (cases "256 ^ 29 \<le> d") (auto simp: not_le)
  show "d < 256 ^ 29 \<Longrightarrow> \<exists>e. HexToECDSA L (ECDSAToHex d) = Inl e" by (rule short)
qed


section \<open>pkg/crypto/signatures.go\<close>

text \<open>
  The third-party primitives: Keccak-256, signing (65 bytes, the recovery bit last) and verification on
  secp256k1, recovery of a public key, and the parsing and address of public keys.
\<close>

record 'p curve_lib =
  Keccak256 :: "bytes \<Rightarrow> bytes"
  secp_Sign :: "bytes \<Rightarrow> bytes \<Rightarrow> bytes result"
  secp_VerifySignature :: "bytes \<Rightarrow> bytes \<Rightarrow> bytes \<Rightarrow> bool"
  SigToPub :: "bytes \<Rightarrow> bytes \<Rightarrow> 'p result"
  UnmarshalPubkey :: "bytes \<Rightarrow> 'p result"
  PubkeyToAddress :: "'p \<Rightarrow> string"

definition PrivateKeyFromBytes :: "bytes \<Rightarrow> bytes result" where
  "PrivateKeyFromBytes bs = (if length bs \<noteq> 32 then Inl (Err ''invalid signature length'') else Inr bs)"

definition PublicKeyFromBytes :: "bytes \<Rightarrow> bytes result" where
  "PublicKeyFromBytes bs = (if length bs \<noteq> 65 then Inl (Err ''invalid public key'') else Inr bs)"

definition SignatureFromBytes :: "bytes \<Rightarrow> bytes result" where
  "SignatureFromBytes bs = (if length bs \<noteq> 64 then Inl (Err ''invalid signature length'') else Inr bs)"

text \<open>
  A slice is converted to an array only if it is long enough. \<open>FromECDSA\<close> and \<open>FromECDSAPub\<close> are the byte
  forms of a key pair given by go-ethereum.
\<close>

definition to_array :: "nat \<Rightarrow> bytes \<Rightarrow> bytes result" where
  "to_array n bs = (if length bs < n then Inl (Panic ''cannot convert slice to array pointer'') else Inr (take n bs))"

definition GenerateKeyPair :: "key_lib \<Rightarrow> (nat \<Rightarrow> bytes) \<Rightarrow> (nat \<Rightarrow> bytes) \<Rightarrow> (bytes \<times> bytes) result" where
  "GenerateKeyPair L FromECDSA FromECDSAPub =
     (case eth_GenerateKey L of
        Inl e \<Rightarrow> Inl e
      | Inr ecdsaPri \<Rightarrow>
          (case to_array 32 (FromECDSA ecdsaPri) of
             Inl e \<Rightarrow> Inl e
           | Inr pri \<Rightarrow> (case to_array 65 (FromECDSAPub ecdsaPri) of Inl e \<Rightarrow> Inl e | Inr pub \<Rightarrow> Inr (pri, pub))))"

lemma GenerateKeyPair_lengths:
  "GenerateKeyPair L F P = Inr (pri, pub) \<Longrightarrow> PrivateKeyFromBytes pri = Inr pri \<and> PublicKeyFromBytes pub = Inr pub"
  by (auto simp: GenerateKeyPair_def to_array_def PrivateKeyFromBytes_def PublicKeyFromBytes_def split: sum.split_asm if_split_asm)

definition SignDigest :: "'p curve_lib \<Rightarrow> bytes \<Rightarrow> bytes \<Rightarrow> (bytes \<times> byte) result" where
  "SignDigest C privateKey digest =
     (case secp_Sign C digest privateKey of
        Inl e \<Rightarrow> Inl e
      | Inr sig \<Rightarrow>
          if sig = [] then Inl (Panic ''slice bounds out of range'')
          else (case SignatureFromBytes (butlast sig) of
                  Inl e \<Rightarrow> Inl (Err ''generated signature has incorrect length'')
                | Inr signature \<Rightarrow> Inr (signature, last sig)))"

definition Sign :: "'p curve_lib \<Rightarrow> bytes \<Rightarrow> bytes \<Rightarrow> (bytes \<times> byte) result" where
  "Sign C privateKey msg = SignDigest C privateKey (Keccak256 C msg)"

definition Verify :: "'p curve_lib \<Rightarrow> bytes \<Rightarrow> bytes \<Rightarrow> bytes \<Rightarrow> bool" where
  "Verify C pub msg sig = secp_VerifySignature C pub (Keccak256 C msg) sig"

text \<open>\<open>fmt.Sprintf("...%d%s", len(msg), msg)\<close>.\<close>

fun digits :: "nat \<Rightarrow> bytes" where
  "digits n = (if n < 10 then [word_of_nat (48 + n)] else digits (n div 10) @ [word_of_nat (48 + n mod 10)])"

declare digits.simps [simp del]

definition ether_prefix :: bytes where
  "ether_prefix = map of_char (CHR 0x19 # ''Ethereum Signed Message:'' @ [CHR 0x0A])"

definition decorated :: "bytes \<Rightarrow> bytes" where
  "decorated msg = ether_prefix @ digits (length msg) @ msg"

definition EtherHash :: "'p curve_lib \<Rightarrow> bytes \<Rightarrow> bytes" where
  "EtherHash C msg = Keccak256 C (decorated msg)"

definition RecoverWalletAddress :: "'p curve_lib \<Rightarrow> bytes \<Rightarrow> bytes \<Rightarrow> byte \<Rightarrow> string result" where
  "RecoverWalletAddress C msg signature recovery =
     (case SigToPub C (EtherHash C msg) (signature @ [recovery]) of
        Inl e \<Rightarrow> Inl e
      | Inr epk \<Rightarrow> Inr (PubkeyToAddress C epk))"

text \<open>The parse error is ignored, and the nil key dereferenced.\<close>

definition PublicKeyToAddress :: "'p curve_lib \<Rightarrow> bytes \<Rightarrow> string result" where
  "PublicKeyToAddress C pub =
     (case UnmarshalPubkey C pub of Inl e \<Rightarrow> Inl (Panic ''nil pointer dereference'') | Inr epk \<Rightarrow> Inr (PubkeyToAddress C epk))"

text \<open>pkg/types/types.go: addresses and peer ids are strings of a fixed length.\<close>

definition WalletAddr_IsValid :: "string \<Rightarrow> bool" where
  "WalletAddr_IsValid walletAddr \<longleftrightarrow> length walletAddr = 42"

definition PeerId_IsValid :: "string \<Rightarrow> bool" where
  "PeerId_IsValid peerId \<longleftrightarrow> length peerId = 46"

text \<open>
  The length in front of the message has no separator, and needs none: the decorated text determines the
  message, so two messages have the same hash only if Keccak collides.
\<close>

lemma digits_mono: "m \<le> n \<Longrightarrow> length (digits m) \<le> length (digits n)"
proof (induction n arbitrary: m rule: digits.induct)
  case (1 n)
  have "length (digits m) \<le> length (digits n)" if "\<not> n < 10" "\<not> m < 10"
    using "1.IH" [OF that(1), of "m div 10"] "1.prems" that by (simp add: digits.simps [of n] digits.simps [of m] div_le_mono)
  moreover have "1 \<le> length (digits n)" by (simp add: digits.simps [of n])
  ultimately show ?case using "1.prems" by (cases "m < 10") (auto simp: digits.simps [of m])
qed

lemma decorated_inj: "decorated a = decorated b \<longleftrightarrow> a = b"
proof
  assume eq: "decorated a = decorated b"
  then have t: "digits (length a) @ a = digits (length b) @ b" by (simp add: decorated_def)
  have "length a = length b"
  proof (rule ccontr)
    assume "length a \<noteq> length b"
    then have "length (digits (length a) @ a) \<noteq> length (digits (length b) @ b)"
      using digits_mono [of "length a" "length b"] digits_mono [of "length b" "length a"] by (simp, linarith)
    then show False using t by simp
  qed
  then show "a = b" using t by simp
qed simp

text \<open>
  Splitting the recovery bit off a signature and appending it again loses nothing: where the library's own
  signatures recover to the signer's key, so do those of the package.
\<close>

lemma recover_signer:
  assumes "SignDigest C priv (EtherHash C msg) = Inr (signature, recovery)"
    and "\<And>sig. secp_Sign C (EtherHash C msg) priv = Inr sig \<Longrightarrow> SigToPub C (EtherHash C msg) sig = Inr epk"
  shows "RecoverWalletAddress C msg signature recovery = Inr (PubkeyToAddress C epk)" and "length signature = 64"
proof -
  obtain sig where s: "secp_Sign C (EtherHash C msg) priv = Inr sig" "sig \<noteq> []" "signature = butlast sig"
    "recovery = List.last sig" "length signature = 64"
    using assms(1) by (auto simp: SignDigest_def SignatureFromBytes_def split: sum.split_asm if_split_asm)
  then show "RecoverWalletAddress C msg signature recovery = Inr (PubkeyToAddress C epk)" "length signature = 64"
    using assms(2) by (simp_all add: RecoverWalletAddress_def)
qed

section \<open>The key file: pkg/server/server.go\<close>

record file_system =
  files :: "string \<Rightarrow> string option"
  statErr :: "string \<Rightarrow> go_error option"
  removeErr :: "string \<Rightarrow> go_error option"
  readErr :: "string \<Rightarrow> go_error option"
  writeErr :: "string \<Rightarrow> go_error option"

text \<open>The errors of the \<open>os\<close> functions: \<open>err_not_exist\<close> is the one \<open>os.IsNotExist\<close> recognises.\<close>

definition err_not_exist :: go_error where
  "err_not_exist = Err ''no such file or directory''"

definition os_Stat :: "file_system \<Rightarrow> string \<Rightarrow> go_error option" where
  "os_Stat fs path = (case statErr fs path of Some e \<Rightarrow> Some e
     | None \<Rightarrow> if files fs path = None then Some err_not_exist else None)"

definition os_Remove :: "file_system \<Rightarrow> string \<Rightarrow> file_system \<times> go_error option" where
  "os_Remove fs path =
     (if files fs path = None then (fs, Some err_not_exist)
      else case removeErr fs path of Some e \<Rightarrow> (fs, Some e) | None \<Rightarrow> (fs\<lparr>files := (files fs)(path := None)\<rparr>, None))"

definition os_ReadFile :: "file_system \<Rightarrow> string \<Rightarrow> string result" where
  "os_ReadFile fs path = (case readErr fs path of Some e \<Rightarrow> Inl e
     | None \<Rightarrow> (case files fs path of None \<Rightarrow> Inl err_not_exist | Some s \<Rightarrow> Inr s))"

definition os_WriteFile :: "file_system \<Rightarrow> string \<Rightarrow> string \<Rightarrow> file_system \<times> go_error option" where
  "os_WriteFile fs path s = (case writeErr fs path of Some e \<Rightarrow> (fs, Some e)
     | None \<Rightarrow> (fs\<lparr>files := (files fs)(path := Some s)\<rparr>, None))"

definition checkForPrivateKeyFile :: "string \<Rightarrow> bool \<Rightarrow> file_system \<Rightarrow> file_system \<times> go_error option" where
  "checkForPrivateKeyFile path overwrite fs =
     (if os_Stat fs path = None \<and> \<not> overwrite
      then (fs, Some (Err (path @ '' already exists. Use --overwrite to overwrite the file'')))
      else case os_Remove fs path of
             (fs', Some e) \<Rightarrow> (fs', if e = err_not_exist then None else Some e)
           | (fs', None) \<Rightarrow> (fs', None))"

definition generatePrivateKey :: "key_lib \<Rightarrow> string result" where
  "generatePrivateKey L = (case eth_GenerateKey L of Inl e \<Rightarrow> Inl e | Inr d \<Rightarrow> Inr (hex_encode (be_bytes d)))"

definition WritePrivateKeyToFile :: "key_lib \<Rightarrow> string \<Rightarrow> bool \<Rightarrow> file_system \<Rightarrow> file_system \<times> go_error option" where
  "WritePrivateKeyToFile L path overwrite fs =
     (case checkForPrivateKeyFile path overwrite fs of
        (fs1, Some e) \<Rightarrow> (fs1, Some e)
      | (fs1, None) \<Rightarrow>
          (case generatePrivateKey L of
             Inl e \<Rightarrow> (fs1, Some e)
           | Inr output \<Rightarrow> os_WriteFile fs1 path output))"

definition loadPrivateKeyFromFile :: "key_lib \<Rightarrow> string \<Rightarrow> file_system \<Rightarrow> nat result" where
  "loadPrivateKeyFromFile L path fs =
     (case os_ReadFile fs path of
        Inl e \<Rightarrow> Inl e
      | Inr src \<Rightarrow>
          (case hex_decode src of
             Inl e \<Rightarrow> Inl e
           | Inr dst \<Rightarrow>
               (case UnmarshalSecp256k1PrivateKey L dst of Inl e \<Rightarrow> Inl e | Inr pBytes \<Rightarrow> eth_ToECDSA L pBytes)))"

text \<open>\<open>fmt.Errorf("...: %w", err)\<close>.\<close>

definition wrapped :: "string \<Rightarrow> 'a result \<Rightarrow> 'a result" where
  "wrapped msg r = (case r of Inl e \<Rightarrow> Inl (Err msg) | Inr x \<Rightarrow> Inr x)"

record key_options =
  NodeKey :: string
  KeyFile :: string
  env_NODEKEY :: string

definition getPrivKey :: "key_lib \<Rightarrow> key_options \<Rightarrow> file_system \<Rightarrow> nat result" where
  "getPrivKey L opts fs =
     (if NodeKey opts \<noteq> [] then wrapped ''error converting key into valid ecdsa key'' (HexToECDSA L (NodeKey opts))
      else if env_NODEKEY opts \<noteq> [] then wrapped ''error converting key into valid ecdsa key'' (HexToECDSA L (env_NODEKEY opts))
      else case os_Stat fs (KeyFile opts) of
             None \<Rightarrow> wrapped ''could not read keyfile'' (loadPrivateKeyFromFile L (KeyFile opts) fs)
           | Some e \<Rightarrow>
               if e = err_not_exist then wrapped ''error generating key'' (eth_GenerateKey L)
               else Inl (Err ''could not read keyfile''))"

text \<open>Without \<open>--overwrite\<close> an existing key is never touched; no other file ever is.\<close>

lemma WritePrivateKeyToFile_keeps:
  assumes "WritePrivateKeyToFile L path overwrite fs = (fs', e)"
  shows "q \<noteq> path \<Longrightarrow> files fs' q = files fs q"
    and "os_Stat fs path = None \<Longrightarrow> \<not> overwrite \<Longrightarrow> fs' = fs \<and> e \<noteq> None"
  using assms
  by (auto simp: WritePrivateKeyToFile_def checkForPrivateKeyFile_def os_Remove_def os_WriteFile_def
      split: if_split_asm option.split_asm sum.split_asm)

text \<open>With it, a key generator that fails has already cost the old key.\<close>

lemma overwrite_loses_old_key:
  assumes "eth_GenerateKey L = Inl err" and "removeErr fs path = None"
  shows "files (fst (WritePrivateKeyToFile L path True fs)) path = None \<and> snd (WritePrivateKeyToFile L path True fs) \<noteq> None"
  using assms by (auto simp: WritePrivateKeyToFile_def checkForPrivateKeyFile_def os_Remove_def generatePrivateKey_def)

definition no_faults :: "file_system \<Rightarrow> bool" where
  "no_faults fs \<longleftrightarrow> statErr fs = (\<lambda>_. None) \<and> removeErr fs = (\<lambda>_. None) \<and> readErr fs = (\<lambda>_. None) \<and> writeErr fs = (\<lambda>_. None)"

text \<open>
  C34. The key file round-trips only for keys whose first byte is not zero: on a file system without
  faults, \<open>--generate-key\<close> always succeeds, and a node that is then started with that key file gets the
  generated key if it has 32 significant bytes, and refuses to start on one of the others (about one
  key in 256), because the text is written without leading zeros and read with a fixed width.
\<close>

theorem key_file_roundtrip:
  assumes "key_lib_ok N L" and "eth_GenerateKey L = Inr d" and "0 < d" and "d < N" and "no_faults fs"
    and "overwrite \<or> files fs (KeyFile opts) = None" and "NodeKey opts = []" and "env_NODEKEY opts = []"
  shows "\<exists>fs'. WritePrivateKeyToFile L (KeyFile opts) overwrite fs = (fs', None) \<and>
    (getPrivKey L opts fs' = Inr d \<longleftrightarrow> 256 ^ 31 \<le> d) \<and>
    (d < 256 ^ 31 \<longrightarrow> getPrivKey L opts fs' = Inl (Err ''could not read keyfile''))"
proof -
  let ?path = "KeyFile opts" and ?b = "be_bytes d"
  obtain fs1 where c: "checkForPrivateKeyFile ?path overwrite fs = (fs1, None)" and nf: "no_faults fs1"
    using assms(5,6) by (cases "files fs ?path") (auto simp: checkForPrivateKeyFile_def os_Stat_def os_Remove_def no_faults_def)
  let ?fs = "fs1\<lparr>files := (files fs1)(?path := Some (hex_encode ?b))\<rparr>"
  have w: "WritePrivateKeyToFile L ?path overwrite fs = (?fs, None)"
    using c nf assms(2) by (simp add: WritePrivateKeyToFile_def generatePrivateKey_def os_WriteFile_def no_faults_def)
  have g: "getPrivKey L opts ?fs = wrapped ''could not read keyfile''
      (case UnmarshalSecp256k1PrivateKey L ?b of Inl e \<Rightarrow> Inl e | Inr p \<Rightarrow> eth_ToECDSA L p)"
    using nf assms(7,8) by (simp add: getPrivKey_def os_Stat_def loadPrivateKeyFromFile_def os_ReadFile_def no_faults_def)
  have "d < 256 ^ 32" using assms(1,4) by (simp add: key_lib_ok_def)
  then have len: "length ?b = 32 \<longleftrightarrow> 256 ^ 31 \<le> d" using length_be_bytes [of d 31] by simp
  show ?thesis
  proof (cases "256 ^ 31 \<le> d")
    case True
    then have "UnmarshalSecp256k1PrivateKey L ?b = Inr ?b" "eth_ToECDSA L ?b = Inr d"
      using assms(1,3,4) len by (simp_all add: key_lib_ok_def)
    then show ?thesis using w g True by (simp add: wrapped_def)
  next
    case False
    then obtain e where "UnmarshalSecp256k1PrivateKey L ?b = Inl e" using assms(1) len unfolding key_lib_ok_def by metis
    then show ?thesis using w g False by (simp add: wrapped_def)
  qed
qed

definition test_lib :: "nat \<Rightarrow> key_lib" where
  "test_lib d = \<lparr>
     eth_HexToECDSA = (\<lambda>key. if length key = 64
       then (case hex_decode key of Inl e \<Rightarrow> Inl e | Inr bs \<Rightarrow> Inr (be_nat bs)) else Inl (Err ''invalid length, need 256 bits'')),
     eth_GenerateKey = Inr d, eth_ToECDSA = (\<lambda>bs. Inr (be_nat bs)),
     UnmarshalSecp256k1PrivateKey = (\<lambda>bs. if length bs = 32 then Inr bs else Inl (Err ''expected secp256k1 data size to be 32''))\<rparr>"

lemma test_lib_ok: "key_lib_ok (256 ^ 32) (test_lib d)"
  by (simp add: key_lib_ok_def test_lib_def)

definition test_fs :: file_system where
  "test_fs = \<lparr>files = (\<lambda>_. None), statErr = (\<lambda>_. None), removeErr = (\<lambda>_. None), readErr = (\<lambda>_. None), writeErr = (\<lambda>_. None)\<rparr>"

definition test_key_options :: key_options where
  "test_key_options = \<lparr>NodeKey = [], KeyFile = ''./nodekey'', env_NODEKEY = []\<rparr>"

theorem key_file_roundtrip_witness:
  "getPrivKey (test_lib 255) test_key_options (fst (WritePrivateKeyToFile (test_lib 255) ''./nodekey'' False test_fs)) =
     Inl (Err ''could not read keyfile'')"
proof -
  have "(255 :: nat) < 256 ^ 32" "(255 :: nat) < 256 ^ 31" by simp_all
  moreover have "eth_GenerateKey (test_lib 255) = Inr 255" by (simp add: test_lib_def)
  ultimately show ?thesis
    using key_file_roundtrip [OF test_lib_ok, of 255 255 test_fs False test_key_options]
    by (auto simp: no_faults_def test_fs_def test_key_options_def)
qed

end
