(* ===== verification/Node_Server.thy ===== *)
theory Node_Server
  imports Prelude
begin

text \<open>
  Start and stop of the node: pkg/server (server.go, pgxdb.go, options.go) and cmd/xmtpd/main.go. Modelled
  are the decisions these take: what the command line asks for, which parts of the node exist, how long
  the databases are waited for, which static peers are dialled, which backfillers run, the order of a
  shutdown and what each signal does. Sockets, pools and the libp2p host are parameters or not modelled.
\<close>

section \<open>The command line: cmd/xmtpd/main.go\<close>

record Options =
  opt_LogLevel :: string
  opt_LogEncoding :: string
  opt_Version :: bool
  opt_GenerateKey :: bool
  opt_CreateMessageMigration :: string
  opt_CreateAuthzMigration :: string
  opt_CreateMlsMigration :: string
  opt_Store_Enable :: bool
  opt_Store_DbConnectionString :: string
  opt_Store_DbReaderConnectionString :: string
  opt_MLSStore_DbConnectionString :: string
  opt_MLSStore_DbReaderConnectionString :: string
  opt_Authz_DbConnectionString :: string
  opt_MLSValidation_GRPCAddress :: string
  opt_StaticNodes :: "string list"
  opt_Metrics_Enable :: bool
  opt_Relay_Disable :: bool
  opt_Relay_Topics :: "string list"

definition ValidateOptions :: "Options \<Rightarrow> go_error option" where
  "ValidateOptions opts =
     (if opt_LogEncoding opts \<noteq> ''json'' \<and> opt_LogEncoding opts \<noteq> ''console''
      then Some (Err (''invalid log encoding: '' @ opt_LogEncoding opts)) else None)"

definition env_or :: "(string \<Rightarrow> string option) \<Rightarrow> string \<Rightarrow> string \<Rightarrow> string" where
  "env_or LookupEnv name old = (case LookupEnv name of Some connStr \<Rightarrow> connStr | None \<Rightarrow> old)"

definition addEnvVars :: "(string \<Rightarrow> string option) \<Rightarrow> Options \<Rightarrow> Options" where
  "addEnvVars LookupEnv opts = opts\<lparr>
     opt_Store_DbConnectionString := env_or LookupEnv ''MESSAGE_DB_CONNECTION_STRING'' (opt_Store_DbConnectionString opts),
     opt_Store_DbReaderConnectionString := env_or LookupEnv ''MESSAGE_DB_READER_CONNECTION_STRING''
       (opt_Store_DbReaderConnectionString opts),
     opt_MLSStore_DbConnectionString := env_or LookupEnv ''MLS_DB_CONNECTION_STRING'' (opt_MLSStore_DbConnectionString opts),
     opt_Authz_DbConnectionString := env_or LookupEnv ''AUTHZ_DB_CONNECTION_STRING'' (opt_Authz_DbConnectionString opts)\<rparr>"

text \<open>
  pkg/server/logger.go: \<open>levelSet\<close> parses a level of the logging library (debug is -1, info 0, warn 1), and
  \<open>build\<close> is its configuration, whose result is the level that can be changed later.
\<close>

definition BuildLogger :: "(string \<Rightarrow> int result) \<Rightarrow> (string \<Rightarrow> int \<Rightarrow> go_error option) \<Rightarrow> Options \<Rightarrow> int result" where
  "BuildLogger levelSet build options =
     (case levelSet (opt_LogLevel options) of
        Inl e \<Rightarrow> Inl e
      | Inr level \<Rightarrow> (case build (opt_LogEncoding options) level of Some e \<Rightarrow> Inl e | None \<Rightarrow> Inr level))"

definition level_enabled :: "int \<Rightarrow> int \<Rightarrow> bool" where
  "level_enabled level l \<longleftrightarrow> level \<le> l"

text \<open>What SIGUSR1 does to the level.\<close>

definition toggle_level :: "int \<Rightarrow> int" where
  "toggle_level level = (if level_enabled level (- 1) then 0 else - 1)"

text \<open>Two toggles restore debug and info only; a node that logs warnings or errors ends up logging at info.\<close>

lemma toggle_twice: "toggle_level (toggle_level level) = level \<longleftrightarrow> level = - 1 \<or> level = 0"
  by (auto simp: toggle_level_def level_enabled_def)

datatype run_mode =
    BadOptions go_error | BadLogger go_error | PrintVersion | WriteKey | NewMessageMigration string | NewAuthzMigration string
  | NewMlsMigration string | RunServer Options

definition main_mode :: "(string \<Rightarrow> string option) \<Rightarrow> int result \<Rightarrow> Options \<Rightarrow> run_mode" where
  "main_mode LookupEnv logger options =
     (case (ValidateOptions options, logger) of
        (Some e, _) \<Rightarrow> BadOptions e
      | (None, Inl e) \<Rightarrow> BadLogger e
      | (None, Inr level) \<Rightarrow>
          let opts = addEnvVars LookupEnv options in
          if opt_Version opts then PrintVersion
          else if opt_GenerateKey opts then WriteKey
          else if opt_CreateMessageMigration opts \<noteq> [] \<and> opt_Store_DbConnectionString opts \<noteq> []
          then NewMessageMigration (opt_CreateMessageMigration opts)
          else if opt_CreateAuthzMigration opts \<noteq> [] \<and> opt_Authz_DbConnectionString opts \<noteq> []
          then NewAuthzMigration (opt_CreateAuthzMigration opts)
          else if opt_CreateMlsMigration opts \<noteq> [] \<and> opt_MLSStore_DbConnectionString opts \<noteq> []
          then NewMlsMigration (opt_CreateMlsMigration opts)
          else RunServer opts)"

text \<open>A migration that is asked for without a database to name is not refused: the node starts instead.\<close>

lemma migration_without_db_starts_node:
  assumes "ValidateOptions opts = None" and "\<not> opt_Version opts" and "\<not> opt_GenerateKey opts"
    and "opt_CreateMessageMigration opts = []" and "opt_CreateAuthzMigration opts = []"
    and "opt_MLSStore_DbConnectionString opts = []" and "LookupEnv ''MLS_DB_CONNECTION_STRING'' = None"
  shows "main_mode LookupEnv (Inr level) opts = RunServer (addEnvVars LookupEnv opts)"
  using assms by (simp add: main_mode_def addEnvVars_def env_or_def Let_def)

section \<open>Signals\<close>

text \<open>
  The process after start-up: the server goroutine is in \<open>WaitForShutdown\<close> and wakes up on SIGINT and
  SIGTERM only; the main goroutine wakes up on four signals or when the server is done, cancels the context,
  and waits for the server goroutine.
\<close>

datatype signal = SIGHUP | SIGINT | SIGTERM | SIGQUIT

record process =
  server_done :: bool
  cancelled :: bool

definition running :: process where
  "running = \<lparr>server_done = False, cancelled = False\<rparr>"

definition deliver :: "signal \<Rightarrow> process \<Rightarrow> process" where
  "deliver sig p =
     (let p1 = (if sig = SIGINT \<or> sig = SIGTERM then p\<lparr>server_done := True\<rparr> else p)
      in p1\<lparr>cancelled := True\<rparr>)"

definition exited :: "process \<Rightarrow> bool" where
  "exited p \<longleftrightarrow> cancelled p \<and> server_done p"

lemma deliver_simps [simp]:
  "server_done (deliver sig p) \<longleftrightarrow> sig = SIGINT \<or> sig = SIGTERM \<or> server_done p" "cancelled (deliver sig p)"
  by (auto simp: deliver_def Let_def)

lemma fold_deliver:
  "server_done (fold deliver sigs p) \<longleftrightarrow> SIGINT \<in> set sigs \<or> SIGTERM \<in> set sigs \<or> server_done p"
  "cancelled (fold deliver sigs p) \<longleftrightarrow> sigs \<noteq> [] \<or> cancelled p"
  by (induction sigs arbitrary: p) auto

text \<open>SIGHUP and SIGQUIT are caught, stop the background work, and then the process waits for ever.\<close>

lemma only_two_signals_end_the_process:
  "exited (fold deliver sigs running) \<longleftrightarrow> SIGINT \<in> set sigs \<or> SIGTERM \<in> set sigs"
  by (auto simp: exited_def fold_deliver running_def)

lemma hangup_hangs: "cancelled (deliver SIGHUP running) \<and> \<not> exited (deliver SIGHUP running)"
  by (simp add: exited_def running_def)

section \<open>Waiting for a database\<close>

text \<open>
  The loop of \<open>createDB\<close>: \<open>pings i\<close> is the outcome of the \<open>i\<close>th ping and \<open>lat i\<close> the time it takes beside the
  three seconds of sleep before it. Times are in nanoseconds. The loop ends because the clock advances.
\<close>

definition ping_pause :: int where
  "ping_pause = 3000000000"

function ping_loop :: "(nat \<Rightarrow> go_error option) \<Rightarrow> (nat \<Rightarrow> nat) \<Rightarrow> int \<Rightarrow> nat \<Rightarrow> int \<Rightarrow> nat" where
  "ping_loop pings lat waitUntil i now =
     (if pings i \<noteq> None \<and> now < waitUntil
      then ping_loop pings lat waitUntil (Suc i) (now + ping_pause + int (lat (Suc i))) else i)"
  by auto
termination
  by (relation "measure (\<lambda>(pings, lat, waitUntil, i, now). nat (waitUntil - now))") (auto simp: ping_pause_def)

declare ping_loop.simps [simp del]

definition createDB :: "(nat \<Rightarrow> go_error option) \<Rightarrow> (nat \<Rightarrow> nat) \<Rightarrow> int \<Rightarrow> int \<Rightarrow> int \<Rightarrow> int option result" where
  "createDB pings lat start waitForDB maxOpenConns =
     (let conns = (if 0 < maxOpenConns then Some maxOpenConns else None);
          last_ping = ping_loop pings lat (start + waitForDB) 0 (start + int (lat 0))
      in if pings last_ping \<noteq> None then Inl (Err ''timeout waiting for db'') else Inr conns)"

text \<open>The time at which the \<open>i\<close>th ping has ended.\<close>

definition pinged_at :: "(nat \<Rightarrow> nat) \<Rightarrow> int \<Rightarrow> nat \<Rightarrow> int" where
  "pinged_at lat start i = start + ping_pause * int i + (\<Sum>j \<le> i. int (lat j))"

lemma pinged_at_Suc: "pinged_at lat start (Suc i) = pinged_at lat start i + ping_pause + int (lat (Suc i))"
  by (simp add: pinged_at_def algebra_simps)

lemma pinged_at_ge: "start + ping_pause * int i \<le> pinged_at lat start i"
  by (simp add: pinged_at_def sum_nonneg)

lemma ping_loop_last:
  fixes pings lat waitUntil start
  defines "n i \<equiv> ping_loop pings lat waitUntil i (pinged_at lat start i)"
  shows "i \<le> n i \<and> (\<forall>j. i \<le> j \<and> j < n i \<longrightarrow> pings j \<noteq> None \<and> pinged_at lat start j < waitUntil) \<and>
    (pings (n i) = None \<or> waitUntil \<le> pinged_at lat start (n i))"
proof (induction "nat (waitUntil - pinged_at lat start i)" arbitrary: i rule: less_induct)
  case less
  show ?case
  proof (cases "pings i \<noteq> None \<and> pinged_at lat start i < waitUntil")
    case True
    have "n i = n (Suc i)"
      using True by (simp add: n_def pinged_at_Suc ping_loop.simps [of pings lat waitUntil i])
    moreover have "nat (waitUntil - pinged_at lat start (Suc i)) < nat (waitUntil - pinged_at lat start i)"
      using True by (simp add: pinged_at_Suc ping_pause_def)
    ultimately show ?thesis using less.hyps [of "Suc i"] True by (metis Suc_leD le_antisym not_less_eq_eq)
  next
    case False
    then have "n i = i" by (auto simp: n_def ping_loop.simps [of pings lat waitUntil i])
    then show ?thesis using False by auto
  qed
qed

text \<open>
  The node waits for a database as long as it was told to and no longer than one more ping: the start
  succeeds exactly when some ping succeeded and all pings before it ended, without success, within the
  waiting time; and no ping is sent whose predecessor did not, so there are at most
  \<open>waitForDB / 3s + 2\<close> of them.
\<close>

theorem createDB_waits:
  assumes "0 \<le> waitForDB"
  shows "(createDB pings lat start waitForDB maxOpenConns \<noteq> Inl (Err ''timeout waiting for db'') \<longleftrightarrow>
      (\<exists>k. pings k = None \<and> (\<forall>j < k. pings j \<noteq> None \<and> pinged_at lat start j < start + waitForDB))) \<and>
    ping_loop pings lat (start + waitForDB) 0 (start + int (lat 0)) \<le> nat (waitForDB div ping_pause) + 1"
proof -
  let ?n = "ping_loop pings lat (start + waitForDB) 0 (pinged_at lat start 0)"
  have z: "pinged_at lat start 0 = start + int (lat 0)" by (simp add: pinged_at_def)
  note n = ping_loop_last [of 0 pings lat "start + waitForDB" start]
  have "(\<exists>k. pings k = None \<and> (\<forall>j < k. pings j \<noteq> None \<and> pinged_at lat start j < start + waitForDB)) \<longleftrightarrow> pings ?n = None"
  proof
    assume "\<exists>k. pings k = None \<and> (\<forall>j < k. pings j \<noteq> None \<and> pinged_at lat start j < start + waitForDB)"
    then obtain k where k: "pings k = None" "\<forall>j < k. pings j \<noteq> None \<and> pinged_at lat start j < start + waitForDB" by blast
    then have "?n = k" using n by (metis (no_types, lifting) le0 linorder_neqE_nat not_less)
    then show "pings ?n = None" using k by simp
  qed (use n in blast)
  moreover have "?n \<le> nat (waitForDB div ping_pause) + 1"
  proof (cases ?n)
    case (Suc m)
    then have "pinged_at lat start m < start + waitForDB" using n by simp
    then have "ping_pause * int m < waitForDB" using pinged_at_ge [of start m lat] by linarith
    then have "int m \<le> waitForDB div ping_pause"
      using zdiv_mono1 [of "ping_pause * int m" waitForDB ping_pause] by (simp add: ping_pause_def)
    then show ?thesis using Suc by linarith
  qed simp
  ultimately show ?thesis by (auto simp: createDB_def Let_def z)
qed

theorem createDB_waits_witness:
  "createDB (\<lambda>i. if i < 2 then Some (Err ''refused'') else None) (\<lambda>_. 0) 0 6000000000 5 \<noteq> Inl (Err ''timeout waiting for db'')"
proof -
  let ?pings = "\<lambda>i :: nat. if i < 2 then Some (Err ''refused'') else None"
  have "\<forall>j < 2. ?pings j \<noteq> None \<and> pinged_at (\<lambda>_. 0) 0 j < 0 + 6000000000" by (auto simp: pinged_at_def ping_pause_def)
  moreover have "?pings 2 = None" by simp
  moreover have "(0 :: int) \<le> 6000000000" by simp
  ultimately show ?thesis using createDB_waits [of 6000000000 ?pings "\<lambda>_. 0" 0 5] by blast
qed


text \<open>
  The pools of pgx (pgxdb.go): \<open>parse\<close>, \<open>pool\<close> and \<open>ping\<close> are the errors of the steps. The timeout of a
  statement is handed to Postgres in whole milliseconds.
\<close>

definition WaitUntilDBReady :: "go_error option \<Rightarrow> go_error option" where
  "WaitUntilDBReady ping = (case ping of Some e \<Rightarrow> Some (Err ''database is not ready'') | None \<Rightarrow> None)"

definition Milliseconds :: "nat \<Rightarrow> nat" where
  "Milliseconds d = d div 1000000"

definition NewPGXDB :: "go_error option \<Rightarrow> go_error option \<Rightarrow> go_error option \<Rightarrow> nat \<Rightarrow> nat result" where
  "NewPGXDB parse pool ping statementTimeout =
     (case parse of
        Some e \<Rightarrow> Inl e
      | None \<Rightarrow> (case pool of
            Some e \<Rightarrow> Inl e
          | None \<Rightarrow> (case WaitUntilDBReady ping of Some e \<Rightarrow> Inl e | None \<Rightarrow> Inr (Milliseconds statementTimeout))))"

text \<open>Postgres reads a timeout of 0 as none, so a timeout below one millisecond switches the limit off.\<close>

lemma short_timeout_is_none: "NewPGXDB None None None d = Inr 0 \<longleftrightarrow> d < 1000000"
  by (auto simp: NewPGXDB_def WaitUntilDBReady_def Milliseconds_def div_eq_0_iff)

text \<open>
  The three commands that create a migration: the files the library wrote are printed also when it reports an
  error. The third, for the MLS database, prints the words of the second.
\<close>

definition create_migration :: "string \<Rightarrow> go_error option \<Rightarrow> (string \<times> string) list \<Rightarrow> go_error option \<Rightarrow>
    string list \<times> go_error option" where
  "create_migration kind dbErr mfs err =
     (case dbErr of
        Some e \<Rightarrow> ([], Some e)
      | None \<Rightarrow> (map (\<lambda>(name, path). ''created '' @ kind @ '' migration '' @ name @ '' ('' @ path @ '')'') mfs, err))"

definition CreateMessageMigration :: "go_error option \<Rightarrow> (string \<times> string) list \<Rightarrow> go_error option \<Rightarrow> string list \<times> go_error option" where
  "CreateMessageMigration = create_migration ''message''"

definition CreateAuthzMigration :: "go_error option \<Rightarrow> (string \<times> string) list \<Rightarrow> go_error option \<Rightarrow> string list \<times> go_error option" where
  "CreateAuthzMigration = create_migration ''authz''"

definition CreateMlsMigration :: "go_error option \<Rightarrow> (string \<times> string) list \<Rightarrow> go_error option \<Rightarrow> string list \<times> go_error option" where
  "CreateMlsMigration = create_migration ''authz''"

section \<open>Parts of the node: New in pkg/server/server.go\<close>

text \<open>
  \<open>New\<close> builds the node from the options, one fallible step after the other; \<open>fault msg\<close> is the error of the
  step whose failure the code wraps in \<open>msg\<close>. The interfaces that are handed to the API server are nil when
  their option is empty.
\<close>

record node_parts =
  np_AllowLister :: bool
  np_Store :: bool
  np_MLSStore :: "string option"
  np_ReadMLSStore :: "string option"
  np_MLSValidator :: bool

fun must :: "(string \<Rightarrow> go_error option) \<Rightarrow> string list \<Rightarrow> go_error option" where
  "must fault [] = None"
| "must fault (msg # msgs) = (case fault msg of Some e \<Rightarrow> Some (Err msg) | None \<Rightarrow> must fault msgs)"

definition relay_topics :: "string \<Rightarrow> Options \<Rightarrow> string list" where
  "relay_topics DefaultWakuTopic opts =
     (if opt_Relay_Disable opts then [] else if opt_Relay_Topics opts = [] then [DefaultWakuTopic] else opt_Relay_Topics opts)"

definition authz_steps :: "Options \<Rightarrow> string list" where
  "authz_steps opts =
     (if opt_Authz_DbConnectionString opts \<noteq> [] then [''creating authz db'', ''creating wallet authorizer''] else [])"

definition store_steps :: "Options \<Rightarrow> string list" where
  "store_steps opts =
     (if opt_Store_Enable opts
      then [''creating db'', ''creating reader db'', ''creating cleaner db'', ''initializing store''] else [])"

definition mls_steps :: "Options \<Rightarrow> string list" where
  "mls_steps opts =
     (if opt_MLSStore_DbConnectionString opts \<noteq> []
      then [''creating mls db'', ''creating mls reader db'', ''creating mls store''] else [])"

definition New_steps :: "string \<Rightarrow> Options \<Rightarrow> string list" where
  "New_steps DefaultWakuTopic opts =
     [''resolving host address'', ''getting private key'', ''deriving peer id from private key''] @
     (if opt_Metrics_Enable opts then [''initializing metrics server''] else []) @
     authz_steps opts @ store_steps opts @
     [''parsing log level'', ''initializing waku node'', ''starting waku node''] @
     map (\<lambda>_. ''subscribing to pubsub topic'') (relay_topics DefaultWakuTopic opts) @
     [''getting listen addresses''] @ mls_steps opts @
     (if opt_MLSValidation_GRPCAddress opts \<noteq> [] then [''creating mls validation service''] else []) @
     [''initializing grpc server'']"

definition New_parts :: "Options \<Rightarrow> node_parts" where
  "New_parts opts =
     (let mls = opt_MLSStore_DbConnectionString opts; reader = opt_MLSStore_DbReaderConnectionString opts
      in \<lparr>np_AllowLister = (opt_Authz_DbConnectionString opts \<noteq> []), np_Store = opt_Store_Enable opts,
          np_MLSStore = (if mls \<noteq> [] then Some mls else None),
          np_ReadMLSStore = (if mls \<noteq> [] then Some (if reader = [] then mls else reader) else None),
          np_MLSValidator = (opt_MLSValidation_GRPCAddress opts \<noteq> [])\<rparr>)"

definition server_New :: "string \<Rightarrow> (string \<Rightarrow> go_error option) \<Rightarrow> Options \<Rightarrow> node_parts result" where
  "server_New DefaultWakuTopic fault opts =
     (case must fault (New_steps DefaultWakuTopic opts) of Some e \<Rightarrow> Inl e | None \<Rightarrow> Inr (New_parts opts))"

lemma must_None: "must fault msgs = None \<longleftrightarrow> (\<forall>msg \<in> set msgs. fault msg = None)"
  by (induction msgs) (auto split: option.split)

text \<open>An option that is not set cannot make the start fail, and what the node has is what the options name.\<close>

lemma must_cong: "(\<And>msg. msg \<in> set msgs \<Longrightarrow> f msg = g msg) \<Longrightarrow> must f msgs = must g msgs"
  by (induction msgs) (auto split: option.split)

lemma server_New_unused: "msg \<notin> set (New_steps w opts) \<Longrightarrow> server_New w (fault(msg := e)) opts = server_New w fault opts"
proof -
  assume "msg \<notin> set (New_steps w opts)"
  then have "must (fault(msg := e)) (New_steps w opts) = must fault (New_steps w opts)" by (intro must_cong) auto
  then show ?thesis unfolding server_New_def by (rule arg_cong)
qed

lemma server_New_ok: "server_New w fault opts = Inr np \<longleftrightarrow> np = New_parts opts \<and> (\<forall>msg \<in> set (New_steps w opts). fault msg = None)"
  by (auto simp: server_New_def must_None [symmetric] split: option.split)

datatype Backfiller = IsCommitBackfiller | InstallationsBackfiller

definition startMLSBackfillers :: "node_parts \<Rightarrow> Backfiller list" where
  "startMLSBackfillers np =
     (if np_MLSStore np = None then []
      else (if np_MLSValidator np then [IsCommitBackfiller] else []) @ [InstallationsBackfiller])"

section \<open>Static peers\<close>

text \<open>\<open>New\<close> skips the addresses that do not parse; the connect loop reads the id of each, parsed or not.\<close>

definition directPeers :: "(string \<Rightarrow> 'i option) \<Rightarrow> string list \<Rightarrow> 'i list" where
  "directPeers parse staticNodes = List.map_filter parse staticNodes"

fun staticNodePeerIDs :: "(string \<Rightarrow> 'i option) \<Rightarrow> string list \<Rightarrow> 'i list result" where
  "staticNodePeerIDs parse [] = Inr []"
| "staticNodePeerIDs parse (peerAddr # addrs) =
     (case parse peerAddr of
        None \<Rightarrow> Inl (Panic ''nil pointer dereference'')
      | Some i \<Rightarrow> (case staticNodePeerIDs parse addrs of Inl e \<Rightarrow> Inl e | Inr ids \<Rightarrow> Inr (i # ids)))"

definition redial :: "'i list \<Rightarrow> string list \<Rightarrow> 'i set \<Rightarrow> string list" where
  "redial ids staticNodes peers = map snd (filter (\<lambda>(i, peerAddr). i \<notin> peers) (zip ids staticNodes))"

text \<open>The dials of the loop, given the peers connected at each tick: all nodes at first, then each tick's.\<close>

definition staticNodesConnectLoop :: "(string \<Rightarrow> 'i option) \<Rightarrow> string list \<Rightarrow> 'i set list \<Rightarrow> string list list \<times> go_error option" where
  "staticNodesConnectLoop parse staticNodes ticks =
     (case staticNodePeerIDs parse staticNodes of
        Inl e \<Rightarrow> ([staticNodes], Some e)
      | Inr ids \<Rightarrow> (staticNodes # map (redial ids staticNodes) ticks, None))"

lemma staticNodePeerIDs_eq:
  "staticNodePeerIDs parse addrs =
     (if \<exists>a \<in> set addrs. parse a = None then Inl (Panic ''nil pointer dereference'') else Inr (map (the \<circ> parse) addrs))"
  by (induction addrs) (auto split: option.split)

lemma redial_eq: "redial (map f addrs) addrs peers = filter (\<lambda>a. f a \<notin> peers) addrs"
  by (induction addrs) (auto simp: redial_def)

text \<open>
  A static node that is lost is dialled again at the next tick, and no other is: when all addresses
  parse, every tick dials exactly the nodes that are not connected. One address that does not parse, which
  the start-up skips with a log line, makes the loop dereference a nil address, and the panic ends the node.
\<close>

theorem static_nodes_redialled:
  "staticNodesConnectLoop parse staticNodes ticks =
     (if \<forall>a \<in> set staticNodes. parse a \<noteq> None
      then (staticNodes # map (\<lambda>peers. filter (\<lambda>a. the (parse a) \<notin> peers) staticNodes) ticks, None)
      else ([staticNodes], Some (Panic ''nil pointer dereference'')))"
  by (auto simp: staticNodesConnectLoop_def staticNodePeerIDs_eq redial_eq comp_def simp flip: map_map)

theorem static_nodes_redialled_witness:
  "staticNodesConnectLoop (\<lambda>a. if a = ''/ip4/a'' then Some 1 else if a = ''/ip4/b'' then Some (2 :: nat) else None)
     [''/ip4/a'', ''/ip4/b''] [{1}, {1, 2}, {}] =
     ([[''/ip4/a'', ''/ip4/b''], [''/ip4/b''], [], [''/ip4/a'', ''/ip4/b'']], None)"
  by (simp add: static_nodes_redialled)

text \<open>
  The metrics loop counts how many of the static peers that parse are connected, and is silent when there
  are none; \<open>None\<close> is a tick without that count.
\<close>

definition bootstrapPeers :: "(string \<Rightarrow> 'i option) \<Rightarrow> string list \<Rightarrow> 'i set" where
  "bootstrapPeers parse staticNodes = fold (\<lambda>addr s. case parse addr of None \<Rightarrow> s | Some i \<Rightarrow> insert i s) staticNodes {}"

definition statusMetricsLoop :: "(string \<Rightarrow> 'i option) \<Rightarrow> string list \<Rightarrow> 'i set list \<Rightarrow> nat option list" where
  "statusMetricsLoop parse staticNodes ticks =
     (let boot = bootstrapPeers parse staticNodes
      in map (\<lambda>peers. if 0 < card boot then Some (card (boot \<inter> peers)) else None) ticks)"

lemma bootstrapPeers_eq: "bootstrapPeers parse staticNodes = {i. \<exists>a \<in> set staticNodes. parse a = Some i}"
proof -
  have "fold (\<lambda>addr s. case parse addr of None \<Rightarrow> s | Some i \<Rightarrow> insert i s) staticNodes s =
      s \<union> {i. \<exists>a \<in> set staticNodes. parse a = Some i}" for s
    by (induction staticNodes arbitrary: s) (auto split: option.split)
  then show ?thesis by (simp add: bootstrapPeers_def)
qed

section \<open>Shutdown\<close>

datatype part = WakuNode | MessageDB | ReaderDB | CleanerDB | MessageStore | MlsDB | MetricsServer | GrpcServer | BackfillerOf Backfiller | ServerContext

text \<open>The order in which \<open>Shutdown\<close> closes what exists.\<close>

definition Shutdown :: "bool \<Rightarrow> bool \<Rightarrow> node_parts \<Rightarrow> part list" where
  "Shutdown metrics grpc np =
     WakuNode # (if np_Store np then [MessageDB, ReaderDB, CleanerDB, MessageStore] else []) @
     (if np_MLSStore np \<noteq> None then [MlsDB] else []) @
     (if metrics then [MetricsServer] else []) @ (if grpc then [GrpcServer] else []) @
     map BackfillerOf (startMLSBackfillers np) @ [ServerContext]"

definition before :: "'a \<Rightarrow> 'a \<Rightarrow> 'a list \<Rightarrow> bool" where
  "before x y xs \<longleftrightarrow> (\<exists>as bs cs. xs = as @ x # bs @ y # cs)"

text \<open>
  The MLS database is closed while the gRPC server still serves requests on it and the backfillers still run.
\<close>

lemma database_closed_under_its_users:
  assumes "np_MLSStore np \<noteq> None"
  shows "before MlsDB GrpcServer (Shutdown metrics True np)"
    and "b \<in> set (startMLSBackfillers np) \<Longrightarrow> before MlsDB (BackfillerOf b) (Shutdown metrics grpc np)"
proof -
  let ?pre = "WakuNode # (if np_Store np then [MessageDB, ReaderDB, CleanerDB, MessageStore] else [])"
  show "before MlsDB GrpcServer (Shutdown metrics True np)"
    unfolding before_def
    by (rule exI [of _ ?pre], rule exI [of _ "if metrics then [MetricsServer] else []"],
        rule exI [of _ "map BackfillerOf (startMLSBackfillers np) @ [ServerContext]"]) (use assms in \<open>simp add: Shutdown_def\<close>)
  assume "b \<in> set (startMLSBackfillers np)"
  then obtain us vs where "startMLSBackfillers np = us @ b # vs" by (meson split_list)
  then show "before MlsDB (BackfillerOf b) (Shutdown metrics grpc np)"
    unfolding before_def
    by (intro exI [of _ ?pre] exI [of _ "(if metrics then [MetricsServer] else []) @ (if grpc then [GrpcServer] else []) @ map BackfillerOf us"]
        exI [of _ "map BackfillerOf vs @ [ServerContext]"]) (use assms in \<open>simp add: Shutdown_def\<close>)
qed

end
