(* ===== verification/Api_Server.thy ===== *)
theory Api_Server
  imports Gateway Message_Api Node_Server
begin

text \<open>
  The API server: pkg/api/server.go, config.go, telemetry.go and gzip_handler.go. Modelled are the
  decisions of its start (which services are registered, with which cutover, behind which interceptors),
  the relay broadcast loop, the HTTP front (CORS, compression, routing, forwarded headers), what the
  telemetry interceptor derives from a call, and the order of \<open>Close\<close>. Listeners and the gRPC and
  HTTP libraries are parameters: \<open>fault msg\<close> is the error of the step whose failure is wrapped in \<open>msg\<close>,
  \<open>resolve\<close> is \<open>net.ResolveTCPAddr\<close>.
\<close>

section \<open>Configuration: config.go\<close>

record Config =
  cf_GRPCAddress :: string
  cf_GRPCPort :: u64
  cf_HTTPAddress :: string
  cf_HTTPPort :: u64
  cf_Ratelimits :: bool
  cf_EnableMLS :: bool
  cf_DisableMLSPublish :: bool
  cf_EnableMigration :: bool
  cf_D14NCutoverNs :: u64
  cf_Log :: bool
  cf_Waku :: bool
  cf_Store :: bool
  cf_AllowLister :: "allow_list option"
  cf_MLSStore :: bool
  cf_MLSValidator :: bool
  cf_RateLimiter :: "limiter option"

fun decimal :: "nat \<Rightarrow> string" where
  "decimal n = (if n < 10 then [char_of (48 + n)] else decimal (n div 10) @ [char_of (48 + n mod 10)])"

declare decimal.simps [simp del]

definition Itoa :: "int \<Rightarrow> string" where
  "Itoa i = (if i < 0 then CHR ''-'' # decimal (nat (- i)) else decimal (nat i))"

definition addrString :: "string \<Rightarrow> u64 \<Rightarrow> string" where
  "addrString addr port =
     (let p = Itoa (go_int64 port)
      in if CHR '':'' \<in> set addr then ''['' @ addr @ '']:'' @ p else addr @ '':'' @ p)"

definition validate :: "(string \<Rightarrow> go_error option) \<Rightarrow> Config \<Rightarrow> go_error option" where
  "validate resolve cfg =
     (if \<not> cf_Log cfg then Some (Err ''missing log config'')
      else if \<not> cf_Waku cfg then Some (Err ''missing waku config'')
      else if \<not> cf_Store cfg then Some (Err ''missing store config'')
      else if resolve (addrString (cf_HTTPAddress cfg) (cf_HTTPPort cfg)) \<noteq> None then Some (Err ''Invalid HTTP Address'')
      else if resolve (addrString (cf_GRPCAddress cfg) (cf_GRPCPort cfg)) \<noteq> None then Some (Err ''Invalid GRPC Address'')
      else None)"

section \<open>Start: startGRPC and startHTTP\<close>

datatype api_service = MessageApi | D14NMigrationApi | MlsApi | IdentityApi

record api_server =
  sv_grpc :: "api_service list"
  sv_http :: "api_service list"
  sv_cutoverChecker :: "u64 option"
  sv_migration :: "u64 option"

definition mls_enabled :: "Config \<Rightarrow> bool" where
  "mls_enabled cfg \<longleftrightarrow> cf_MLSStore cfg \<and> cf_MLSValidator cfg \<and> cf_EnableMLS cfg"

definition startGRPC :: "(string \<Rightarrow> go_error option) \<Rightarrow> Config \<Rightarrow> api_server result" where
  "startGRPC fault cfg =
     (case must fault [''creating grpc listener'', ''creating message service''] of
        Some e \<Rightarrow> Inl e
      | None \<Rightarrow>
          if cf_EnableMigration cfg \<and> cf_D14NCutoverNs cfg = 0
          then Inl (Err ''d14n-cutover-ns must be specified when migration is enabled'')
          else
            let checker = (if cf_EnableMigration cfg then Some (cf_D14NCutoverNs cfg) else None) in
            case must fault ((if mls_enabled cfg then [''creating mls service'', ''creating identity service''] else []) @
                [''subscribing to relay'']) of
              Some e \<Rightarrow> Inl e
            | None \<Rightarrow> Inr \<lparr>
                sv_grpc = [MessageApi] @ (if cf_EnableMigration cfg then [D14NMigrationApi] else []) @
                  (if mls_enabled cfg then [MlsApi, IdentityApi] else []),
                sv_http = [], sv_cutoverChecker = checker, sv_migration = checker\<rparr>)"

definition http_services :: "Config \<Rightarrow> api_service list" where
  "http_services cfg = [MessageApi] @ (if cf_MLSStore cfg \<and> cf_EnableMLS cfg then [MlsApi, IdentityApi] else []) @
     (if cf_EnableMigration cfg then [D14NMigrationApi] else [])"

definition startHTTP :: "(string \<Rightarrow> go_error option) \<Rightarrow> Config \<Rightarrow> api_server \<Rightarrow> api_server result" where
  "startHTTP fault cfg srv =
     (case must fault ([''dialing grpc server'', ''registering message handler''] @
         (if cf_MLSStore cfg \<and> cf_EnableMLS cfg then [''registering mls handler'', ''registering identity handler''] else []) @
         (if cf_EnableMigration cfg then [''registering migration handler''] else []) @ [''creating grpc-gateway listener'']) of
        Some e \<Rightarrow> Inl e
      | None \<Rightarrow> Inr (srv\<lparr>sv_http := http_services cfg\<rparr>))"

definition api_New :: "(string \<Rightarrow> go_error option) \<Rightarrow> (string \<Rightarrow> go_error option) \<Rightarrow> Config \<Rightarrow> api_server result" where
  "api_New resolve fault cfg =
     (case validate resolve cfg of
        Some e \<Rightarrow> Inl e
      | None \<Rightarrow> (case startGRPC fault cfg of Inl e \<Rightarrow> Inl e | Inr srv \<Rightarrow> startHTTP fault cfg srv))"

text \<open>What the constructors of the MLS and the identity service are given.\<close>

definition wire_service :: "Config \<Rightarrow> api_server \<Rightarrow> mls_service \<Rightarrow> mls_service" where
  "wire_service cfg srv s = s\<lparr>disablePublish := cf_DisableMLSPublish cfg, cutoverChecker := sv_cutoverChecker srv\<rparr>"

lemma startGRPC_ok:
  assumes "startGRPC fault cfg = Inr srv"
  shows "cf_EnableMigration cfg \<Longrightarrow> cf_D14NCutoverNs cfg \<noteq> 0"
    and "sv_cutoverChecker srv = (if cf_EnableMigration cfg then Some (cf_D14NCutoverNs cfg) else None)"
    and "sv_migration srv = sv_cutoverChecker srv"
    and "set (sv_grpc srv) = {MessageApi} \<union> (if cf_EnableMigration cfg then {D14NMigrationApi} else {}) \<union>
      (if mls_enabled cfg then {MlsApi, IdentityApi} else {})"
  using assms by (auto simp: startGRPC_def Let_def simp del: must.simps split: option.split_asm if_split_asm)

lemma api_New_ok:
  assumes "api_New resolve fault cfg = Inr srv"
  obtains srv0 where "startGRPC fault cfg = Inr srv0" and "srv = srv0\<lparr>sv_http := http_services cfg\<rparr>"
    and "validate resolve cfg = None"
  using assms by (auto simp: api_New_def startHTTP_def simp del: must.simps split: option.split_asm sum.split_asm)


text \<open>The HTTP front forwards the MLS routes also when no validation service is configured and gRPC does not serve them.\<close>

lemma http_routes_served:
  assumes "api_New resolve fault cfg = Inr srv"
  shows "set (sv_http srv) \<subseteq> set (sv_grpc srv) \<longleftrightarrow> cf_MLSValidator cfg \<or> \<not> (cf_MLSStore cfg \<and> cf_EnableMLS cfg)"
proof -
  obtain srv0 where s: "startGRPC fault cfg = Inr srv0" "srv = srv0\<lparr>sv_http := http_services cfg\<rparr>"
    using api_New_ok [OF assms] .
  show ?thesis using s(2) startGRPC_ok(4) [OF s(1)] by (auto simp: http_services_def mls_enabled_def)
qed

definition test_config :: Config where
  "test_config = \<lparr>cf_GRPCAddress = ''0.0.0.0'', cf_GRPCPort = 5556, cf_HTTPAddress = ''::1'', cf_HTTPPort = 5555,
     cf_Ratelimits = True, cf_EnableMLS = True, cf_DisableMLSPublish = False, cf_EnableMigration = True,
     cf_D14NCutoverNs = 1000, cf_Log = True, cf_Waku = True, cf_Store = True, cf_AllowLister = None, cf_MLSStore = True,
     cf_MLSValidator = True, cf_RateLimiter = None\<rparr>"

lemma test_config_starts: "\<exists>srv. api_New (\<lambda>_. None) (\<lambda>_. None) test_config = Inr srv \<and> sv_grpc srv = [MessageApi, D14NMigrationApi, MlsApi, IdentityApi]"
  by (simp add: api_New_def validate_def startGRPC_def startHTTP_def test_config_def mls_enabled_def Let_def)



section \<open>Interceptors\<close>

text \<open>
  A unary call: prometheus and telemetry only observe, then come the gate and, with rate limits on, the limiter.
  The limiter asks the allow list it was given, which is nil when the node has no authorisation database.
\<close>

definition intercepted :: "Config \<Rightarrow> gate_env \<Rightarrow> request_context \<Rightarrow> api_request \<Rightarrow> int \<Rightarrow> limiter \<times> 's \<Rightarrow> ('s \<Rightarrow> 's \<times> 'a result) \<Rightarrow>
    (limiter \<times> 's) \<times> 'a result" where
  "intercepted cfg g ctx req now st handler =
     (if cf_Ratelimits cfg
      then (case cf_AllowLister cfg of
              Some al \<Rightarrow> serve g al ctx req now st handler
            | None \<Rightarrow> (case gate g ctx of Some e \<Rightarrow> (st, Inl e) | None \<Rightarrow> (st, Inl (Panic ''nil pointer dereference''))))
      else (case gate g ctx of
              Some e \<Rightarrow> (st, Inl e)
            | None \<Rightarrow> (case handler (snd st) of (s', r) \<Rightarrow> ((fst st, s'), r))))"

definition RATE_LIMITER_EXPIRES_AFTER :: int where
  "RATE_LIMITER_EXPIRES_AFTER = 60 * minute"

definition getOrCreateRateLimiter :: "Config \<Rightarrow> limiter" where
  "getOrCreateRateLimiter cfg = (case cf_RateLimiter cfg of Some rl \<Rightarrow> rl | None \<Rightarrow> NewTokenBucketRateLimiter)"

text \<open>With rate limits on and no authorisation database, no request that passes the gate is ever served.\<close>

lemma ratelimits_need_allow_list:
  assumes "cf_Ratelimits cfg" and "cf_AllowLister cfg = None"
  shows "\<exists>e. intercepted cfg g ctx req now st handler = (st, Inl e)"
  using assms by (cases "gate g ctx") (simp_all add: intercepted_def)

text \<open>Without rate limits the allow list has no effect: an address that is denied is served as any other.\<close>

lemma deny_list_needs_ratelimits:
  assumes "\<not> cf_Ratelimits cfg" and "gate g ctx = None" and "handler (snd st) = (s', r)"
  shows "intercepted (cfg\<lparr>cf_AllowLister := al\<rparr>) g ctx req now st handler = ((fst st, s'), r)"
  using assms by (simp add: intercepted_def)

section \<open>Telemetry: telemetry.go\<close>

definition splitMethodName :: "string \<Rightarrow> string \<times> string" where
  "splitMethodName fullMethodName =
     (let m = (if prefix ''/'' fullMethodName then tl fullMethodName else fullMethodName)
      in if CHR ''/'' \<in> set m
         then (takeWhile (\<lambda>c. c \<noteq> CHR ''/'') m, tl (dropWhile (\<lambda>c. c \<noteq> CHR ''/'') m))
         else (''unknown'', ''unknown''))"

lemma splitMethodName_unknown: "splitMethodName ''Ping'' = (''unknown'', ''unknown'')"
  by (simp add: splitMethodName_def)

definition ZapFields :: "requesterInfo \<Rightarrow> (string \<times> string) list" where
  "ZapFields ri =
     [(''app'', AppName ri), (''app_version'', AppVersion ri), (''client'', ClientName ri), (''client_version'', ClientVersion ri),
      (''is_supported_client'', if IsSupportedClient ri then ''true'' else ''false''), (''libxmtp_version'', LibxmtpVersion ri)]"

text \<open>The code names of the gRPC library; an error without a status counts as unknown.\<close>

definition code_String :: "grpc_code \<Rightarrow> string" where
  "code_String c =
     (case c of
        Canceled \<Rightarrow> ''Canceled'' | InvalidArgument \<Rightarrow> ''InvalidArgument'' | DeadlineExceeded \<Rightarrow> ''DeadlineExceeded''
      | ResourceExhausted \<Rightarrow> ''ResourceExhausted'' | PermissionDenied \<Rightarrow> ''PermissionDenied'' | Unimplemented \<Rightarrow> ''Unimplemented''
      | Unavailable \<Rightarrow> ''Unavailable'' | Internal \<Rightarrow> ''Internal'' | Aborted \<Rightarrow> ''Aborted'')"

definition error_code :: "go_error \<Rightarrow> string" where
  "error_code err = (case err of Status code msg \<Rightarrow> code_String code | _ \<Rightarrow> ''Unknown'')"

text \<open>The fields of a record, but for the texts of the error.\<close>

definition record_fields :: "gate_env \<Rightarrow> request_context \<Rightarrow> string \<Rightarrow> go_error option \<Rightarrow> (string \<times> string) list" where
  "record_fields g ctx fullMethod err =
     (let (serviceName, methodName) = splitMethodName fullMethod;
          ip = ClientIPFromContext ctx
      in [(''service'', serviceName), (''method'', methodName)] @ ZapFields (NewRequesterInfo g ctx) @
         (if ip \<noteq> [] then [(''client_ip'', ip)] else []) @
         (case err of None \<Rightarrow> [] | Some e \<Rightarrow> [(''error_code'', error_code e)]))"

text \<open>No two fields of a record have the same key, so the metrics read each unambiguously.\<close>

lemma record_fields_distinct: "distinct (map fst (record_fields g ctx fullMethod err))"
  by (auto simp: record_fields_def ZapFields_def Let_def split: prod.split option.split)

datatype log_level = DebugLevel | ErrorLevel

definition record_level :: "go_error option \<Rightarrow> log_level" where
  "record_level err =
     (case err of
        None \<Rightarrow> DebugLevel
      | Some (Status code msg) \<Rightarrow> if code = ResourceExhausted \<or> code = InvalidArgument then DebugLevel else ErrorLevel
      | Some _ \<Rightarrow> ErrorLevel)"

lemma splitMethodName_full:
  "CHR ''/'' \<notin> set service \<Longrightarrow> splitMethodName (''/'' @ service @ ''/'' @ m) = (service, m)"
  by (auto simp: splitMethodName_def Let_def takeWhile_append dropWhile_append)

section \<open>The relay broadcast loop\<close>

text \<open>
  \<open>None\<close> is a nil envelope or an envelope without a message. The errors of the handler that the loop would
  log do not arise; what ends it is a panic of the dispatcher.
\<close>

fun broadcast :: "WakuMessage option list \<Rightarrow> dispatcher \<Rightarrow> dispatcher result" where
  "broadcast [] d = Inr d"
| "broadcast (None # envs) d = broadcast envs d"
| "broadcast (Some wakuMsg # envs) d =
     (case HandleIncomingWakuRelayMessage wakuMsg d of Inl e \<Rightarrow> Inl e | Inr d' \<Rightarrow> broadcast envs d')"

lemma broadcast_ignores_nil: "broadcast envs d = broadcast (filter (\<lambda>x. x \<noteq> None) envs) d"
  by (induction envs d rule: broadcast.induct) (auto split: sum.split)

section \<open>The HTTP front\<close>

record http_request =
  hr_Method :: string
  hr_Path :: string
  hr_Header :: "string \<Rightarrow> string"

definition str_contains :: "string \<Rightarrow> string \<Rightarrow> bool" where
  "str_contains s t = list_ex (prefix t) (suffixes s)"

definition ToLower :: "string \<Rightarrow> string" where
  "ToLower = map (\<lambda>c. let n = (of_char c :: nat) in if 65 \<le> n \<and> n \<le> 90 then char_of (n + 32) else c)"

text \<open>gzip_handler.go: only queries are compressed, and only for clients that accept it.\<close>

definition gzipWrapper :: "http_request \<Rightarrow> bool" where
  "gzipWrapper r \<longleftrightarrow> (suffix ''/query'' (hr_Path r) \<or> suffix ''/batch-query'' (hr_Path r)) \<and>
     str_contains (hr_Header r ''Accept-Encoding'') ''gzip''"

definition isErrUseOfClosedConnection :: "string \<Rightarrow> bool" where
  "isErrUseOfClosedConnection err = str_contains err ''use of closed network connection''"

datatype http_route = SwaggerUI | SwaggerJSON | GrpcGateway

definition http_route :: "http_request \<Rightarrow> http_route" where
  "http_route r =
     (if hr_Path r = ''/'' \<or> prefix ''/swagger-ui'' (hr_Path r) then SwaggerUI
      else if hr_Path r = ''/swagger.json'' then SwaggerJSON else GrpcGateway)"

definition preflight_headers :: "string list" where
  "preflight_headers = [''Content-Type'', ''Accept'', ''Authorization'', ''X-App-Version'', ''X-Client-Version'',
     ''X-Libxmtp-Version'', ''Baggage'', ''DNT'', ''Sec-CH-UA'', ''Sec-CH-UA-Mobile'', ''Sec-CH-UA-Platform'', ''Sentry-Trace'',
     ''User-Agent'', ''x-libxmtp-version'', ''x-app-version'']"

definition preflight_methods :: "string list" where
  "preflight_methods = [''GET'', ''HEAD'', ''POST'', ''PUT'', ''PATCH'', ''DELETE'']"

datatype http_outcome = Preflight "string list" "string list" | Handled http_route bool

text \<open>The first component is the \<open>Access-Control-Allow-Origin\<close> of the response.\<close>

definition allowCORS :: "http_request \<Rightarrow> string \<times> http_outcome" where
  "allowCORS r = (''*'',
     if hr_Method r = ''OPTIONS'' \<and> hr_Header r ''Access-Control-Request-Method'' \<noteq> []
      then Preflight preflight_headers preflight_methods
      else Handled (http_route r) (gzipWrapper r))"

definition incomingHeaderMatcher :: "string \<Rightarrow> string \<times> bool" where
  "incomingHeaderMatcher key =
     (key, ToLower key \<in> {''x-app-version'', ''x-client-version'', ''x-libxmtp-version''})"

text \<open>Every header the gateway forwards to the version gate is one a browser is allowed to send.\<close>

lemma forwarded_headers_allowed:
  "snd (incomingHeaderMatcher key) \<Longrightarrow> ToLower key \<in> ToLower ` set preflight_headers"
proof -
  have "ToLower ''X-App-Version'' = ''x-app-version''" "ToLower ''X-Client-Version'' = ''x-client-version''"
    "ToLower ''X-Libxmtp-Version'' = ''x-libxmtp-version''" by code_simp+
  then show "snd (incomingHeaderMatcher key) \<Longrightarrow> ToLower key \<in> ToLower ` set preflight_headers"
    by (auto simp: incomingHeaderMatcher_def preflight_headers_def)
qed

text \<open>The responses of the streaming routes are never compressed, so their messages are not held back.\<close>

lemma streams_not_compressed:
  "hr_Path r \<in> {''/message/v1/subscribe'', ''/message/v1/subscribe-all'', ''/mls/v1/subscribe-group-messages'',
     ''/mls/v1/subscribe-welcome-messages''} \<Longrightarrow> \<not> gzipWrapper r"
  by (auto simp: gzipWrapper_def suffix_to_prefix)

section \<open>Close\<close>

datatype api_part = ApiContext | RelaySub | MessageV1 | MlsV1 | MigrationV1 | HttpListener | GrpcListener | ApiGoroutines

definition api_Close :: "api_server \<Rightarrow> api_part list" where
  "api_Close srv =
     [ApiContext, RelaySub, MessageV1] @ (if MlsApi \<in> set (sv_grpc srv) then [MlsV1] else []) @
     (if D14NMigrationApi \<in> set (sv_grpc srv) then [MigrationV1] else []) @ [HttpListener, GrpcListener, ApiGoroutines]"

section \<open>From the node's options to a served request\<close>

text \<open>The configuration that \<open>New\<close> of the node hands over: its parts, and the API options as given.\<close>

definition node_config :: "node_parts \<Rightarrow> allow_list \<Rightarrow> Config \<Rightarrow> Config" where
  "node_config np al api_options = api_options\<lparr>cf_Log := True, cf_Waku := True, cf_Store := np_Store np,
     cf_AllowLister := (if np_AllowLister np then Some al else None), cf_MLSStore := (np_MLSStore np \<noteq> None),
     cf_MLSValidator := np_MLSValidator np, cf_RateLimiter := None\<rparr>"

text \<open>
  What a node offers follows from its options: if it starts, the message store was enabled; MLS and identity
  requests are served exactly if an MLS database and a validation service are named and MLS is enabled,
  and the interceptors let a request reach a handler at all only if rate limits are off or an
  authorisation database is named.
\<close>

theorem node_serves:
  assumes "server_New w fault opts = Inr np" and "api_New resolve fault' (node_config np al api_options) = Inr srv"
  shows "opt_Store_Enable opts \<and>
    (set (sv_grpc srv) = {MessageApi} \<union> (if cf_EnableMigration api_options then {D14NMigrationApi} else {}) \<union>
      (if opt_MLSStore_DbConnectionString opts \<noteq> [] \<and> opt_MLSValidation_GRPCAddress opts \<noteq> [] \<and> cf_EnableMLS api_options
       then {MlsApi, IdentityApi} else {})) \<and>
    (cf_Ratelimits api_options \<and> opt_Authz_DbConnectionString opts = [] \<longrightarrow>
      (\<exists>e. intercepted (node_config np al api_options) g ctx req now st handler = (st, Inl e)))"
proof -
  have np: "np = New_parts opts" using assms(1) by (simp add: server_New_ok)
  obtain srv0 where s: "startGRPC fault' (node_config np al api_options) = Inr srv0"
    "srv = srv0\<lparr>sv_http := http_services (node_config np al api_options)\<rparr>"
    "validate resolve (node_config np al api_options) = None"
    using api_New_ok [OF assms(2)] .
  have "opt_Store_Enable opts"
    using s(3) by (simp add: validate_def node_config_def np New_parts_def Let_def split: if_split_asm)
  moreover have "set (sv_grpc srv) = {MessageApi} \<union> (if cf_EnableMigration api_options then {D14NMigrationApi} else {}) \<union>
      (if opt_MLSStore_DbConnectionString opts \<noteq> [] \<and> opt_MLSValidation_GRPCAddress opts \<noteq> [] \<and> cf_EnableMLS api_options
       then {MlsApi, IdentityApi} else {})"
    using s(2) startGRPC_ok(4) [OF s(1)] by (simp add: node_config_def np New_parts_def Let_def mls_enabled_def)
  moreover have "\<exists>e. intercepted (node_config np al api_options) g ctx req now st handler = (st, Inl e)"
    if "cf_Ratelimits api_options" "opt_Authz_DbConnectionString opts = []"
    using that by (intro ratelimits_need_allow_list) (simp_all add: node_config_def np New_parts_def Let_def)
  ultimately show ?thesis by blast
qed

definition test_options :: Options where
  "test_options = \<lparr>opt_LogLevel = ''INFO'', opt_LogEncoding = ''json'', opt_Version = False, opt_GenerateKey = False, opt_CreateMessageMigration = [],
     opt_CreateAuthzMigration = [], opt_CreateMlsMigration = [], opt_Store_Enable = True,
     opt_Store_DbConnectionString = ''postgres://m'', opt_Store_DbReaderConnectionString = ''postgres://m'',
     opt_MLSStore_DbConnectionString = ''postgres://mls'', opt_MLSStore_DbReaderConnectionString = [],
     opt_Authz_DbConnectionString = [], opt_MLSValidation_GRPCAddress = ''localhost:50051'', opt_StaticNodes = [],
     opt_Metrics_Enable = False, opt_Relay_Disable = False, opt_Relay_Topics = []\<rparr>"

theorem node_serves_witness:
  "\<exists>srv. api_New (\<lambda>_. None) (\<lambda>_. None) (node_config (New_parts test_options) \<lparr>permissions = (\<lambda>_. None)\<rparr> test_config) = Inr srv \<and>
    set (sv_grpc srv) = {MessageApi, D14NMigrationApi, MlsApi, IdentityApi} \<and>
    (\<exists>e. intercepted (node_config (New_parts test_options) \<lparr>permissions = (\<lambda>_. None)\<rparr> test_config) test_gate test_ctx OtherRequest 0
      (NewTokenBucketRateLimiter, ()) (\<lambda>s. (s, Inr ())) = ((NewTokenBucketRateLimiter, ()), Inl e))"
proof -
  let ?al = "\<lparr>permissions = (\<lambda>_. None)\<rparr> :: allow_list" and ?np = "New_parts test_options"
  have n: "server_New ''waku'' (\<lambda>_. None) test_options = Inr ?np" by (simp add: server_New_ok)
  obtain srv where srv: "api_New (\<lambda>_. None) (\<lambda>_. None) (node_config ?np ?al test_config) = Inr srv"
    by (simp add: api_New_def validate_def startGRPC_def startHTTP_def node_config_def New_parts_def test_config_def test_options_def
        mls_enabled_def Let_def)
  have "cf_EnableMigration test_config" "cf_EnableMLS test_config" "cf_Ratelimits test_config"
    "opt_MLSStore_DbConnectionString test_options \<noteq> []" "opt_MLSValidation_GRPCAddress test_options \<noteq> []"
    "opt_Authz_DbConnectionString test_options = []" by (simp_all add: test_config_def test_options_def)
  with node_serves [OF n srv, of test_gate test_ctx OtherRequest 0 "(NewTokenBucketRateLimiter, ())" "\<lambda>s. (s, Inr ())"] srv
  show ?thesis by (intro exI [of _ srv]) auto
qed

end
