(* ===== verification/Services.thy ===== *)
theory Services
  imports Backfill Mls_Service Worker Gateway Message_Store Prune Subscribe_Writer Node_Server
begin

text \<open>
  Start, run and stop of the services around their operations: the constructors of pkg/mls/api/v1 (service.go,
  worker.go), pkg/store and pkg/authz, the calls passed on to pkg/mlsvalidate, the loops of the two backfillers
  (pkg/mls/store/backfiller_*.go), of the allow list's refresh and of the store's metrics, and the pruning
  command (cmd/prune/main.go). Contexts and wait groups are the point at which a loop's list of turns ends.

  Shown are which limits a started service works with, that the backfiller drains any backlog without a
  pause, that a failed refresh keeps the last permissions, and what the pruning command refuses.
\<close>

section \<open>The backfillers' loops\<close>

definition second :: int where
  "second = 1000000000"

text \<open>The sleep after a cycle; \<open>foundMessages\<close> is set to false by a selection that comes back empty.\<close>

definition backfill_pause :: "unit result \<Rightarrow> bool \<Rightarrow> int" where
  "backfill_pause err foundMessages =
     (case err of Inl e \<Rightarrow> second | Inr _ \<Rightarrow> if \<not> foundMessages then 60 * second else 0)"

record backfill_turn =
  bt_begin :: fault
  bt_commit :: fault
  bt_select :: fault
  bt_locked :: "int \<Rightarrow> bool"
  bt_update :: "nat \<Rightarrow> fault"

definition is_commit_turn :: "(bytes \<Rightarrow> int) \<Rightarrow> validator \<Rightarrow> backfill_turn \<Rightarrow> mls_db \<Rightarrow> mls_db \<times> int" where
  "is_commit_turn msgSize client t db =
     (let (db', err) = is_commit_cycle msgSize client (bt_begin t) (bt_commit t) (bt_select t) (bt_locked t) (bt_update t) db
      in (db', backfill_pause err (SelectEnvelopesForIsCommitBackfill (bt_select t) (bt_locked t) db \<noteq> Inr [])))"

text \<open>\<open>Run\<close>: the turns until the context is done, with the sleeps between them.\<close>

fun is_commit_Run :: "(bytes \<Rightarrow> int) \<Rightarrow> validator \<Rightarrow> backfill_turn list \<Rightarrow> mls_db \<Rightarrow> mls_db \<times> int list" where
  "is_commit_Run msgSize client [] db = (db, [])"
| "is_commit_Run msgSize client (t # ts) db =
     (let (db1, pause) = is_commit_turn msgSize client t db; (db2, pauses) = is_commit_Run msgSize client ts db1
      in (db2, pause # pauses))"

record installation_turn =
  it_begin :: fault
  it_commit :: fault
  it_select :: fault
  it_locked :: "bytes \<Rightarrow> bool"
  it_insert :: "nat \<Rightarrow> fault"
  it_update :: "nat \<Rightarrow> fault"

definition installations_turn :: "installation_turn \<Rightarrow> mls_db \<Rightarrow> mls_db \<times> int" where
  "installations_turn t db =
     (let (db', err) = installations_cycle (it_begin t) (it_commit t) (it_select t) (it_locked t) (it_insert t) (it_update t) db
      in (db', backfill_pause err (SelectInstallationsToBackfill (it_select t) (it_locked t) db \<noteq> Inr [])))"

fun installations_Run :: "installation_turn list \<Rightarrow> mls_db \<Rightarrow> mls_db \<times> int list" where
  "installations_Run [] db = (db, [])"
| "installations_Run (t # ts) db =
     (let (db1, pause) = installations_turn t db; (db2, pauses) = installations_Run ts db1 in (db2, pause # pauses))"

definition unclassified :: "mls_db \<Rightarrow> GroupMessageRow list" where
  "unclassified db = filter (\<lambda>r. gr_IsCommit r = None) (group_messages db)"

definition classify_rows :: "(bytes \<Rightarrow> bool) \<Rightarrow> GroupMessageRow list \<Rightarrow> mls_db \<Rightarrow> mls_db" where
  "classify_rows verdict rows db = db\<lparr>group_messages :=
     map (\<lambda>r. if r \<in> set rows then r\<lparr>gr_IsCommit := Some (verdict (gr_Data r))\<rparr> else r) (group_messages db)\<rparr>"

lemma classify_rows_simps [simp]:
  "group_messages_seq (classify_rows verdict rows db) = group_messages_seq db"
  "map gr_ID (group_messages (classify_rows verdict rows db)) = map gr_ID (group_messages db)"
  "map gr_GroupIDDataHash (group_messages (classify_rows verdict rows db)) = map gr_GroupIDDataHash (group_messages db)"
  "map gr_Data (group_messages (classify_rows verdict rows db)) = map gr_Data (group_messages db)"
  by (auto simp: classify_rows_def)

lemma groups_ok_classify: "groups_ok db \<Longrightarrow> groups_ok (classify_rows verdict rows db)"
proof -
  assume ok: "groups_ok db"
  have ids: "gr_ID ` set (group_messages (classify_rows verdict rows db)) = gr_ID ` set (group_messages db)"
    by (metis classify_rows_simps(2) list.set_map)
  have "\<forall>r \<in> set (group_messages (classify_rows verdict rows db)). 0 < gr_ID r \<and> gr_ID r < group_messages_seq db"
  proof
    fix r assume "r \<in> set (group_messages (classify_rows verdict rows db))"
    then have "gr_ID r \<in> gr_ID ` set (group_messages db)" using ids by blast
    then show "0 < gr_ID r \<and> gr_ID r < group_messages_seq db" using ok by (auto simp: groups_ok_def log_ok_def)
  qed
  then show ?thesis using ok by (simp add: groups_ok_def log_ok_def ascending_def)
qed

lemma unclassified_upd: "unclassified (db\<lparr>group_messages := rows\<rparr>) = filter (\<lambda>r. gr_IsCommit r = None) rows"
  by (simp add: unclassified_def)

lemma unclassified_classify:
  assumes "groups_ok db"
  shows "unclassified (classify_rows verdict (take n (unclassified db)) db) = drop n (unclassified db)"
proof -
  let ?U = "unclassified db"
  have d: "distinct ?U" using assms ascending_distinct by (auto simp: groups_ok_def log_ok_def unclassified_def)
  let ?f = "\<lambda>r. if r \<in> set (take n ?U) then r\<lparr>gr_IsCommit := Some (verdict (gr_Data r))\<rparr> else r"
  have "unclassified (classify_rows verdict (take n ?U) db) = filter (\<lambda>r. gr_IsCommit r = None) (map ?f (group_messages db))"
    by (simp add: classify_rows_def unclassified_upd)
  also have "\<dots> = map ?f (filter (\<lambda>r. gr_IsCommit (?f r) = None) (group_messages db))" by (simp only: filter_map comp_def)
  also have "filter (\<lambda>r. gr_IsCommit (?f r) = None) (group_messages db) =
      filter (\<lambda>r. gr_IsCommit r = None \<and> r \<notin> set (take n ?U)) (group_messages db)"
    by (rule filter_cong) auto
  also have "map ?f \<dots> = \<dots>" by (rule map_idI) auto
  also have "\<dots> = filter (\<lambda>r. r \<notin> set (take n ?U)) (take n ?U @ drop n ?U)"
    by (simp add: unclassified_def conj_commute)
  also have "\<dots> = drop n ?U"
  proof -
    have "set (take n ?U) \<inter> set (drop n ?U) = {}" using d by (metis append_take_drop_id distinct_append)
    then have "filter (\<lambda>r. r \<notin> set (take n ?U)) (drop n ?U) = drop n ?U" by (intro filter_True) auto
    then show ?thesis by (simp only: filter_append) (simp add: filter_empty_conv)
  qed
  finally show ?thesis .
qed

lemma classify_rows_twice:
  assumes "set ys \<subseteq> set (unclassified db')" and "db' = classify_rows verdict xs db" and "set xs \<subseteq> set (group_messages db)"
  shows "classify_rows verdict ys db' = classify_rows verdict (xs @ ys) db"
proof -
  have "r\<lparr>gr_IsCommit := Some c\<rparr> \<notin> set ys" for r c using assms(1) by (auto simp: unclassified_def)
  then show ?thesis unfolding assms(2) classify_rows_def by (auto simp: comp_def)
qed

definition turn_ok :: "backfill_turn \<Rightarrow> bool" where
  "turn_ok t \<longleftrightarrow> bt_begin t = None \<and> bt_commit t = None \<and> bt_select t = None \<and> bt_locked t = (\<lambda>_. False) \<and> bt_update t = (\<lambda>_. None)"

lemma is_commit_turn_ok:
  assumes "groups_ok db" and "judges client verdict" and "\<forall>r \<in> set (group_messages db). msgSize (gr_Data r) \<le> maxPayloadSize"
    and "turn_ok t"
  shows "is_commit_turn msgSize client t db =
     (classify_rows verdict (take 100 (unclassified db)) db, if unclassified db = [] then 60 * second else 0)"
proof -
  have b: "backlog db = take 100 (unclassified db)" by (simp add: backlog_def limit_def unclassified_def)
  have asc: "ascending gr_ID (group_messages db)" using assms(1) by (simp add: groups_ok_def log_ok_def)
  have "SelectEnvelopesForIsCommitBackfill None (\<lambda>_. False) db \<noteq> Inr [] \<longleftrightarrow> unclassified db \<noteq> []"
    by (simp add: SelectEnvelopesForIsCommitBackfill_def select_asc_ascending [OF asc] unclassified_def limit_def)
  then show ?thesis using is_commit_cycle_exact [OF assms(1-3), of "\<lambda>_. None" "\<lambda>_. False"] assms(4)
    by (simp add: is_commit_turn_def turn_ok_def backfill_pause_def classify_rows_def b)
qed


definition good_turn :: backfill_turn where
  "good_turn = \<lparr>bt_begin = None, bt_commit = None, bt_select = None, bt_locked = (\<lambda>_. False), bt_update = (\<lambda>_. None)\<rparr>"


section \<open>The MLS service\<close>

text \<open>\<open>newDBWorker\<close>: the start points are read before the two loops begin, and an error ends the start.\<close>

definition DEFAULT_POLL_INTERVAL :: int where
  "DEFAULT_POLL_INTERVAL = 25000000"

record dbWorker =
  dw_interval :: int
  dw_group :: int
  dw_welcome :: int

definition worker_start :: "int \<Rightarrow> fault \<Rightarrow> fault \<Rightarrow> mls_db \<Rightarrow> dbWorker result" where
  "worker_start interval f1 f2 db =
     (case getStartPoints f1 f2 db of
        Inl e \<Rightarrow> Inl e
      | Inr (g, w) \<Rightarrow> Inr \<lparr>dw_interval = interval, dw_group = g, dw_welcome = w\<rparr>)"

definition newDBWorker :: "int \<Rightarrow> fault \<Rightarrow> fault \<Rightarrow> mls_db \<Rightarrow> dbWorker result" where
  "newDBWorker pollInterval f1 f2 db =
     worker_start (if pollInterval = 0 then DEFAULT_POLL_INTERVAL else pollInterval) f1 f2 db"

text \<open>The limits of a Subscribe stream, as \<open>NewService\<close> sets them.\<close>

record subscribe_limits =
  sl_pingInterval :: int
  sl_pongDeadline :: int
  sl_maxPendingBytes :: int
  sl_maxFrameBytes :: int
  sl_scanTopicPageLimit :: int
  sl_scanBatchTopics :: int
  sl_scanMaxConcurrent :: int
  sl_scanMaxPendingBytes :: int
  sl_maxMutateAdds :: int

definition default_limits :: subscribe_limits where
  "default_limits = \<lparr>sl_pingInterval = 30 * second, sl_pongDeadline = 30 * second, sl_maxPendingBytes = 64 * 2 ^ 20,
     sl_maxFrameBytes = 2 * 2 ^ 20, sl_scanTopicPageLimit = 64, sl_scanBatchTopics = 256, sl_scanMaxConcurrent = 4,
     sl_scanMaxPendingBytes = 64 * 2 ^ 20, sl_maxMutateAdds = 100000\<rparr>"

record mls_server =
  ml_worker :: dbWorker
  ml_limits :: subscribe_limits
  ml_running :: bool

definition mls_NewService :: "fault \<Rightarrow> fault \<Rightarrow> mls_db \<Rightarrow> mls_server result" where
  "mls_NewService f1 f2 db =
     (case newDBWorker DEFAULT_POLL_INTERVAL f1 f2 db of
        Inl e \<Rightarrow> Inl e
      | Inr w \<Rightarrow> Inr \<lparr>ml_worker = w, ml_limits = default_limits, ml_running = True\<rparr>)"

definition mls_Close :: "mls_server \<Rightarrow> mls_server" where
  "mls_Close s = s\<lparr>ml_running := False\<rparr>"

text \<open>
  What the stream theories ask of the limits holds of those a service starts with: a turn of the fetchers
  is at most 16384 rows, a frame is under the 4 MiB of the client, and a Ping is answered before the next is due.
\<close>

lemma started_limits:
  assumes "mls_NewService f1 f2 db = Inr s"
  shows "ml_limits s = default_limits" and "0 \<le> sl_maxPendingBytes (ml_limits s)"
    and "0 < sl_scanTopicPageLimit (ml_limits s)" and "0 < sl_scanBatchTopics (ml_limits s)"
    and "sl_scanTopicPageLimit (ml_limits s) * sl_scanBatchTopics (ml_limits s) = 16384"
    and "sl_maxFrameBytes (ml_limits s) < 4 * 2 ^ 20" and "sl_pongDeadline (ml_limits s) \<le> sl_pingInterval (ml_limits s)"
  using assms by (auto simp: mls_NewService_def default_limits_def split: sum.split_asm)

text \<open>A service starts where the log ends: nothing that is stored already is dispatched by its worker.\<close>

lemma started_at_the_end:
  assumes "mls_NewService None None db = Inr s"
  shows "filter (\<lambda>r. dw_group (ml_worker s) < gr_ID r) (group_messages db) = []"
    and "filter (\<lambda>r. dw_welcome (ml_worker s) < wr_ID r) (welcome_messages db) = []"
proof -
  have "dw_group (ml_worker s) = max_id gr_ID (group_messages db)" "dw_welcome (ml_worker s) = max_id wr_ID (welcome_messages db)"
    using assms by (auto simp: mls_NewService_def newDBWorker_def worker_start_def getStartPoints_def GetLatestGroupMessageID_def
        GetLatestWelcomeMessageID_def Let_def)
  then show "filter (\<lambda>r. dw_group (ml_worker s) < gr_ID r) (group_messages db) = []"
    "filter (\<lambda>r. dw_welcome (ml_worker s) < wr_ID r) (welcome_messages db) = []"
    using max_id_ge [of _ "group_messages db" gr_ID] max_id_ge [of _ "welcome_messages db" wr_ID]
    by (auto simp: filter_empty_conv not_less)
qed

section \<open>The validation client and the identity service\<close>

text \<open>The remote service is a function of the old and the new updates; its response is passed on as it is.\<close>

definition validation_GetAssociationState :: "('u list \<Rightarrow> 'u list \<Rightarrow> ('s \<times> 'd) result) \<Rightarrow> 'u list \<Rightarrow> 'u list \<Rightarrow> ('s \<times> 'd) result" where
  "validation_GetAssociationState client oldUpdates newUpdates =
     (case client oldUpdates newUpdates of Inl e \<Rightarrow> Inl e | Inr (state, diff) \<Rightarrow> Inr (state, diff))"

definition VerifySmartContractWalletSignatures :: "('q \<Rightarrow> 'r result) \<Rightarrow> 'q \<Rightarrow> 'r result" where
  "VerifySmartContractWalletSignatures client req = (case client req of Inl e \<Rightarrow> Inl e | Inr res \<Rightarrow> Inr res)"

section \<open>The allow list\<close>

definition REFRESH_INTERVAL_SECONDS :: int where
  "REFRESH_INTERVAL_SECONDS = 60"

text \<open>\<open>migrated\<close> is the error of the migration library; the loop then loads once per tick.\<close>

definition allow_list_start :: "go_error option \<Rightarrow> IPAddress list result \<Rightarrow> allow_list \<Rightarrow> allow_list result" where
  "allow_list_start migrated scan d =
     (case migrated of
        Some e \<Rightarrow> Inl e
      | None \<Rightarrow> (case loadPermissions scan d of (d', Some e) \<Rightarrow> Inl e | (d', None) \<Rightarrow> Inr d'))"

definition NewDatabaseAllowList :: "go_error option \<Rightarrow> IPAddress list result \<Rightarrow> allow_list result" where
  "NewDatabaseAllowList migrated scan = allow_list_start migrated scan \<lparr>permissions = (\<lambda>_. None)\<rparr>"

definition listenForChanges :: "IPAddress list result list \<Rightarrow> allow_list \<Rightarrow> allow_list" where
  "listenForChanges scans d = fold refresh_permissions scans d"

lemma refresh_permissions_cases:
  "refresh_permissions (Inl e) d = d"
  "refresh_permissions (Inr rows) d = refresh_permissions (Inr rows) d'"
  by (simp_all add: refresh_permissions_def loadPermissions_def)

text \<open>
  The permissions are those of the last load that succeeded, the first of which is the start's; a row that
  was deleted since is forgotten by it.
\<close>

lemma listenForChanges_last:
  assumes "NewDatabaseAllowList None (Inr rows0) = Inr d" and "scans = earlier @ Inr rows # failed" and "\<forall>x \<in> set failed. \<exists>e. x = Inl e"
  shows "listenForChanges scans d = refresh_permissions (Inr rows) d"
proof -
  have "fold refresh_permissions failed d' = d'" for d'
    using assms(3) by (induction failed) (auto simp: refresh_permissions_cases(1))
  then have "listenForChanges scans d = refresh_permissions (Inr rows) (fold refresh_permissions earlier d)"
    using assms(2) by (simp add: listenForChanges_def)
  also have "\<dots> = refresh_permissions (Inr rows) d" by (rule refresh_permissions_cases(2))
  finally show ?thesis .
qed

section \<open>The older message store\<close>

record store_config =
  sc_Log :: bool
  sc_DB :: bool
  sc_ReaderDB :: bool
  sc_CleanerDB :: bool
  sc_MetricsPeriod :: int
  sc_Cleaner_Enable :: bool

definition store_validate :: "store_config \<Rightarrow> go_error option" where
  "store_validate c =
     (if \<not> sc_Log c then Some (Err ''missing log option'')
      else if \<not> sc_DB c then Some (Err ''missing db option'')
      else if \<not> sc_ReaderDB c then Some (Err ''missing reader db option'')
      else if \<not> sc_CleanerDB c then Some (Err ''missing cleaner db option'') else None)"

record message_store =
  st_started :: bool
  st_metrics :: bool
  st_cleaner :: bool

text \<open>\<open>migrateErr\<close> is the error of the migrations; the metrics loop ends at once when its period is 0.\<close>

definition store_start :: "go_error option \<Rightarrow> store_config \<Rightarrow> message_store \<Rightarrow> message_store result" where
  "store_start migrateErr c s =
     (if st_started s then Inr s
      else case migrateErr of
             Some e \<Rightarrow> Inl e
           | None \<Rightarrow> Inr \<lparr>st_started = True, st_metrics = (sc_MetricsPeriod c \<noteq> 0), st_cleaner = sc_Cleaner_Enable c\<rparr>)"

definition message_store_New :: "go_error option \<Rightarrow> store_config \<Rightarrow> message_store result" where
  "message_store_New migrateErr c =
     (case store_validate c of
        Some e \<Rightarrow> Inl e
      | None \<Rightarrow> store_start migrateErr c \<lparr>st_started = False, st_metrics = False, st_cleaner = False\<rparr>)"

text \<open>The cleaner is not in the wait group: it ends at its next turn, and \<open>Close\<close> does not wait for it.\<close>

definition message_store_Close :: "message_store \<Rightarrow> message_store" where
  "message_store_Close s = \<lparr>st_started = False, st_metrics = False, st_cleaner = False\<rparr>"

lemma message_store_New_ok:
  "message_store_New m c = Inr s \<longleftrightarrow> sc_Log c \<and> sc_DB c \<and> sc_ReaderDB c \<and> sc_CleanerDB c \<and> m = None \<and>
     s = \<lparr>st_started = True, st_metrics = (sc_MetricsPeriod c \<noteq> 0), st_cleaner = sc_Cleaner_Enable c\<rparr>"
  by (auto simp: message_store_New_def store_validate_def store_start_def split: option.split)

section \<open>The pruning command: cmd/prune/main.go\<close>

record PruneOptions =
  po_DbConnectionString :: string
  po_ReadTimeout :: int
  po_PruneConfig :: PruneConfig
  po_Version :: bool

text \<open>A timeout in the environment that does not parse is logged and ignored.\<close>

definition prune_addEnvVars :: "(string \<Rightarrow> string option) \<Rightarrow> (string \<Rightarrow> int result) \<Rightarrow> PruneOptions \<Rightarrow> PruneOptions" where
  "prune_addEnvVars LookupEnv ParseDuration opts =
     (let opts1 = opts\<lparr>po_DbConnectionString := env_or LookupEnv ''MLS_DB_CONNECTION_STRING'' (po_DbConnectionString opts)\<rparr>
      in case LookupEnv ''MLS_DB_READ_TIMEOUT'' of
           None \<Rightarrow> opts1
         | Some timeoutStr \<Rightarrow> (case ParseDuration timeoutStr of Inl e \<Rightarrow> opts1 | Inr duration \<Rightarrow> opts1\<lparr>po_ReadTimeout := duration\<rparr>))"

definition ValidatePruneOptions :: "PruneOptions \<Rightarrow> go_error option" where
  "ValidatePruneOptions opts =
     (if po_DbConnectionString opts = [] then Some (Err ''missing required arguments: --mls-store.db-connection-string'')
      else if MaxCycles (po_PruneConfig opts) < 1 then Some (Err ''max-cycles must be greater than 0'') else None)"

datatype prune_outcome = PruneVersion | PruneRefused go_error | PruneRan mls_db "go_error option"

text \<open>\<open>opened\<close> is the error of the logger or the pool.\<close>

definition prune_main :: "(string \<Rightarrow> string option) \<Rightarrow> (string \<Rightarrow> int result) \<Rightarrow> go_error option \<Rightarrow> PruneOptions \<Rightarrow> (Pruner \<Rightarrow> prune_env) \<Rightarrow>
    (Pruner \<Rightarrow> nat \<Rightarrow> prune_env) \<Rightarrow> Pruner list \<Rightarrow> mls_db \<Rightarrow> prune_outcome" where
  "prune_main LookupEnv ParseDuration opened options cenv envs order db =
     (let opts = prune_addEnvVars LookupEnv ParseDuration options in
      if po_Version opts then PruneVersion
      else case ValidatePruneOptions opts of
             Some e \<Rightarrow> PruneRefused e
           | None \<Rightarrow> (case opened of
                 Some e \<Rightarrow> PruneRefused e
               | None \<Rightarrow> (case prune_Run (po_PruneConfig opts) cenv envs order db of (db', err) \<Rightarrow> PruneRan db' err)))"

text \<open>A batch size below 100 is not refused with the other bad options: the command panics after it opened the database.\<close>

lemma small_batch_panics:
  assumes "BatchSize (po_PruneConfig options) < 100" and "\<not> po_Version options"
    and "ValidatePruneOptions (prune_addEnvVars LookupEnv ParseDuration options) = None"
  shows "prune_main LookupEnv ParseDuration None options cenv envs order db = PruneRan db (Some (Panic ''batchSize must be at least 100''))"
  using assms by (auto simp: prune_main_def prune_addEnvVars_def prune_Run_def Let_def split: option.split sum.split)

text \<open>A run that is refused, or dry, leaves every table as it is.\<close>

lemma dry_run_keeps:
  assumes "DryRun (po_PruneConfig options)" and "prune_main LookupEnv ParseDuration opened options cenv envs order db = PruneRan db' err"
  shows "db' = db"
proof -
  have "fst (run_pruners c cenv envs order db) = db" if "DryRun c" for c
    using that by (induction order) (auto simp: run_pruner_def Let_def split_beta split: sum.split)
  moreover have "DryRun (po_PruneConfig (prune_addEnvVars LookupEnv ParseDuration options))"
    using assms(1) by (auto simp: prune_addEnvVars_def Let_def split: option.split sum.split)
  ultimately show ?thesis using assms(2)
    by (auto simp: prune_main_def prune_Run_def Let_def split_beta split: if_split_asm option.split_asm)
qed

end
